(* ===== verification/Prelude.thy ===== *)
theory Prelude
  imports Main "HOL-Library.Word"
begin

unbundle bit_operations_syntax

text \<open>
  The types and lemmas every component shares: the error values, the error monad written with
  \<open>bindE\<close>, and arithmetic of bit lists.  A computation of the program that can throw, abort or
  leave the language's defined behaviour has type \<open>'a res\<close>; \<open>Inl\<close> carries the reason.
\<close>

section \<open>Errors as values\<close>

datatype error =
    Length_error            \<comment> \<open>\<open>std::length_error\<close>: a container grown past its maximum\<close>
  | Out_of_range            \<comment> \<open>\<open>std::out_of_range\<close>: a checked access failed\<close>
  | Invalid_argument        \<comment> \<open>\<open>std::invalid_argument\<close>: a conversion found no number\<close>
  | Assert_failed           \<comment> \<open>\<open>log_assert\<close> or \<open>do_assert\<close>\<close>
  | Log_error               \<comment> \<open>\<open>log_error\<close>: the pass reports and stops\<close>
  | Undefined_behaviour     \<comment> \<open>an access the language leaves undefined\<close>
  | Diverges                \<comment> \<open>a loop bound of the model is exhausted\<close>

type_synonym 'a res = "error + 'a"

definition bindE :: "'a res \<Rightarrow> ('a \<Rightarrow> 'b res) \<Rightarrow> 'b res" where
  "bindE r f = (case r of Inl e \<Rightarrow> Inl e | Inr x \<Rightarrow> f x)"

definition guardE :: "bool \<Rightarrow> error \<Rightarrow> 'a res \<Rightarrow> 'a res" where
  "guardE ok e r = (if ok then r else Inl e)"

definition returns :: "'a res \<Rightarrow> bool" where
  "returns r \<longleftrightarrow> (case r of Inl _ \<Rightarrow> False | Inr _ \<Rightarrow> True)"

lemma bindE_Inr [simp]: "bindE (Inr x) f = f x"
  by (simp add: bindE_def)

lemma bindE_Inl [simp]: "bindE (Inl e) f = Inl e"
  by (simp add: bindE_def)

lemma bindE_eq_Inr_iff: "bindE r f = Inr y \<longleftrightarrow> (\<exists>x. r = Inr x \<and> f x = Inr y)"
  by (cases r) simp_all

lemma bindE_InrE [elim!]:
  assumes "bindE r f = Inr y" obtains x where "r = Inr x" "f x = Inr y"
  using assms by (auto simp: bindE_eq_Inr_iff)

lemma guardE_True [simp]: "guardE True e r = r"
  by (simp add: guardE_def)

lemma guardE_False [simp]: "guardE False e r = Inl e"
  by (simp add: guardE_def)

lemma guardE_eq_Inr_iff [simp]: "guardE b e r = Inr y \<longleftrightarrow> b \<and> r = Inr y"
  by (simp add: guardE_def)

lemma returns_simps [simp]: "returns (Inr x)" "\<not> returns (Inl e)"
  by (simp_all add: returns_def)

lemma returns_iff: "returns r \<longleftrightarrow> (\<exists>x. r = Inr x)"
  by (cases r) simp_all

text \<open>A loop over a list whose body may fail stops at the first failure.\<close>

fun foldE :: "('s \<Rightarrow> 'a \<Rightarrow> 's res) \<Rightarrow> 's \<Rightarrow> 'a list \<Rightarrow> 's res" where
  "foldE f s [] = Inr s"
| "foldE f s (x # xs) = bindE (f s x) (\<lambda>s'. foldE f s' xs)"

lemma foldE_append: "foldE f s (xs @ ys) = bindE (foldE f s xs) (\<lambda>s'. foldE f s' ys)"
  by (induction xs arbitrary: s) (auto simp: bindE_def split: sum.splits)

lemma foldE_invariant:
  assumes "foldE f s xs = Inr t" "P s"
    and "\<And>s x s'. P s \<Longrightarrow> x \<in> set xs \<Longrightarrow> f s x = Inr s' \<Longrightarrow> P s'"
  shows "P t"
  using assms
proof (induction xs arbitrary: s)
  case Nil
  then show ?case by simp
next
  case (Cons x xs)
  from Cons.prems(1) obtain s' where s': "f s x = Inr s'" "foldE f s' xs = Inr t"
    by auto
  have "P s'"
    by (rule Cons.prems(3) [OF Cons.prems(2) _ s'(1)]) simp
  then show ?case
    by (rule Cons.IH [OF s'(2)]) (erule Cons.prems(3), simp_all)
qed

section \<open>Bit lists as integers\<close>

text \<open>The value of a bit list, least significant bit first: unsigned, and in two's complement.\<close>

definition ubl :: "bool list \<Rightarrow> int" where
  "ubl bs = horner_sum of_bool 2 bs"

definition sbl :: "bool list \<Rightarrow> int" where
  "sbl bs = (if bs \<noteq> [] \<and> last bs then ubl bs - 2 ^ length bs else ubl bs)"

definition bl_of_int :: "nat \<Rightarrow> int \<Rightarrow> bool list" where
  "bl_of_int n v = map (bit v) [0..<n]"

lemma ubl_Nil [simp]: "ubl [] = 0"
  by (simp add: ubl_def)

lemma ubl_Cons [simp]: "ubl (b # bs) = of_bool b + 2 * ubl bs"
  by (simp add: ubl_def)

lemma ubl_append: "ubl (xs @ ys) = ubl xs + 2 ^ length xs * ubl ys"
  by (simp add: ubl_def horner_sum_append)

lemma bit_ubl: "bit (ubl bs) i \<longleftrightarrow> i < length bs \<and> bs ! i"
  by (simp add: ubl_def bit_horner_sum_bit_iff)

lemma ubl_nonneg [simp]: "0 \<le> ubl bs"
  by (induction bs) auto

lemma ubl_less: "ubl bs < 2 ^ length bs"
  by (induction bs) auto

lemma length_bl_of_int [simp]: "length (bl_of_int n v) = n"
  by (simp add: bl_of_int_def)

lemma nth_bl_of_int [simp]: "i < n \<Longrightarrow> bl_of_int n v ! i = bit v i"
  by (simp add: bl_of_int_def)

lemma ubl_bl_of_int: "ubl (bl_of_int n v) = v mod 2 ^ n"
proof -
  have "ubl (bl_of_int n v) = take_bit n v"
    by (rule bit_eqI) (auto simp: bit_ubl bit_take_bit_iff)
  then show ?thesis
    by (simp add: take_bit_eq_mod)
qed

lemma bl_of_int_ubl [simp]: "bl_of_int (length bs) (ubl bs) = bs"
  by (rule nth_equalityI) (auto simp: bit_ubl)

lemma bl_of_int_take: "n \<le> length xs \<Longrightarrow> bl_of_int n (ubl xs) = take n xs"
  by (rule nth_equalityI) (auto simp: bit_ubl)

lemma bl_of_int_cong:
  assumes "v mod 2 ^ n = w mod 2 ^ n"
  shows "bl_of_int n v = bl_of_int n w"
proof (rule nth_equalityI)
  fix i assume i: "i < length (bl_of_int n v)"
  have "take_bit n v = take_bit n w"
    using assms by (simp add: take_bit_eq_mod)
  then have "bit (take_bit n v) i = bit (take_bit n w) i"
    by simp
  then show "bl_of_int n v ! i = bl_of_int n w ! i"
    using i by (simp add: bit_take_bit_iff)
qed simp

lemma ubl_inj: "length xs = length ys \<Longrightarrow> ubl xs = ubl ys \<Longrightarrow> xs = ys"
  by (metis bl_of_int_ubl)

lemma sbl_mod: "sbl bs mod 2 ^ length bs = ubl bs"
proof -
  have "(ubl bs - 2 ^ length bs) mod 2 ^ length bs = ubl bs mod 2 ^ length bs"
    by (metis minus_mod_self2)
  then show ?thesis
    using ubl_less [of bs] by (auto simp: sbl_def)
qed

lemma ubl_replicate_False [simp]: "ubl (replicate n False) = 0"
  by (induction n) auto

lemma ubl_replicate_True: "ubl (replicate n True) = 2 ^ n - 1"
  by (induction n) auto

lemma ubl_eq_0_iff: "ubl bs = 0 \<longleftrightarrow> (\<forall>b\<in>set bs. \<not> b)"
proof (induction bs)
  case (Cons b bs)
  have "0 \<le> ubl bs" by simp
  then show ?case
    using Cons by (cases b) auto
qed simp

lemma ubl_Suc_last:
  "ubl (xs @ [b]) = ubl xs + 2 ^ length xs * of_bool b"
  by (simp add: ubl_append)

lemma sbl_snoc: "sbl (xs @ [b]) = ubl xs - 2 ^ length xs * of_bool b"
  by (simp add: sbl_def ubl_append)

lemma sbl_Nil [simp]: "sbl [] = 0"
  by (simp add: sbl_def)

lemma ubl_map_Not: "ubl (map Not bs) = 2 ^ length bs - 1 - ubl bs"
  by (induction bs) auto

text \<open>Sign and zero extension.\<close>

lemma ubl_zext: "ubl (bs @ replicate k False) = ubl bs"
  by (simp add: ubl_append)

lemma ubl_sext:
  assumes "bs \<noteq> []"
  shows "ubl (bs @ replicate k (last bs)) = sbl bs mod 2 ^ (length bs + k)"
proof -
  let ?n = "length bs + k"
  let ?u = "ubl (bs @ replicate k (last bs))"
  have u: "?u = ubl bs + 2 ^ length bs * ubl (replicate k (last bs))"
    by (rule ubl_append)
  have "?u mod 2 ^ ?n = sbl bs mod 2 ^ ?n"
  proof (cases "last bs")
    case True
    have "?u = sbl bs + 2 ^ ?n"
      unfolding u using assms True
      by (simp add: ubl_replicate_True sbl_def power_add right_diff_distrib)
    then show ?thesis by simp
  next
    case False
    then show ?thesis
      unfolding u by (simp add: sbl_def)
  qed
  moreover have "?u < 2 ^ ?n"
    using ubl_less [of "bs @ replicate k (last bs)"] by simp
  ultimately show ?thesis
    by (simp only: mod_pos_pos_trivial [OF ubl_nonneg])
qed

end
