(* ===== verification/RtlilConst.thy ===== *)
theory RtlilConst
  imports Prelude
begin

text \<open>
  RTLIL constants: the six-valued bit type \<open>RTLIL::State\<close> and the methods of \<open>RTLIL::Const\<close>
  (\<open>kernel/rtlil.h\<close>, \<open>kernel/rtlil.cc\<close>).  A constant is a list of states, least significant bit
  first, with a flag word that records how the constant was written.
\<close>

section \<open>Bit states\<close>

datatype state = S0 | S1 | Sx | Sz | Sa | Sm

primrec state_code :: "state \<Rightarrow> nat" where
  "state_code S0 = 0"
| "state_code S1 = 1"
| "state_code Sx = 2"
| "state_code Sz = 3"
| "state_code Sa = 4"
| "state_code Sm = 5"

lemma state_code_inject [simp]: "state_code a = state_code b \<longleftrightarrow> a = b"
  by (cases a; cases b) simp_all

instantiation state :: linorder
begin

definition less_eq_state :: "state \<Rightarrow> state \<Rightarrow> bool" where
  "less_eq_state a b \<longleftrightarrow> state_code a \<le> state_code b"

definition less_state :: "state \<Rightarrow> state \<Rightarrow> bool" where
  "less_state a b \<longleftrightarrow> state_code a < state_code b"

instance
  by standard (auto simp: less_eq_state_def less_state_def)

end

definition defined :: "state \<Rightarrow> bool" where
  "defined s \<longleftrightarrow> s = S0 \<or> s = S1"

definition st :: "bool \<Rightarrow> state" where
  "st b = (if b then S1 else S0)"

lemma defined_simps [simp]:
  "defined S0" "defined S1" "\<not> defined Sx" "\<not> defined Sz" "\<not> defined Sa" "\<not> defined Sm"
  by (simp_all add: defined_def)

lemma defined_st [simp]: "defined (st b)"
  by (simp add: st_def)

lemma st_eq [simp]: "st b = S1 \<longleftrightarrow> b" "st b = S0 \<longleftrightarrow> \<not> b" "st b \<noteq> Sx" "st b = st c \<longleftrightarrow> b = c"
  by (simp_all add: st_def)

lemma st_simps [simp]: "st True = S1" "st False = S0"
  by (simp_all add: st_def)

lemma st_of_defined: "defined s \<Longrightarrow> st (s = S1) = s"
  by (auto simp: defined_def)

lemma le_S1_iff [simp]: "s \<le> S1 \<longleftrightarrow> defined s"
  by (cases s) (simp_all add: less_eq_state_def)

lemma S1_less_iff [simp]: "S1 < s \<longleftrightarrow> \<not> defined s"
  by (cases s) (simp_all add: less_state_def)

section \<open>The constant type and its constructors\<close>

record const_t =
  flags :: nat
  bits :: "state list"

definition CONST_FLAG_NONE :: nat where "CONST_FLAG_NONE = 0"
definition CONST_FLAG_STRING :: nat where "CONST_FLAG_STRING = 1"
definition CONST_FLAG_SIGNED :: nat where "CONST_FLAG_SIGNED = 2"
definition CONST_FLAG_REAL :: nat where "CONST_FLAG_REAL = 4"

definition Const_empty :: const_t where
  "Const_empty = \<lparr>flags = CONST_FLAG_NONE, bits = []\<rparr>"

fun char_bits :: "nat \<Rightarrow> nat \<Rightarrow> state list" where
  "char_bits 0 ch = []"
| "char_bits (Suc j) ch = st (ch AND 1 \<noteq> 0) # char_bits j (drop_bit 1 ch)"

definition Const_string :: "string \<Rightarrow> const_t" where
  "Const_string str =
     \<lparr>flags = CONST_FLAG_STRING, bits = concat (map (\<lambda>c. char_bits 8 (of_char c)) (rev str))\<rparr>"

fun int_bits :: "nat \<Rightarrow> int \<Rightarrow> state list" where
  "int_bits 0 val = []"
| "int_bits (Suc i) val = st (val AND 1 \<noteq> 0) # int_bits i (drop_bit 1 val)"

text \<open>
  \<open>bits.reserve(width)\<close> converts a negative width to a huge \<open>size_t\<close> and throws
  \<open>std::length_error\<close>.
\<close>

definition Const_int :: "int \<Rightarrow> int \<Rightarrow> const_t res" where
  "Const_int val width = guardE (0 \<le> width) Length_error
     (Inr \<lparr>flags = CONST_FLAG_NONE, bits = int_bits (nat width) val\<rparr>)"

definition Const_state :: "state \<Rightarrow> int \<Rightarrow> const_t res" where
  "Const_state b width = guardE (0 \<le> width) Length_error
     (Inr \<lparr>flags = CONST_FLAG_NONE, bits = replicate (nat width) b\<rparr>)"

definition Const_bits :: "state list \<Rightarrow> const_t" where
  "Const_bits bs = \<lparr>flags = CONST_FLAG_NONE, bits = bs\<rparr>"

definition Const_bools :: "bool list \<Rightarrow> const_t" where
  "Const_bools bs = \<lparr>flags = CONST_FLAG_NONE, bits = map (\<lambda>b. if b then S1 else S0) bs\<rparr>"

definition Const_copy :: "const_t \<Rightarrow> const_t" where
  "Const_copy c = \<lparr>flags = flags c, bits = bits c\<rparr>"

section \<open>Methods\<close>

fun states_less :: "state list \<Rightarrow> state list \<Rightarrow> bool" where
  "states_less (a # as) (b # bs) = (if a \<noteq> b then a < b else states_less as bs)"
| "states_less _ _ = False"

definition Const_less :: "const_t \<Rightarrow> const_t \<Rightarrow> bool" where
  "Const_less c d =
     (if length (bits c) \<noteq> length (bits d) then length (bits c) < length (bits d)
      else states_less (bits c) (bits d))"

definition Const_eq :: "const_t \<Rightarrow> const_t \<Rightarrow> bool" where
  "Const_eq c d \<longleftrightarrow> bits c = bits d"

definition Const_neq :: "const_t \<Rightarrow> const_t \<Rightarrow> bool" where
  "Const_neq c d \<longleftrightarrow> bits c \<noteq> bits d"

fun any_one :: "state list \<Rightarrow> bool" where
  "any_one [] = False"
| "any_one (b # bs) = (if b = S1 then True else any_one bs)"

definition as_bool :: "const_t \<Rightarrow> bool" where
  "as_bool c = any_one (bits c)"

definition as_int_word :: "state list \<Rightarrow> bool \<Rightarrow> 32 word" where
  "as_int_word bs is_signed =
     (let ret = foldl (\<lambda>r i. if bs ! i = S1 then r OR push_bit i 1 else r) 0
                  [0..<min (length bs) 32]
      in if is_signed \<and> last bs = S1
         then foldl (\<lambda>r i. r OR push_bit i 1) ret [length bs..<32]
         else ret)"

definition as_int :: "const_t \<Rightarrow> bool \<Rightarrow> int res" where
  "as_int c is_signed =
     guardE (\<not> (is_signed \<and> bits c = [])) Undefined_behaviour
       (Inr (sint (as_int_word (bits c) is_signed)))"

primrec state_char :: "state \<Rightarrow> char" where
  "state_char S0 = CHR ''0''"
| "state_char S1 = CHR ''1''"
| "state_char Sx = CHR ''x''"
| "state_char Sz = CHR ''z''"
| "state_char Sa = CHR ''-''"
| "state_char Sm = CHR ''m''"

definition as_string :: "const_t \<Rightarrow> string" where
  "as_string c = map state_char (rev (bits c))"

definition char_state :: "char \<Rightarrow> state" where
  "char_state ch =
     (if ch = CHR ''0'' then S0
      else if ch = CHR ''1'' then S1
      else if ch = CHR ''x'' then Sx
      else if ch = CHR ''z'' then Sz
      else if ch = CHR ''m'' then Sm
      else Sa)"

definition from_string :: "string \<Rightarrow> const_t" where
  "from_string str = \<lparr>flags = CONST_FLAG_NONE, bits = map char_state (rev str)\<rparr>"

fun decode_ch :: "nat \<Rightarrow> state list \<Rightarrow> nat \<Rightarrow> nat" where
  "decode_ch j [] ch = ch"
| "decode_ch j (b # bs) ch = decode_ch (Suc j) bs (if b = S1 then ch OR push_bit j 1 else ch)"

function decode_chars :: "state list \<Rightarrow> string" where
  "decode_chars bs =
     (if bs = [] then []
      else let ch = decode_ch 0 (take 8 bs) 0
           in (if ch \<noteq> 0 then [char_of ch] else []) @ decode_chars (drop 8 bs))"
  by pat_completeness auto
termination
  by (relation "measure length") auto

declare decode_chars.simps [simp del]

definition decode_string :: "const_t \<Rightarrow> string" where
  "decode_string c = rev (decode_chars (bits c))"

definition is_fully_zero :: "const_t \<Rightarrow> bool" where
  "is_fully_zero c \<longleftrightarrow> list_all (\<lambda>b. b = S0) (bits c)"

definition is_fully_ones :: "const_t \<Rightarrow> bool" where
  "is_fully_ones c \<longleftrightarrow> list_all (\<lambda>b. b = S1) (bits c)"

definition is_fully_def :: "const_t \<Rightarrow> bool" where
  "is_fully_def c \<longleftrightarrow> list_all (\<lambda>b. \<not> (b \<noteq> S0 \<and> b \<noteq> S1)) (bits c)"

definition is_fully_undef :: "const_t \<Rightarrow> bool" where
  "is_fully_undef c \<longleftrightarrow> list_all (\<lambda>b. \<not> (b \<noteq> Sx \<and> b \<noteq> Sz)) (bits c)"

text \<open>\<open>is_onehot\<close> also reports, through its pointer argument, the last position it wrote.\<close>

fun onehot_loop :: "nat \<Rightarrow> state list \<Rightarrow> bool \<Rightarrow> nat option \<Rightarrow> bool \<times> nat option" where
  "onehot_loop i [] found pos = (found, pos)"
| "onehot_loop i (b # bs) found pos =
     (if b \<noteq> S0 \<and> b \<noteq> S1 then (False, pos)
      else if b = S1 then
        (if found then (False, pos) else onehot_loop (Suc i) bs True (Some i))
      else onehot_loop (Suc i) bs found pos)"

definition is_onehot :: "const_t \<Rightarrow> bool \<times> nat option" where
  "is_onehot c = onehot_loop 0 (bits c) False None"

text \<open>Inline methods of the class body.\<close>

definition Const_at :: "const_t \<Rightarrow> int \<Rightarrow> state res" where
  "Const_at c i = guardE (0 \<le> i \<and> i < int (length (bits c))) Out_of_range (Inr (bits c ! nat i))"

definition Const_extract :: "const_t \<Rightarrow> int \<Rightarrow> int \<Rightarrow> state \<Rightarrow> const_t res" where
  "Const_extract c offset len padding =
     guardE (0 \<le> len) Length_error
       (guardE (len = 0 \<or> 0 \<le> offset) Undefined_behaviour
         (Inr \<lparr>flags = CONST_FLAG_NONE,
               bits = map (\<lambda>i. if i < int (length (bits c)) then bits c ! nat i else padding)
                        [offset..offset + len - 1]\<rparr>))"

definition resize_states :: "nat \<Rightarrow> state \<Rightarrow> state list \<Rightarrow> state list" where
  "resize_states n pad bs = take n bs @ replicate (n - length bs) pad"

definition Const_extu :: "const_t \<Rightarrow> int \<Rightarrow> const_t res" where
  "Const_extu c width =
     guardE (0 \<le> width) Length_error (Inr (c\<lparr>bits := resize_states (nat width) S0 (bits c)\<rparr>))"

definition Const_exts :: "const_t \<Rightarrow> int \<Rightarrow> const_t res" where
  "Const_exts c width =
     guardE (0 \<le> width) Length_error
       (Inr (c\<lparr>bits := resize_states (nat width) (if bits c = [] then Sx else last (bits c)) (bits c)\<rparr>))"

section \<open>Values of constants\<close>

text \<open>The integer a bit list denotes; bits that are neither 0 nor 1 count as 0.\<close>

definition uval :: "state list \<Rightarrow> int" where
  "uval bs = ubl (map (\<lambda>s. s = S1) bs)"

definition sval :: "state list \<Rightarrow> int" where
  "sval bs = sbl (map (\<lambda>s. s = S1) bs)"

definition fully_def :: "state list \<Rightarrow> bool" where
  "fully_def bs \<longleftrightarrow> (\<forall>b\<in>set bs. defined b)"

lemma fully_def_simps [simp]:
  "fully_def []" "fully_def (b # bs) \<longleftrightarrow> defined b \<and> fully_def bs"
  "fully_def (xs @ ys) \<longleftrightarrow> fully_def xs \<and> fully_def ys"
  "fully_def (map st cs)"
  "fully_def (replicate n b) \<longleftrightarrow> n = 0 \<or> defined b"
  by (auto simp: fully_def_def)

lemma fully_def_take [simp]: "fully_def bs \<Longrightarrow> fully_def (take n bs)"
  by (auto simp: fully_def_def dest: in_set_takeD)

lemma fully_def_last: "fully_def bs \<Longrightarrow> bs \<noteq> [] \<Longrightarrow> defined (last bs)"
  by (simp add: fully_def_def)

lemma fully_def_nth: "fully_def bs \<Longrightarrow> i < length bs \<Longrightarrow> defined (bs ! i)"
  by (simp add: fully_def_def)

lemma map_st_bools: "fully_def bs \<Longrightarrow> map st (map (\<lambda>s. s = S1) bs) = bs"
  by (induction bs) (auto simp: st_of_defined)

lemma fully_def_obtain:
  assumes "fully_def bs" obtains cs where "bs = map st cs"
  using map_st_bools [OF assms] by metis

lemma is_fully_def_iff [simp]: "is_fully_def c \<longleftrightarrow> fully_def (bits c)"
  by (auto simp: is_fully_def_def fully_def_def list_all_iff defined_def)

lemma uval_map_st [simp]: "uval (map st cs) = ubl cs"
  by (simp add: uval_def comp_def)

lemma sval_map_st [simp]: "sval (map st cs) = sbl cs"
  by (simp add: sval_def comp_def)

lemma uval_nonneg [simp]: "0 \<le> uval bs"
  by (simp add: uval_def)

lemma uval_less: "uval bs < 2 ^ length bs"
  using ubl_less [of "map (\<lambda>s. s = S1) bs"] by (simp add: uval_def)

lemma bit_uval: "bit (uval bs) i \<longleftrightarrow> i < length bs \<and> bs ! i = S1"
  by (auto simp: uval_def bit_ubl)

lemma uval_inj:
  assumes "fully_def xs" "fully_def ys" "length xs = length ys" "uval xs = uval ys"
  shows "xs = ys"
  using assms by (metis fully_def_obtain length_map ubl_inj uval_map_st)

lemma sval_eq:
  "sval bs = (if bs \<noteq> [] \<and> last bs = S1 then uval bs - 2 ^ length bs else uval bs)"
  by (cases "bs = []") (simp_all add: sval_def sbl_def uval_def last_map)

section \<open>Round trips and values of the methods\<close>

lemma state_char_inverse [simp]: "char_state (state_char s) = s"
  by (cases s) (simp_all add: char_state_def)

text \<open>Printing a constant with \<open>as_string\<close> and parsing it back with \<open>from_string\<close> gives
  the same bits, for all six bit states.\<close>

theorem from_string_as_string: "bits (from_string (as_string c)) = bits c"
  by (simp add: from_string_def as_string_def comp_def rev_map [symmetric])

lemma length_char_bits [simp]: "length (char_bits n ch) = n"
  by (induction n arbitrary: ch) simp_all

lemma nth_char_bits: "i < n \<Longrightarrow> char_bits n ch ! i = st (bit ch i)"
  by (induction n arbitrary: i ch)
     (auto simp: nth_Cons bit_0 and_one_eq mod_2_eq_odd bit_drop_bit_eq split: nat.splits)

lemma bit_decode_ch:
  "bit (decode_ch j bs acc) i \<longleftrightarrow> bit acc i \<or> (j \<le> i \<and> i - j < length bs \<and> bs ! (i - j) = S1)"
proof (induction bs arbitrary: j acc)
  case (Cons b bs)
  have "bit (decode_ch j (b # bs) acc) i \<longleftrightarrow>
      bit (if b = S1 then acc OR push_bit j 1 else acc) i \<or>
      (Suc j \<le> i \<and> i - Suc j < length bs \<and> bs ! (i - Suc j) = S1)"
    by (simp add: Cons.IH)
  also have "bit (if b = S1 then acc OR push_bit j 1 else acc) i \<longleftrightarrow> bit acc i \<or> (b = S1 \<and> i = j)"
    by (auto simp: bit_or_iff bit_exp_iff)
  finally show ?case
    by (cases "i = j"; cases "j \<le> i") (auto simp: nth_Cons' Suc_le_eq)
qed simp

lemma of_char_less_256: "(of_char c :: nat) < 256"
  by (cases c) (auto simp: of_char_def)

lemma of_char_eq_0_iff: "(of_char c :: nat) = 0 \<longleftrightarrow> c = CHR 0x00"
  by (cases c) (auto simp: of_char_def)

lemma decode_char_bits: "decode_ch 0 (char_bits 8 (of_char c)) 0 = of_char c"
proof (rule bit_eqI)
  fix i
  have "take_bit 8 (of_char c :: nat) = of_char c"
    using of_char_less_256 [of c] by (simp add: take_bit_nat_eq_self)
  then have "bit (of_char c :: nat) i \<Longrightarrow> i < 8"
    by (metis bit_take_bit_iff)
  then show "bit (decode_ch 0 (char_bits 8 (of_char c)) 0) i = bit (of_char c :: nat) i"
    by (auto simp: bit_decode_ch nth_char_bits)
qed

lemma decode_chars_concat:
  "CHR 0x00 \<notin> set cs \<Longrightarrow> decode_chars (concat (map (\<lambda>c. char_bits 8 (of_char c)) cs)) = cs"
proof (induction cs)
  case Nil
  then show ?case by (simp add: decode_chars.simps)
next
  case (Cons c cs)
  have "(of_char c :: nat) \<noteq> 0"
    using Cons.prems by (auto simp: of_char_eq_0_iff)
  moreover have "char_bits 8 (of_char c) \<noteq> []"
    by (metis length_char_bits list.size(3) zero_neq_numeral)
  ultimately show ?case
    using Cons by (subst decode_chars.simps) (simp add: decode_char_bits)
qed

text \<open>Code equations that compute with the bits of a character directly.\<close>

definition char_of_bits :: "state list \<Rightarrow> char" where
  "char_of_bits bs = (let b = (\<lambda>i. i < length bs \<and> bs ! i = S1) in Char (b 0) (b 1) (b 2) (b 3) (b 4) (b 5) (b 6) (b 7))"

lemma bit_of_char: "bit (of_char (Char b0 b1 b2 b3 b4 b5 b6 b7) :: nat) i \<longleftrightarrow> i < 8 \<and> [b0, b1, b2, b3, b4, b5, b6, b7] ! i"
  by (simp only: of_char_def char.case bit_horner_sum_bit_iff) (simp add: numeral_eq_Suc)

lemma map_upt_8: "map f [0..<8] = [f 0, f 1, f 2, f 3, f 4, f 5, f 6, f 7]"
  by (simp add: upt_rec numeral_eq_Suc)

lemma decode_ch_char:
  assumes "length bs \<le> 8"
  shows "decode_ch 0 bs 0 = of_char (char_of_bits bs)"
proof (rule bit_eqI)
  fix n :: nat
  show "bit (decode_ch 0 bs 0) n = bit (of_char (char_of_bits bs) :: nat) n"
    unfolding char_of_bits_def Let_def bit_of_char bit_decode_ch
    by (subst map_upt_8 [of "\<lambda>i. i < length bs \<and> bs ! i = S1", symmetric]) (use assms in auto)
qed

lemma decode_chars_code [code]:
  "decode_chars bs = (if bs = [] then []
     else let c = char_of_bits (take 8 bs) in (if c \<noteq> CHR 0x00 then [c] else []) @ decode_chars (drop 8 bs))"
  using decode_ch_char [of "take 8 bs"] by (subst decode_chars.simps) (simp add: Let_def of_char_eq_0_iff)

lemma Const_string_code [code]:
  "Const_string str = \<lparr>flags = CONST_FLAG_STRING, bits = concat (map (\<lambda>c. [st (digit0 c), st (digit1 c), st (digit2 c),
     st (digit3 c), st (digit4 c), st (digit5 c), st (digit6 c), st (digit7 c)]) (rev str))\<rparr>"
proof -
  have "char_bits 8 v = map (\<lambda>i. st (bit v i)) [0..<8]" for v
    by (rule nth_equalityI) (simp_all add: nth_char_bits)
  then have "char_bits 8 (of_char c) =
      [st (digit0 c), st (digit1 c), st (digit2 c), st (digit3 c), st (digit4 c), st (digit5 c), st (digit6 c), st (digit7 c)]" for c
    by (cases c) (simp add: map_upt_8 bit_of_char del: of_char_Char)
  then show ?thesis by (simp add: Const_string_def)
qed

text \<open>A string stored as a constant is read back unchanged by \<open>decode_string\<close>, as long as
  it contains no NUL character (which the decoder drops).\<close>

theorem decode_string_Const_string:
  "CHR 0x00 \<notin> set str \<Longrightarrow> decode_string (Const_string str) = str"
  by (simp add: decode_string_def Const_string_def decode_chars_concat)

theorem decode_string_Const_string_witness: "decode_string (Const_string ''ab'') = ''ab''"
  by (rule decode_string_Const_string) simp

lemma foldl_or_bits:
  fixes r :: "32 word"
  shows "bit (foldl (\<lambda>r i. if P i then r OR push_bit i 1 else r) r xs) n \<longleftrightarrow>
    bit r n \<or> (n < 32 \<and> n \<in> set xs \<and> P n)"
  by (induction xs arbitrary: r) (auto simp: bit_or_iff bit_exp_iff)

lemma bit_as_int_word:
  "bit (as_int_word bs is_signed) n \<longleftrightarrow>
     n < 32 \<and> (if n < length bs then bs ! n = S1 else is_signed \<and> last bs = S1)"
proof -
  let ?ret = "foldl (\<lambda>r i. if bs ! i = S1 then r OR push_bit i 1 else r) (0 :: 32 word)
    [0..<min (length bs) 32]"
  have ret: "bit ?ret n \<longleftrightarrow> n < 32 \<and> n < length bs \<and> bs ! n = S1"
    unfolding foldl_or_bits by simp blast
  have ext: "bit (foldl (\<lambda>r i. r OR push_bit i 1) ?ret [length bs..<32]) n \<longleftrightarrow>
      bit ?ret n \<or> (n < 32 \<and> length bs \<le> n)"
    using foldl_or_bits [of "\<lambda>i. True" ?ret "[length bs..<32]" n] by (simp only: if_True set_upt atLeastLessThan_iff) blast
  show ?thesis
    unfolding as_int_word_def Let_def
    by (cases "n < length bs"; simp only: ext ret if_distrib [of "\<lambda>w. bit w n"] not_less) auto
qed

lemma as_int_word_eq_unsigned: "as_int_word bs False = word_of_int (uval bs)"
  by (rule bit_word_eqI) (auto simp: bit_as_int_word bit_uval bit_word_of_int_iff)

lemma as_int_word_eq_signed:
  assumes "bs \<noteq> []"
  shows "as_int_word bs True = word_of_int (sval bs)"
proof -
  let ?b = "map (\<lambda>s. s = S1) bs"
  let ?e = "?b @ replicate 32 (last ?b)"
  have e: "ubl ?e = sval bs mod 2 ^ (length bs + 32)"
    using ubl_sext [of ?b 32] assms by (simp add: sval_def)
  have "(word_of_int (sval bs) :: 32 word) = word_of_int (ubl ?e)"
    by (simp add: e word_of_int_eq_iff take_bit_eq_mod power_add mod_mult2_eq mult.commute
        mod_mod_cancel)
  moreover have "as_int_word bs True = word_of_int (ubl ?e)"
    using assms
    by (intro bit_word_eqI) (auto simp: bit_as_int_word bit_ubl nth_append last_map bit_word_of_int_iff)
  ultimately show ?thesis by simp
qed

text \<open>C40: \<open>as_int\<close> returns the value of the low 32 bits as a C \<open>int\<close>: the unsigned value, or
  with \<open>is_signed\<close> the two's complement value, reduced into the range of \<open>int\<close>.  On an empty
  constant the signed variant reads past the end of the vector.\<close>

theorem as_int_value:
  "as_int c is_signed =
     (if is_signed \<and> bits c = [] then Inl Undefined_behaviour
      else Inr (signed_take_bit 31 (if is_signed then sval (bits c) else uval (bits c))))"
  using as_int_word_eq_signed [of "bits c"]
  by (auto simp: as_int_def guardE_def as_int_word_eq_unsigned sint_sbintrunc')

lemma onehot_loop_True:
  "onehot_loop i bs True pos = (found, p) \<Longrightarrow> found \<longleftrightarrow> list_all (\<lambda>b. b = S0) bs"
  "onehot_loop i bs True pos = (found, p) \<Longrightarrow> p = pos"
  by (induction bs arbitrary: i pos) (auto split: if_splits)

lemma onehot_loop_False:
  "onehot_loop i bs False pos = (found, p) \<Longrightarrow>
     (found \<longleftrightarrow> fully_def bs \<and> count_list bs S1 = 1) \<and>
     (found \<longrightarrow> (\<exists>n<length bs. p = Some (i + n) \<and> bs ! n = S1))"
proof (induction bs arbitrary: i pos)
  case (Cons b bs)
  have zeros: "list_all (\<lambda>b. b = S0) bs \<longleftrightarrow> fully_def bs \<and> count_list bs S1 = 0"
    by (auto simp: list_all_iff fully_def_def count_list_0_iff defined_def)
  consider "b = S0" | "b = S1" | "\<not> defined b" by (auto simp: defined_def)
  then show ?case
  proof cases
    case 1
    with Cons.prems have run: "onehot_loop (Suc i) bs False pos = (found, p)"
      by simp
    have "\<exists>n<length (b # bs). p = Some (i + n) \<and> (b # bs) ! n = S1"
      if "\<exists>n<length bs. p = Some (Suc i + n) \<and> bs ! n = S1"
    proof -
      from that obtain n where "n < length bs" "p = Some (Suc i + n)" "bs ! n = S1" by blast
      then show ?thesis by (intro exI [of _ "Suc n"]) simp
    qed
    then show ?thesis
      using Cons.IH [OF run] 1 by simp
  next
    case 2
    with Cons.prems onehot_loop_True [of "Suc i" bs "Some i" found p] show ?thesis
      by (auto simp: zeros)
  next
    case 3
    with Cons.prems show ?thesis by (auto simp: defined_def)
  qed
qed simp

text \<open>C37: \<open>is_onehot\<close> answers true exactly for a constant whose bits are all defined and of
  which exactly one is 1, and the position it then reports is the index of that bit.\<close>

theorem is_onehot_correct:
  assumes "is_onehot c = (found, pos)"
  shows "(found \<longleftrightarrow> fully_def (bits c) \<and> count_list (bits c) S1 = 1) \<and>
    (found \<longrightarrow> (\<exists>n<length (bits c). pos = Some n \<and> bits c ! n = S1))"
  using onehot_loop_False [of 0 "bits c" None found pos] assms
  by (simp add: is_onehot_def)

theorem is_onehot_correct_witness:
  "is_onehot (Const_bits [S0, S1, S0]) = (True, Some 1) \<and> fully_def (bits (Const_bits [S0, S1, S0]))"
proof -
  have run: "is_onehot (Const_bits [S0, S1, S0]) = (True, Some 1)"
    by (simp add: is_onehot_def Const_bits_def)
  show ?thesis
    using is_onehot_correct [OF run] run by simp
qed

text \<open>The order used when constants are keys of an ordered container is a strict total order up
  to \<open>operator==\<close>, which ignores the flags.\<close>

lemma states_less_irrefl: "\<not> states_less xs xs"
  by (induction xs) auto

lemma states_less_trans: "states_less xs ys \<Longrightarrow> states_less ys zs \<Longrightarrow> states_less xs zs"
proof (induction xs ys arbitrary: zs rule: states_less.induct)
  case (1 a as b bs)
  then show ?case
    by (cases zs) (auto split: if_splits)
qed auto

lemma states_less_total: "length xs = length ys \<Longrightarrow> xs \<noteq> ys \<Longrightarrow> states_less xs ys \<or> states_less ys xs"
  by (induction xs ys rule: list_induct2) (auto simp: neq_iff)

lemma Const_less_trans: "Const_less c d \<Longrightarrow> Const_less d e \<Longrightarrow> Const_less c e"
  by (auto simp: Const_less_def dest: states_less_trans split: if_splits)

lemma Const_less_total: "Const_less c d \<or> Const_less d c \<or> Const_eq c d"
  using states_less_total [of "bits c" "bits d"] by (auto simp: Const_less_def Const_eq_def)

text \<open>C38: \<open>Const::operator<\<close> is a strict total order modulo \<open>Const::operator==\<close>: irreflexive,
  transitive, and any two constants are ordered one way or the other unless they are equal.\<close>

theorem Const_less_strict_total:
  "\<not> Const_less c c \<and>
   (\<forall>d e. Const_less c d \<longrightarrow> Const_less d e \<longrightarrow> Const_less c e) \<and>
   (\<forall>d. Const_less c d \<or> Const_less d c \<or> Const_eq c d)"
  using Const_less_trans Const_less_total states_less_irrefl [of "bits c"]
  by (auto simp: Const_less_def [of c c])

theorem Const_less_strict_total_witness:
  "Const_less (Const_bits [S0]) (Const_bits [S1]) \<and> Const_less (Const_bits [S1]) (Const_bits [S0, S0]) \<and>
   Const_less (Const_bits [S0]) (Const_bits [S0, S0])"
proof -
  have "Const_less (Const_bits [S0]) (Const_bits [S1])"
    and "Const_less (Const_bits [S1]) (Const_bits [S0, S0])"
    by (simp_all add: Const_less_def Const_bits_def less_state_def)
  then show ?thesis
    using Const_less_strict_total [of "Const_bits [S0]"] by blast
qed

end
