(* ===== verification/Calc.thy ===== *)
theory Calc
  imports RtlilConst
begin

text \<open>
  Constant evaluation, \<open>kernel/calc.cc\<close>: one definition per \<open>const_*\<close> function, in the order of
  the file.  \<open>BigInteger\<close> values are \<open>int\<close>; an output parameter (\<open>undef_bit_pos\<close>) is returned
  beside the result.  A width argument is an \<open>int\<close>, negative where a caller asks for the default;
  functions that pass a negative width on to a vector throw \<open>Length_error\<close>.
\<close>

section \<open>Helpers\<close>

definition extend_u0 :: "const_t \<Rightarrow> int \<Rightarrow> bool \<Rightarrow> const_t res" where
  "extend_u0 arg width is_signed =
     (let padding = (if bits arg \<noteq> [] \<and> is_signed then last (bits arg) else S0);
          grown = bits arg @ replicate (nat (width - int (length (bits arg)))) padding
      in guardE (0 \<le> width) Length_error (Inr (arg\<lparr>bits := take (nat width) grown\<rparr>)))"

fun const2big_loop :: "nat \<Rightarrow> state \<Rightarrow> state list \<Rightarrow> int \<Rightarrow> int \<Rightarrow> int \<times> int" where
  "const2big_loop i inv_sign_bit [] mag undef_bit_pos = (mag, undef_bit_pos)"
| "const2big_loop i inv_sign_bit (b # bs) mag undef_bit_pos =
     (if b = S0 \<or> b = S1 then
        const2big_loop (Suc i) inv_sign_bit bs
          (if b = inv_sign_bit then set_bit i mag else unset_bit i mag) undef_bit_pos
      else if undef_bit_pos < 0 then const2big_loop (Suc i) inv_sign_bit bs mag (int i)
      else const2big_loop (Suc i) inv_sign_bit bs mag undef_bit_pos)"

definition const2big :: "const_t \<Rightarrow> bool \<Rightarrow> int \<Rightarrow> int \<times> int" where
  "const2big val as_signed undef_bit_pos =
     (let num_bits = length (bits val)
      in if as_signed \<and> num_bits \<noteq> 0 \<and> bits val ! (num_bits - 1) = S1 then
           (let (mag, u) = const2big_loop 0 S0 (take (num_bits - 1) (bits val)) 0 undef_bit_pos
            in (- (mag + 1), u))
         else const2big_loop 0 S1 (bits val) 0 undef_bit_pos)"

definition big2const :: "int \<Rightarrow> int \<Rightarrow> int \<Rightarrow> const_t res" where
  "big2const val result_len undef_bit_pos =
     (if undef_bit_pos \<ge> 0 then Const_state Sx result_len
      else bindE (Const_int 0 result_len) (\<lambda>result.
        let mag = \<bar>val\<bar> in
        if mag \<noteq> 0 then
          (if val < 0 then
             Inr (result\<lparr>bits := map (\<lambda>i. if bit (mag - 1) i then S0 else S1) [0..<nat result_len]\<rparr>)
           else
             Inr (result\<lparr>bits := map (\<lambda>i. if bit mag i then S1 else S0) [0..<nat result_len]\<rparr>))
        else Inr result))"

definition logic_and :: "state \<Rightarrow> state \<Rightarrow> state" where
  "logic_and a b =
     (if a = S0 then S0 else if b = S0 then S0
      else if a \<noteq> S1 then Sx else if b \<noteq> S1 then Sx else S1)"

definition logic_or :: "state \<Rightarrow> state \<Rightarrow> state" where
  "logic_or a b =
     (if a = S1 then S1 else if b = S1 then S1
      else if a \<noteq> S0 then Sx else if b \<noteq> S0 then Sx else S0)"

definition logic_xor :: "state \<Rightarrow> state \<Rightarrow> state" where
  "logic_xor a b =
     (if a \<noteq> S0 \<and> a \<noteq> S1 then Sx else if b \<noteq> S0 \<and> b \<noteq> S1 then Sx
      else if a \<noteq> b then S1 else S0)"

definition logic_xnor :: "state \<Rightarrow> state \<Rightarrow> state" where
  "logic_xnor a b =
     (if a \<noteq> S0 \<and> a \<noteq> S1 then Sx else if b \<noteq> S0 \<and> b \<noteq> S1 then Sx
      else if a = b then S1 else S0)"

section \<open>Bitwise operations\<close>

definition not_len :: "int \<Rightarrow> const_t \<Rightarrow> int" where
  "not_len result_len arg1 = (if result_len < 0 then int (length (bits arg1)) else result_len)"

definition max_len :: "int \<Rightarrow> const_t \<Rightarrow> const_t \<Rightarrow> int" where
  "max_len result_len arg1 arg2 =
     (if result_len \<ge> 0 then result_len
      else max (int (length (bits arg1))) (int (length (bits arg2))))"

definition const_not :: "const_t \<Rightarrow> const_t \<Rightarrow> bool \<Rightarrow> bool \<Rightarrow> int \<Rightarrow> const_t res" where
  "const_not arg1 arg2 signed1 signed2 result_len =
     (let len = not_len result_len arg1
      in bindE (extend_u0 arg1 len signed1) (\<lambda>arg1_ext.
         bindE (Const_state Sx len) (\<lambda>result.
         Inr (result\<lparr>bits := map (\<lambda>i.
                if i \<ge> length (bits arg1_ext) then S0
                else if bits arg1_ext ! i = S0 then S1
                else if bits arg1_ext ! i = S1 then S0
                else bits result ! i) [0..<nat len]\<rparr>))))"

definition logic_wrapper ::
  "(state \<Rightarrow> state \<Rightarrow> state) \<Rightarrow> const_t \<Rightarrow> const_t \<Rightarrow> bool \<Rightarrow> bool \<Rightarrow> int \<Rightarrow> const_t res" where
  "logic_wrapper logic_func arg1 arg2 signed1 signed2 result_len =
     (let len = max_len result_len arg1 arg2
      in bindE (extend_u0 arg1 len signed1) (\<lambda>arg1'.
         bindE (extend_u0 arg2 len signed2) (\<lambda>arg2'.
         bindE (Const_state Sx len) (\<lambda>result.
         Inr (result\<lparr>bits := map (\<lambda>i.
                let a = (if i < length (bits arg1') then bits arg1' ! i else S0);
                    b = (if i < length (bits arg2') then bits arg2' ! i else S0)
                in logic_func a b) [0..<nat len]\<rparr>)))))"

definition const_and :: "const_t \<Rightarrow> const_t \<Rightarrow> bool \<Rightarrow> bool \<Rightarrow> int \<Rightarrow> const_t res" where
  "const_and arg1 arg2 signed1 signed2 result_len =
     logic_wrapper logic_and arg1 arg2 signed1 signed2 result_len"

definition const_or :: "const_t \<Rightarrow> const_t \<Rightarrow> bool \<Rightarrow> bool \<Rightarrow> int \<Rightarrow> const_t res" where
  "const_or arg1 arg2 signed1 signed2 result_len =
     logic_wrapper logic_or arg1 arg2 signed1 signed2 result_len"

definition const_xor :: "const_t \<Rightarrow> const_t \<Rightarrow> bool \<Rightarrow> bool \<Rightarrow> int \<Rightarrow> const_t res" where
  "const_xor arg1 arg2 signed1 signed2 result_len =
     logic_wrapper logic_xor arg1 arg2 signed1 signed2 result_len"

definition const_xnor :: "const_t \<Rightarrow> const_t \<Rightarrow> bool \<Rightarrow> bool \<Rightarrow> int \<Rightarrow> const_t res" where
  "const_xnor arg1 arg2 signed1 signed2 result_len =
     logic_wrapper logic_xnor arg1 arg2 signed1 signed2 result_len"

section \<open>Reductions and logical operations\<close>

text \<open>The loop \<open>while (size < result_len) push_back(S0)\<close> that ends most one-bit operations.\<close>

definition pad_S0 :: "const_t \<Rightarrow> int \<Rightarrow> const_t" where
  "pad_S0 result result_len =
     result\<lparr>bits := bits result @ replicate (nat (result_len - int (length (bits result)))) S0\<rparr>"

text \<open>\<open>RTLIL::Const result(s)\<close>, with the default width of one bit.\<close>

definition Const_bit :: "state \<Rightarrow> const_t" where
  "Const_bit s = \<lparr>flags = CONST_FLAG_NONE, bits = [s]\<rparr>"

definition logic_reduce_wrapper ::
  "state \<Rightarrow> (state \<Rightarrow> state \<Rightarrow> state) \<Rightarrow> const_t \<Rightarrow> int \<Rightarrow> const_t" where
  "logic_reduce_wrapper initial logic_func arg1 result_len =
     pad_S0 (Const_bit (foldl logic_func initial (bits arg1))) result_len"

definition const_reduce_and :: "const_t \<Rightarrow> const_t \<Rightarrow> bool \<Rightarrow> bool \<Rightarrow> int \<Rightarrow> const_t res" where
  "const_reduce_and arg1 arg2 signed1 signed2 result_len =
     Inr (logic_reduce_wrapper S1 logic_and arg1 result_len)"

definition const_reduce_or :: "const_t \<Rightarrow> const_t \<Rightarrow> bool \<Rightarrow> bool \<Rightarrow> int \<Rightarrow> const_t res" where
  "const_reduce_or arg1 arg2 signed1 signed2 result_len =
     Inr (logic_reduce_wrapper S0 logic_or arg1 result_len)"

definition const_reduce_xor :: "const_t \<Rightarrow> const_t \<Rightarrow> bool \<Rightarrow> bool \<Rightarrow> int \<Rightarrow> const_t res" where
  "const_reduce_xor arg1 arg2 signed1 signed2 result_len =
     Inr (logic_reduce_wrapper S0 logic_xor arg1 result_len)"

definition flip_front :: "state list \<Rightarrow> state list" where
  "flip_front bs = (case bs of [] \<Rightarrow> []
     | b # r \<Rightarrow> (if b = S0 then S1 else if b = S1 then S0 else b) # r)"

definition const_reduce_xnor :: "const_t \<Rightarrow> const_t \<Rightarrow> bool \<Rightarrow> bool \<Rightarrow> int \<Rightarrow> const_t res" where
  "const_reduce_xnor arg1 arg2 signed1 signed2 result_len =
     (let buffer = logic_reduce_wrapper S0 logic_xor arg1 result_len
      in Inr (if bits buffer \<noteq> [] then buffer\<lparr>bits := flip_front (bits buffer)\<rparr> else buffer))"

definition const_reduce_bool :: "const_t \<Rightarrow> const_t \<Rightarrow> bool \<Rightarrow> bool \<Rightarrow> int \<Rightarrow> const_t res" where
  "const_reduce_bool arg1 arg2 signed1 signed2 result_len =
     Inr (logic_reduce_wrapper S0 logic_or arg1 result_len)"

definition const_logic_not :: "const_t \<Rightarrow> const_t \<Rightarrow> bool \<Rightarrow> bool \<Rightarrow> int \<Rightarrow> const_t res" where
  "const_logic_not arg1 arg2 signed1 signed2 result_len =
     (let (a, undef_bit_pos_a) = const2big arg1 signed1 (-1)
      in Inr (pad_S0 (Const_bit
           (if a = 0 then (if undef_bit_pos_a \<ge> 0 then Sx else S1) else S0)) result_len))"

definition const_logic_and :: "const_t \<Rightarrow> const_t \<Rightarrow> bool \<Rightarrow> bool \<Rightarrow> int \<Rightarrow> const_t res" where
  "const_logic_and arg1 arg2 signed1 signed2 result_len =
     (let (a, undef_bit_pos_a) = const2big arg1 signed1 (-1);
          (b, undef_bit_pos_b) = const2big arg2 signed2 (-1);
          bit_a = (if a = 0 then (if undef_bit_pos_a \<ge> 0 then Sx else S0) else S1);
          bit_b = (if b = 0 then (if undef_bit_pos_b \<ge> 0 then Sx else S0) else S1)
      in Inr (pad_S0 (Const_bit (logic_and bit_a bit_b)) result_len))"

definition const_logic_or :: "const_t \<Rightarrow> const_t \<Rightarrow> bool \<Rightarrow> bool \<Rightarrow> int \<Rightarrow> const_t res" where
  "const_logic_or arg1 arg2 signed1 signed2 result_len =
     (let (a, undef_bit_pos_a) = const2big arg1 signed1 (-1);
          (b, undef_bit_pos_b) = const2big arg2 signed2 (-1);
          bit_a = (if a = 0 then (if undef_bit_pos_a \<ge> 0 then Sx else S0) else S1);
          bit_b = (if b = 0 then (if undef_bit_pos_b \<ge> 0 then Sx else S0) else S1)
      in Inr (pad_S0 (Const_bit (logic_or bit_a bit_b)) result_len))"

section \<open>Shifts\<close>

text \<open>With \<open>sign_ext\<close>, a position above \<open>arg1\<close> reads \<open>arg1.bits.back()\<close>, undefined on an empty
  vector.\<close>

definition const_shift_worker ::
  "const_t \<Rightarrow> const_t \<Rightarrow> bool \<Rightarrow> bool \<Rightarrow> int \<Rightarrow> int \<Rightarrow> state \<Rightarrow> const_t res" where
  "const_shift_worker arg1 arg2 sign_ext signed2 direction result_len vacant_bits =
     (let (big, undef_bit_pos) = const2big arg2 signed2 (-1);
          offset = big * direction;
          len = not_len result_len arg1
      in bindE (Const_state Sx len) (\<lambda>result.
         if undef_bit_pos \<ge> 0 then Inr result
         else guardE (\<not> (sign_ext \<and> bits arg1 = [] \<and> list_ex (\<lambda>i. 0 \<le> int i + offset) [0..<nat len]))
           Undefined_behaviour
           (Inr (result\<lparr>bits := map (\<lambda>i.
              let pos = int i + offset in
              if pos < 0 then vacant_bits
              else if pos \<ge> int (length (bits arg1)) then
                (if sign_ext then last (bits arg1) else vacant_bits)
              else bits arg1 ! nat pos) [0..<nat len]\<rparr>))))"

definition const_shl :: "const_t \<Rightarrow> const_t \<Rightarrow> bool \<Rightarrow> bool \<Rightarrow> int \<Rightarrow> const_t res" where
  "const_shl arg1 arg2 signed1 signed2 result_len =
     bindE (extend_u0 arg1 result_len signed1) (\<lambda>arg1_ext.
     const_shift_worker arg1_ext arg2 False False (-1) result_len S0)"

definition const_shr :: "const_t \<Rightarrow> const_t \<Rightarrow> bool \<Rightarrow> bool \<Rightarrow> int \<Rightarrow> const_t res" where
  "const_shr arg1 arg2 signed1 signed2 result_len =
     bindE (extend_u0 arg1 (max result_len (int (length (bits arg1)))) signed1) (\<lambda>arg1_ext.
     const_shift_worker arg1_ext arg2 False False 1 result_len S0)"

definition const_sshl :: "const_t \<Rightarrow> const_t \<Rightarrow> bool \<Rightarrow> bool \<Rightarrow> int \<Rightarrow> const_t res" where
  "const_sshl arg1 arg2 signed1 signed2 result_len =
     const_shift_worker arg1 arg2 signed1 False (-1) result_len S0"

definition const_sshr :: "const_t \<Rightarrow> const_t \<Rightarrow> bool \<Rightarrow> bool \<Rightarrow> int \<Rightarrow> const_t res" where
  "const_sshr arg1 arg2 signed1 signed2 result_len =
     const_shift_worker arg1 arg2 signed1 False 1 result_len S0"

definition const_shift :: "const_t \<Rightarrow> const_t \<Rightarrow> bool \<Rightarrow> bool \<Rightarrow> int \<Rightarrow> const_t res" where
  "const_shift arg1 arg2 signed1 signed2 result_len =
     bindE (extend_u0 arg1 (max result_len (int (length (bits arg1)))) signed1) (\<lambda>arg1_ext.
     const_shift_worker arg1_ext arg2 False signed2 1 result_len S0)"

definition const_shiftx :: "const_t \<Rightarrow> const_t \<Rightarrow> bool \<Rightarrow> bool \<Rightarrow> int \<Rightarrow> const_t res" where
  "const_shiftx arg1 arg2 signed1 signed2 result_len =
     const_shift_worker arg1 arg2 False signed2 1 result_len Sx"

section \<open>Comparisons\<close>

text \<open>The two conversions share \<open>undef_bit_pos\<close>; only its sign is used afterwards.\<close>

definition compare_bit :: "bool \<Rightarrow> int \<Rightarrow> state" where
  "compare_bit y undef_bit_pos = (if undef_bit_pos \<ge> 0 then Sx else if y then S1 else S0)"

definition const_lt :: "const_t \<Rightarrow> const_t \<Rightarrow> bool \<Rightarrow> bool \<Rightarrow> int \<Rightarrow> const_t res" where
  "const_lt arg1 arg2 signed1 signed2 result_len =
     (let (a, u) = const2big arg1 signed1 (-1); (b, u') = const2big arg2 signed2 u
      in Inr (pad_S0 (Const_bit (compare_bit (a < b) u')) result_len))"

definition const_le :: "const_t \<Rightarrow> const_t \<Rightarrow> bool \<Rightarrow> bool \<Rightarrow> int \<Rightarrow> const_t res" where
  "const_le arg1 arg2 signed1 signed2 result_len =
     (let (a, u) = const2big arg1 signed1 (-1); (b, u') = const2big arg2 signed2 u
      in Inr (pad_S0 (Const_bit (compare_bit (a \<le> b) u')) result_len))"

fun eq_loop :: "state list \<Rightarrow> state list \<Rightarrow> state \<Rightarrow> state option" where
  "eq_loop (a # as) (b # bs) matched_status =
     (if a = S0 \<and> b = S1 then None
      else if a = S1 \<and> b = S0 then None
      else eq_loop as bs (if a > S1 \<or> b > S1 then Sx else matched_status))"
| "eq_loop _ _ matched_status = Some matched_status"

definition set_front :: "const_t \<Rightarrow> state \<Rightarrow> const_t res" where
  "set_front c s = guardE (bits c \<noteq> []) Undefined_behaviour (Inr (c\<lparr>bits := (bits c)[0 := s]\<rparr>))"

definition const_eq :: "const_t \<Rightarrow> const_t \<Rightarrow> bool \<Rightarrow> bool \<Rightarrow> int \<Rightarrow> const_t res" where
  "const_eq arg1 arg2 signed1 signed2 result_len =
     bindE (Const_state S0 result_len) (\<lambda>result.
     let width = max (int (length (bits arg1))) (int (length (bits arg2))) in
     bindE (extend_u0 arg1 width (signed1 \<and> signed2)) (\<lambda>arg1_ext.
     bindE (extend_u0 arg2 width (signed1 \<and> signed2)) (\<lambda>arg2_ext.
     case eq_loop (bits arg1_ext) (bits arg2_ext) S1 of
       None \<Rightarrow> Inr result
     | Some matched_status \<Rightarrow> set_front result matched_status)))"

definition flip_front_checked :: "const_t \<Rightarrow> const_t res" where
  "flip_front_checked c =
     guardE (bits c \<noteq> []) Undefined_behaviour (Inr (c\<lparr>bits := flip_front (bits c)\<rparr>))"

definition const_ne :: "const_t \<Rightarrow> const_t \<Rightarrow> bool \<Rightarrow> bool \<Rightarrow> int \<Rightarrow> const_t res" where
  "const_ne arg1 arg2 signed1 signed2 result_len =
     bindE (const_eq arg1 arg2 signed1 signed2 result_len) flip_front_checked"

definition const_eqx :: "const_t \<Rightarrow> const_t \<Rightarrow> bool \<Rightarrow> bool \<Rightarrow> int \<Rightarrow> const_t res" where
  "const_eqx arg1 arg2 signed1 signed2 result_len =
     bindE (Const_state S0 result_len) (\<lambda>result.
     let width = max (int (length (bits arg1))) (int (length (bits arg2))) in
     bindE (extend_u0 arg1 width (signed1 \<and> signed2)) (\<lambda>arg1_ext.
     bindE (extend_u0 arg2 width (signed1 \<and> signed2)) (\<lambda>arg2_ext.
     if list_ex (\<lambda>i. bits arg1_ext ! i \<noteq> bits arg2_ext ! i) [0..<length (bits arg1_ext)]
     then Inr result else set_front result S1)))"

definition const_nex :: "const_t \<Rightarrow> const_t \<Rightarrow> bool \<Rightarrow> bool \<Rightarrow> int \<Rightarrow> const_t res" where
  "const_nex arg1 arg2 signed1 signed2 result_len =
     bindE (const_eqx arg1 arg2 signed1 signed2 result_len) flip_front_checked"

definition const_ge :: "const_t \<Rightarrow> const_t \<Rightarrow> bool \<Rightarrow> bool \<Rightarrow> int \<Rightarrow> const_t res" where
  "const_ge arg1 arg2 signed1 signed2 result_len =
     (let (a, u) = const2big arg1 signed1 (-1); (b, u') = const2big arg2 signed2 u
      in Inr (pad_S0 (Const_bit (compare_bit (a \<ge> b) u')) result_len))"

definition const_gt :: "const_t \<Rightarrow> const_t \<Rightarrow> bool \<Rightarrow> bool \<Rightarrow> int \<Rightarrow> const_t res" where
  "const_gt arg1 arg2 signed1 signed2 result_len =
     (let (a, u) = const2big arg1 signed1 (-1); (b, u') = const2big arg2 signed2 u
      in Inr (pad_S0 (Const_bit (compare_bit (a > b) u')) result_len))"

section \<open>Arithmetic\<close>

definition const_add :: "const_t \<Rightarrow> const_t \<Rightarrow> bool \<Rightarrow> bool \<Rightarrow> int \<Rightarrow> const_t res" where
  "const_add arg1 arg2 signed1 signed2 result_len =
     (let (a, u) = const2big arg1 signed1 (-1); (b, u') = const2big arg2 signed2 u
      in big2const (a + b) (max_len result_len arg1 arg2) u')"

definition const_sub :: "const_t \<Rightarrow> const_t \<Rightarrow> bool \<Rightarrow> bool \<Rightarrow> int \<Rightarrow> const_t res" where
  "const_sub arg1 arg2 signed1 signed2 result_len =
     (let (a, u) = const2big arg1 signed1 (-1); (b, u') = const2big arg2 signed2 u
      in big2const (a - b) (max_len result_len arg1 arg2) u')"

definition const_mul :: "const_t \<Rightarrow> const_t \<Rightarrow> bool \<Rightarrow> bool \<Rightarrow> int \<Rightarrow> const_t res" where
  "const_mul arg1 arg2 signed1 signed2 result_len =
     (let (a, u) = const2big arg1 signed1 (-1); (b, u') = const2big arg2 signed2 u
      in big2const (a * b) (max_len result_len arg1 arg2) (min u' 0))"

definition const_div :: "const_t \<Rightarrow> const_t \<Rightarrow> bool \<Rightarrow> bool \<Rightarrow> int \<Rightarrow> const_t res" where
  "const_div arg1 arg2 signed1 signed2 result_len =
     (let (a, u) = const2big arg1 signed1 (-1); (b, u') = const2big arg2 signed2 u
      in if b = 0 then Const_state Sx result_len
         else let result_neg = ((a < 0) \<noteq> (b < 0));
                  a' = (if a < 0 then - a else a);
                  b' = (if b < 0 then - b else b)
              in big2const (if result_neg then - (a' div b') else a' div b')
                   (max_len result_len arg1 arg2) (min u' 0))"

definition const_mod :: "const_t \<Rightarrow> const_t \<Rightarrow> bool \<Rightarrow> bool \<Rightarrow> int \<Rightarrow> const_t res" where
  "const_mod arg1 arg2 signed1 signed2 result_len =
     (let (a, u) = const2big arg1 signed1 (-1); (b, u') = const2big arg2 signed2 u
      in if b = 0 then Const_state Sx result_len
         else let result_neg = (a < 0);
                  a' = (if a < 0 then - a else a);
                  b' = (if b < 0 then - b else b)
              in big2const (if result_neg then - (a' mod b') else a' mod b')
                   (max_len result_len arg1 arg2) (min u' 0))"

definition const_divfloor :: "const_t \<Rightarrow> const_t \<Rightarrow> bool \<Rightarrow> bool \<Rightarrow> int \<Rightarrow> const_t res" where
  "const_divfloor arg1 arg2 signed1 signed2 result_len =
     (let (a, u) = const2big arg1 signed1 (-1); (b, u') = const2big arg2 signed2 u
      in if b = 0 then Const_state Sx result_len
         else let result_pos = ((a < 0) = (b < 0));
                  a' = (if a < 0 then - a else a);
                  b' = (if b < 0 then - b else b);
                  result = (if result_pos \<or> a' = 0 then a' div b' else - ((a' + b' - 1) div b'))
              in big2const result (max_len result_len arg1 arg2) (min u' 0))"

text \<open>\<open>BigInteger::getSign\<close> distinguishes negative, zero and positive.\<close>

definition const_modfloor :: "const_t \<Rightarrow> const_t \<Rightarrow> bool \<Rightarrow> bool \<Rightarrow> int \<Rightarrow> const_t res" where
  "const_modfloor arg1 arg2 signed1 signed2 result_len =
     (let (a, u) = const2big arg1 signed1 (-1); (b, u') = const2big arg2 signed2 u
      in if b = 0 then Const_state Sx result_len
         else let a_sign = sgn a; b_sign = sgn b;
                  a' = (if a_sign = -1 then - a else a);
                  b' = (if b_sign = -1 then - b else b);
                  truncated = (if a_sign = -1 then - (a' mod b') else a' mod b');
                  modulo = (if truncated = 0 \<or> a_sign = b_sign then truncated
                            else if b_sign = -1 then truncated - b' else truncated + b')
              in big2const modulo (max_len result_len arg1 arg2) (min u' 0))"

function pow_loop :: "int \<Rightarrow> int \<Rightarrow> int \<Rightarrow> int \<Rightarrow> int" where
  "pow_loop modulus b a y =
     (if b > 0 then
        pow_loop modulus (b div 2) ((a * a) mod modulus)
          (if b mod 2 = 1 then (y * a) mod modulus else y)
      else y)"
  by pat_completeness auto
termination
  by (relation "measure (\<lambda>(modulus, b, a, y). nat b)") auto

declare pow_loop.simps [simp del]

definition const_pow :: "const_t \<Rightarrow> const_t \<Rightarrow> bool \<Rightarrow> bool \<Rightarrow> int \<Rightarrow> const_t res" where
  "const_pow arg1 arg2 signed1 signed2 result_len =
     (let (a, u) = const2big arg1 signed1 (-1); (b, u') = const2big arg2 signed2 u
      in if a = 0 \<and> b < 0 then Const_state Sx result_len
         else if a = 0 \<and> b > 0 then Const_state S0 result_len
         else
           let y0 = (if b < 0 then
                       (let y = (if a < -1 \<or> a > 1 then 0 else 1)
                        in if a = -1 then (if (- b) mod 2 = 0 then 1 else -1) else y)
                     else 1);
               y1 = (if b > 0 then
                       (let modulus = 2 ^ nat (if result_len \<ge> 0 then result_len else 1024);
                            flip_result_sign = (a < 0 \<and> b mod 2 = 1);
                            a' = (if a < 0 then a * -1 else a);
                            y = pow_loop modulus b a' y0
                        in if flip_result_sign then y * -1 else y)
                     else y0)
           in big2const y1 (max_len result_len arg1 arg2) (min u' 0))"

definition const_pos :: "const_t \<Rightarrow> const_t \<Rightarrow> bool \<Rightarrow> bool \<Rightarrow> int \<Rightarrow> const_t res" where
  "const_pos arg1 arg2 signed1 signed2 result_len = extend_u0 arg1 result_len signed1"

definition const_neg :: "const_t \<Rightarrow> const_t \<Rightarrow> bool \<Rightarrow> bool \<Rightarrow> int \<Rightarrow> const_t res" where
  "const_neg arg1 arg2 signed1 signed2 result_len =
     const_sub (Const_bit S0) arg1 True signed1 result_len"

section \<open>Multiplexers\<close>

definition bmux_step :: "state list \<Rightarrow> state \<Rightarrow> state list" where
  "bmux_step t sel =
     (let h = length t div 2
      in if sel = S0 then take h t
         else if sel = S1 then drop h t
         else map (\<lambda>j. if t ! j = t ! (j + h) then t ! j else Sx) [0..<h])"

definition const_bmux :: "const_t \<Rightarrow> const_t \<Rightarrow> const_t" where
  "const_bmux arg1 arg2 = Const_bits (foldl bmux_step (bits arg1) (rev (bits arg2)))"

text \<open>One word of the output: \<open>ne\<close> and \<open>x\<close> are the flags of the inner loop.\<close>

fun demux_flags :: "nat \<Rightarrow> nat \<Rightarrow> state list \<Rightarrow> bool \<Rightarrow> bool \<Rightarrow> bool \<times> bool" where
  "demux_flags i j [] ne x = (ne, x)"
| "demux_flags i j (s # ss) ne x =
     (let b = bit i j
      in if s = (if b then S0 else S1) then demux_flags i (Suc j) ss True x
         else if s \<noteq> S0 \<and> s \<noteq> S1 then demux_flags i (Suc j) ss ne True
         else demux_flags i (Suc j) ss ne x)"

definition demux_word :: "state list \<Rightarrow> state list \<Rightarrow> nat \<Rightarrow> state list" where
  "demux_word as ss i =
     (let (ne, x) = demux_flags i 0 ss False False
      in if ne then map (\<lambda>_. S0) as
         else if x then map (\<lambda>a. if a = S0 then S0 else Sx) as
         else as)"

text \<open>\<open>1 << s_width\<close> leaves the range of \<open>int\<close> for a select of more than 30 bits.\<close>

definition const_demux :: "const_t \<Rightarrow> const_t \<Rightarrow> const_t res" where
  "const_demux arg1 arg2 =
     guardE (length (bits arg2) \<le> 30) Undefined_behaviour
       (Inr (Const_bits (concat (map (demux_word (bits arg1) (bits arg2))
          [0..<2 ^ length (bits arg2)]))))"

section \<open>Conversions\<close>

definition cval :: "bool \<Rightarrow> state list \<Rightarrow> int" where
  "cval is_signed bs = (if is_signed then sval bs else uval bs)"

lemma set_bit_add: "0 \<le> mag \<Longrightarrow> mag < 2 ^ i \<Longrightarrow> set_bit i mag = mag + 2 ^ i" for mag :: int
proof -
  assume mag: "0 \<le> mag" "mag < 2 ^ i"
  then have t: "take_bit i mag = mag"
    by (simp add: take_bit_int_eq_self)
  then have nb: "\<not> bit mag i"
    by (metis bit_take_bit_iff less_irrefl)
  have "mag + 2 ^ i = mag OR 2 ^ i"
    using nb by (intro disjunctive_add [symmetric, THEN sym]) (auto simp: bit_exp_iff)
  then show "set_bit i mag = mag + 2 ^ i"
    by (simp add: set_bit_eq_or)
qed

lemma unset_bit_id: "0 \<le> mag \<Longrightarrow> mag < 2 ^ i \<Longrightarrow> unset_bit i mag = mag" for mag :: int
proof -
  assume mag: "0 \<le> mag" "mag < 2 ^ i"
  then have "take_bit i mag = mag"
    by (simp add: take_bit_int_eq_self)
  then have "\<not> bit mag i"
    by (metis bit_take_bit_iff less_irrefl)
  then show "unset_bit i mag = mag"
    by (intro bit_eqI) (auto simp: bit_unset_bit_iff)
qed

lemma const2big_loop_mag:
  assumes "0 \<le> mag" "mag < 2 ^ i" "s = S0 \<or> s = S1"
  shows "fst (const2big_loop i s bs mag u) = mag + 2 ^ i * ubl (map (\<lambda>b. b = s) bs)"
  using assms
proof (induction bs arbitrary: i mag u)
  case (Cons b bs)
  have step: "fst (const2big_loop (Suc i) s bs (mag + 2 ^ i * of_bool (b = s)) u') =
      mag + 2 ^ i * ubl (map (\<lambda>b. b = s) (b # bs))" for u'
    by (subst Cons.IH) (use Cons.prems in \<open>auto simp: algebra_simps\<close>)
  show ?case
    using step Cons.prems by (auto simp: set_bit_add unset_bit_id)
qed simp

lemma const2big_loop_undef:
  "snd (const2big_loop i s bs mag u) =
     (if u \<ge> 0 \<or> fully_def bs then u else int (i + length (takeWhile defined bs)))"
  by (induction bs arbitrary: i mag u) (auto simp: defined_def)

lemma const2big_pos:
  assumes "\<not> (sg \<and> bits c \<noteq> [] \<and> last (bits c) = S1)"
  shows "const2big c sg u = const2big_loop 0 S1 (bits c) 0 u"
  using assms by (cases "bits c = []") (auto simp: const2big_def Let_def last_conv_nth)

lemma const2big_neg:
  assumes "sg" "bits c = bs @ [S1]"
  shows "const2big c sg u =
    (- (fst (const2big_loop 0 S0 bs 0 u) + 1), snd (const2big_loop 0 S0 bs 0 u))"
  using assms by (simp add: const2big_def Let_def split_beta)

lemma const2big_cases:
  obtains (neg) bs where "sg" "bits c = bs @ [S1]"
  | (pos) "\<not> (sg \<and> bits c \<noteq> [] \<and> last (bits c) = S1)"
  by (metis append_butlast_last_id)

lemma const2big_fully_def:
  assumes "fully_def (bits c)"
  shows "const2big c sg u = (cval sg (bits c), u)"
proof (cases sg c rule: const2big_cases)
  case (neg bs)
  have d: "fully_def bs" using assms neg by simp
  have flip: "map (\<lambda>b. b = S0) bs = map Not (map (\<lambda>b. b = S1) bs)"
    using d by (auto simp: fully_def_def defined_def)
  have "fst (const2big_loop 0 S0 bs 0 u) = ubl (map (\<lambda>b. b = S0) bs)"
    by (subst const2big_loop_mag) auto
  moreover have "snd (const2big_loop 0 S0 bs 0 u) = u"
    using d by (simp add: const2big_loop_undef)
  moreover have "sval (bs @ [S1]) = - (ubl (map (\<lambda>b. b = S0) bs) + 1)"
    unfolding flip ubl_map_Not by (simp add: sval_def sbl_snoc)
  ultimately show ?thesis
    by (subst const2big_neg [OF neg]) (simp add: cval_def neg)
next
  case pos
  have "fst (const2big_loop 0 S1 (bits c) 0 u) = uval (bits c)"
    by (subst const2big_loop_mag) (auto simp: uval_def)
  moreover have "snd (const2big_loop 0 S1 (bits c) 0 u) = u"
    using assms by (simp add: const2big_loop_undef)
  moreover have "cval sg (bits c) = uval (bits c)"
    using pos by (auto simp: cval_def sval_eq)
  ultimately show ?thesis
    by (simp add: const2big_pos [OF pos] prod_eq_iff)
qed

lemma const2big_undef:
  "snd (const2big c sg u) \<ge> 0 \<longleftrightarrow> u \<ge> 0 \<or> \<not> fully_def (bits c)"
  by (cases sg c rule: const2big_cases)
     (auto simp: const2big_neg const2big_pos const2big_loop_undef)

lemma bit_complement: "bit (\<bar>v\<bar> - 1) i \<longleftrightarrow> \<not> bit v i" if "v < 0" for v :: int
proof -
  have "\<bar>v\<bar> - 1 = NOT v"
    using that by (simp add: not_eq_complement)
  then show ?thesis
    by (simp add: bit_not_iff)
qed

lemma int_bits_0: "int_bits n 0 = replicate n S0"
  by (induction n) simp_all

lemma big2const_eq:
  assumes "0 \<le> n"
  shows "big2const v n u =
    Inr (Const_bits (if u \<ge> 0 then replicate (nat n) Sx else map st (bl_of_int (nat n) v)))"
proof -
  have z: "replicate (nat n) S0 = map st (bl_of_int (nat n) 0)"
    by (rule nth_equalityI) simp_all
  show ?thesis
    using assms z bit_complement [of v]
    by (auto simp: big2const_def Const_state_def Const_int_def Const_bits_def bl_of_int_def st_def
        int_bits_0 Let_def)
qed

lemma Const_bits_simps [simp]: "bits (Const_bits bs) = bs" "flags (Const_bits bs) = CONST_FLAG_NONE"
  by (simp_all add: Const_bits_def)

definition ext_bits :: "bool \<Rightarrow> nat \<Rightarrow> state list \<Rightarrow> state list" where
  "ext_bits sg n bs =
     take n (bs @ replicate (n - length bs) (if bs \<noteq> [] \<and> sg then last bs else S0))"

lemma length_ext_bits [simp]: "length (ext_bits sg n bs) = n"
  by (simp add: ext_bits_def)

lemma extend_u0_eq: "extend_u0 c w sg =
    (if 0 \<le> w then Inr (c\<lparr>bits := ext_bits sg (nat w) (bits c)\<rparr>) else Inl Length_error)"
  by (simp add: extend_u0_def ext_bits_def guardE_def Let_def nat_diff_distrib')

lemma ext_bits_fully_def:
  assumes "fully_def bs"
  shows "ext_bits sg n bs = map st (bl_of_int n (cval sg bs))"
proof -
  obtain cs where cs: "bs = map st cs" using assms by (rule fully_def_obtain)
  define v where "v = (if sg then sbl cs else ubl cs)"
  have cv: "cval sg bs = v" by (simp add: cval_def cs v_def)
  define pad where "pad = (cs \<noteq> [] \<and> sg \<and> last cs)"
  define k where "k = n - length cs"
  have e: "ext_bits sg n bs = map st (take n (cs @ replicate k pad))"
    by (auto simp: ext_bits_def cs pad_def k_def take_map last_map)
  have u: "ubl (cs @ replicate k pad) mod 2 ^ (length cs + k) = v mod 2 ^ (length cs + k)"
  proof (cases "cs \<noteq> [] \<and> sg")
    case True
    then have "pad = last cs" "v = sbl cs" by (simp_all add: pad_def v_def)
    then show ?thesis
      using True by (simp only: ubl_sext [OF conjunct1 [OF True]] mod_mod_trivial)
  next
    case False
    then show ?thesis
      by (auto simp: v_def pad_def ubl_append)
  qed
  have "take n (cs @ replicate k pad) = bl_of_int n (ubl (cs @ replicate k pad))"
    by (rule bl_of_int_take [symmetric]) (simp add: k_def)
  also have "\<dots> = bl_of_int n v"
  proof (rule bl_of_int_cong)
    have "(2::int) ^ n dvd 2 ^ (length cs + k)"
      by (rule le_imp_power_dvd) (simp add: k_def)
    from mod_mod_cancel [OF this] show "ubl (cs @ replicate k pad) mod 2 ^ n = v mod 2 ^ n"
      by (metis u)
  qed
  finally show ?thesis
    by (simp add: e cv)
qed

text \<open>The information order: a bit that is not 0 or 1 stands for any value.\<close>

definition info :: "state \<Rightarrow> state \<Rightarrow> bool" where
  "info a a' \<longleftrightarrow> \<not> defined a \<or> a = a'"

abbreviation infos :: "state list \<Rightarrow> state list \<Rightarrow> bool" where
  "infos \<equiv> list_all2 info"

lemma info_refl [simp]: "info a a" "info Sx a"
  by (simp_all add: info_def)

lemma infos_refl [simp]: "infos xs xs"
  by (simp add: list_all2_refl)

lemma infos_ext_bits:
  assumes "infos xs ys"
  shows "infos (ext_bits sg n xs) (ext_bits sg n ys)"
proof -
  have len: "length xs = length ys"
    using assms by (rule list_all2_lengthD)
  have pad: "info (if xs \<noteq> [] \<and> sg then last xs else S0) (if ys \<noteq> [] \<and> sg then last ys else S0)"
  proof (cases "xs = []")
    case False
    then have "ys \<noteq> []" using len by auto
    with False have "info (last xs) (last ys)"
      using assms len by (simp add: last_conv_nth list_all2_conv_all_nth)
    then show ?thesis using False len by auto
  qed (use len in simp)
  show ?thesis
    unfolding ext_bits_def len [symmetric]
    by (intro list_all2_takeI list_all2_appendI assms)
       (use pad len in \<open>simp add: list_all2_conv_all_nth\<close>)
qed

section \<open>Bitwise operations\<close>

text \<open>What \<open>logic_wrapper\<close> and \<open>logic_reduce_wrapper\<close> rely on in the bit function they get: it
  computes a Boolean function on 0 and 1, and it is monotone in the information order.\<close>

locale bit_function =
  fixes f :: "state \<Rightarrow> state \<Rightarrow> state" and g :: "bool \<Rightarrow> bool \<Rightarrow> bool"
  assumes on_bools: "f (st a) (st b) = st (g a b)"
    and mono: "info x x' \<Longrightarrow> info y y' \<Longrightarrow> info (f x y) (f x' y')"
begin

lemma wrapper_eq:
  assumes "0 \<le> max_len n a b"
  shows "logic_wrapper f a b s1 s2 n = Inr (Const_bits
    (map2 f (ext_bits s1 (nat (max_len n a b)) (bits a)) (ext_bits s2 (nat (max_len n a b)) (bits b))))"
  using assms
  by (simp add: logic_wrapper_def extend_u0_eq Const_state_def Const_bits_def Let_def)
     (rule nth_equalityI, simp_all)

lemma wrapper_value:
  assumes "fully_def (bits a)" "fully_def (bits b)" "0 \<le> n"
  shows "logic_wrapper f a b s1 s2 n = Inr (Const_bits (map st
    (map2 g (bl_of_int (nat n) (cval s1 (bits a))) (bl_of_int (nat n) (cval s2 (bits b))))))"
proof -
  have "max_len n a b = n" using assms(3) by (simp add: max_len_def)
  then show ?thesis
    using assms
    by (simp add: wrapper_eq ext_bits_fully_def zip_map_map comp_def split_beta on_bools)
qed

lemma wrapper_mono:
  assumes "infos (bits a) (bits a')" "infos (bits b) (bits b')"
  shows "\<exists>r r'. logic_wrapper f a b s1 s2 n = Inr r \<and> logic_wrapper f a' b' s1 s2 n = Inr r' \<and>
    infos (bits r) (bits r')"
proof -
  have len: "length (bits a) = length (bits a')" "length (bits b) = length (bits b')"
    using assms by (auto dest: list_all2_lengthD)
  have m: "max_len n a' b' = max_len n a b" "0 \<le> max_len n a b"
    using len by (auto simp: max_len_def)
  have "infos (map2 f (ext_bits s1 k (bits a)) (ext_bits s2 k (bits b)))
      (map2 f (ext_bits s1 k (bits a')) (ext_bits s2 k (bits b')))" for k
    using infos_ext_bits [OF assms(1), of s1 k] infos_ext_bits [OF assms(2), of s2 k]
    by (auto simp: list_all2_conv_all_nth intro!: mono)
  moreover have "0 \<le> max_len n a' b'" using m by simp
  ultimately show ?thesis
    using wrapper_eq [OF m(2), of s1 s2] wrapper_eq [of n a' b' s1 s2] m(1) by simp
qed

lemma reduce_value: "foldl f (st i) (map st cs) = st (foldl g i cs)"
  by (induction cs arbitrary: i) (simp_all add: on_bools)

lemma reduce_mono: "info i i' \<Longrightarrow> infos xs ys \<Longrightarrow> info (foldl f i xs) (foldl f i' ys)"
proof (induction ys arbitrary: i i' xs)
  case (Cons y ys)
  then obtain z zs where "xs = z # zs" "info z y" "infos zs ys"
    by (auto simp: list_all2_Cons2)
  then show ?case
    using Cons.IH [OF mono [OF Cons.prems(1)]] by simp
qed simp

end

interpretation land: bit_function logic_and "(\<and>)"
  by unfold_locales (auto simp: logic_and_def info_def defined_def st_def)

interpretation lor: bit_function logic_or "(\<or>)"
  by unfold_locales (auto simp: logic_or_def info_def defined_def st_def)

interpretation lxor: bit_function logic_xor "(\<noteq>)"
  by unfold_locales (auto simp: logic_xor_def info_def defined_def st_def)

interpretation lxnor: bit_function logic_xnor "(=)"
  by unfold_locales (auto simp: logic_xnor_def info_def defined_def st_def)


lemma bl_of_int_map2:
  assumes "\<And>i. bit w i \<longleftrightarrow> g (bit u i) (bit v i)"
  shows "map2 g (bl_of_int n u) (bl_of_int n v) = bl_of_int n w"
  by (rule nth_equalityI) (simp_all add: assms)

lemma const_bitwise_value:
  assumes "fully_def (bits a)" "fully_def (bits b)" "0 \<le> n"
    and u: "u = cval s1 (bits a)" and v: "v = cval s2 (bits b)"
  shows "const_and a b s1 s2 n = Inr (Const_bits (map st (bl_of_int (nat n) (u AND v)))) \<and>
    const_or a b s1 s2 n = Inr (Const_bits (map st (bl_of_int (nat n) (u OR v)))) \<and>
    const_xor a b s1 s2 n = Inr (Const_bits (map st (bl_of_int (nat n) (u XOR v)))) \<and>
    const_xnor a b s1 s2 n = Inr (Const_bits (map st (bl_of_int (nat n) (NOT (u XOR v))))) \<and>
    const_not a b s1 s2 n = Inr (Const_bits (map st (bl_of_int (nat n) (NOT u))))"
proof -
  note vals = land.wrapper_value lor.wrapper_value lxor.wrapper_value lxnor.wrapper_value
  have m: "map2 (\<and>) (bl_of_int k u) (bl_of_int k v) = bl_of_int k (u AND v)"
    "map2 (\<or>) (bl_of_int k u) (bl_of_int k v) = bl_of_int k (u OR v)"
    "map2 (\<noteq>) (bl_of_int k u) (bl_of_int k v) = bl_of_int k (u XOR v)"
    "map2 (=) (bl_of_int k u) (bl_of_int k v) = bl_of_int k (NOT (u XOR v))" for k
    by (rule bl_of_int_map2; simp add: bit_and_iff bit_or_iff bit_xor_iff bit_not_iff)+
  have "const_not a b s1 s2 n = Inr (Const_bits (map st (bl_of_int (nat n) (NOT u))))"
    using assms(1,3)
    by (simp add: const_not_def not_len_def extend_u0_eq Const_state_def Const_bits_def Let_def
        ext_bits_fully_def u)
       (rule nth_equalityI, simp_all add: st_def bit_not_iff)
  moreover have "const_and a b s1 s2 n = Inr (Const_bits (map st (bl_of_int (nat n) (u AND v))))"
    using land.wrapper_value [OF assms(1-3)] m(1)
    by (simp only: const_and_def u v)
  moreover have "const_or a b s1 s2 n = Inr (Const_bits (map st (bl_of_int (nat n) (u OR v))))"
    using lor.wrapper_value [OF assms(1-3)] m(2)
    by (simp only: const_or_def u v)
  moreover have "const_xor a b s1 s2 n = Inr (Const_bits (map st (bl_of_int (nat n) (u XOR v))))"
    using lxor.wrapper_value [OF assms(1-3)] m(3)
    by (simp only: const_xor_def u v)
  moreover have "const_xnor a b s1 s2 n = Inr (Const_bits (map st (bl_of_int (nat n) (NOT (u XOR v)))))"
    using lxnor.wrapper_value [OF assms(1-3)] m(4)
    by (simp only: const_xnor_def u v)
  ultimately show ?thesis by blast
qed

text \<open>C33: on constants without undefined bits the bitwise operators compute the two's complement
  AND, OR, XOR, XNOR and NOT of the sign or zero extended operands, truncated to the result
  width.\<close>

theorem const_bitwise_correct:
  assumes "fully_def (bits a)" "fully_def (bits b)" "0 \<le> n"
    and u: "u = cval s1 (bits a)" and v: "v = cval s2 (bits b)"
  shows "const_and a b s1 s2 n = Inr (Const_bits (map st (bl_of_int (nat n) (u AND v)))) \<and>
    const_or a b s1 s2 n = Inr (Const_bits (map st (bl_of_int (nat n) (u OR v)))) \<and>
    const_xor a b s1 s2 n = Inr (Const_bits (map st (bl_of_int (nat n) (u XOR v)))) \<and>
    const_xnor a b s1 s2 n = Inr (Const_bits (map st (bl_of_int (nat n) (NOT (u XOR v))))) \<and>
    const_not a b s1 s2 n = Inr (Const_bits (map st (bl_of_int (nat n) (NOT u))))"
  by (rule const_bitwise_value [OF assms])

theorem const_bitwise_correct_witness:
  "const_and (Const_bits [S1, S0]) (Const_bits [S1]) False True 2 = Inr (Const_bits [S1, S0])"
proof -
  have "const_and (Const_bits [S1, S0]) (Const_bits [S1]) False True 2 =
      Inr (Const_bits (map st (bl_of_int (nat 2)
        (cval False (bits (Const_bits [S1, S0])) AND cval True (bits (Const_bits [S1]))))))"
    using const_bitwise_correct [of "Const_bits [S1, S0]" "Const_bits [S1]" 2 _ False _ True] by simp
  then show ?thesis
    by (simp add: const_and_def logic_wrapper_def extend_u0_def max_len_def Const_state_def
        Const_bits_def Let_def logic_and_def guardE_def upt_rec numeral_2_eq_2)
qed

text \<open>C34: a defined result bit of a bitwise operator does not depend on the undefined input bits:
  replacing undefined bits by any values changes only result bits that were undefined.\<close>

theorem const_bitwise_sound:
  assumes "infos (bits a) (bits a')" "infos (bits b) (bits b')"
    and "op \<in> {const_and, const_or, const_xor, const_xnor}"
  shows "\<exists>r r'. op a b s1 s2 n = Inr r \<and> op a' b' s1 s2 n = Inr r' \<and> infos (bits r) (bits r')"
  using assms(3) land.wrapper_mono [OF assms(1,2)] lor.wrapper_mono [OF assms(1,2)]
    lxor.wrapper_mono [OF assms(1,2)] lxnor.wrapper_mono [OF assms(1,2)]
  by (auto simp: const_and_def const_or_def const_xor_def const_xnor_def)

theorem const_bitwise_sound_witness:
  "\<exists>r r'. const_and (Const_bits [Sx, S0]) (Const_bits [S1, Sx]) False False 2 = Inr r \<and>
     const_and (Const_bits [S1, S0]) (Const_bits [S1, S1]) False False 2 = Inr r' \<and>
     infos (bits r) (bits r')"
  by (rule const_bitwise_sound) (simp_all add: info_def)

section \<open>Reductions, comparisons and arithmetic\<close>

lemma const2big_pair_undef:
  assumes "\<not> (fully_def (bits a) \<and> fully_def (bits b))"
  shows "snd (const2big b s2 (snd (const2big a s1 (-1)))) \<ge> 0"
  using assms const2big_undef [of a s1 "-1"] const2big_undef [of b s2 "snd (const2big a s1 (-1))"]
  by auto

lemma max_len_nonneg [simp]: "0 \<le> n \<Longrightarrow> max_len n a b = n"
  by (simp add: max_len_def)

text \<open>The shape common to the arithmetic operators: convert both operands, compute, convert
  back; any undefined input bit makes every result bit undefined.\<close>

lemma arith_result:
  assumes "0 \<le> n"
    and "\<And>x u y u'. const2big a s1 (-1) = (x, u) \<Longrightarrow> const2big b s2 u = (y, u') \<Longrightarrow>
      opr = big2const (h x y) n u' \<or> opr = big2const (h x y) n (min u' 0)"
  shows "opr = Inr (Const_bits (if fully_def (bits a) \<and> fully_def (bits b)
    then map st (bl_of_int (nat n) (h (cval s1 (bits a)) (cval s2 (bits b))))
    else replicate (nat n) Sx))"
proof (cases "fully_def (bits a) \<and> fully_def (bits b)")
  case True
  then have "const2big a s1 (-1) = (cval s1 (bits a), -1)"
    and "const2big b s2 (-1) = (cval s2 (bits b), -1)"
    by (simp_all add: const2big_fully_def)
  from assms(2) [OF this] show ?thesis
    using assms(1) True by (auto simp: big2const_eq)
next
  case False
  obtain x u where 1: "const2big a s1 (-1) = (x, u)" by (cases "const2big a s1 (-1)")
  obtain y u' where 2: "const2big b s2 u = (y, u')" by (cases "const2big b s2 u")
  have "u' \<ge> 0"
    using const2big_pair_undef [OF False, of s2 s1] 1 2 by simp
  with assms(2) [OF 1 2] show ?thesis
    using assms(1) False by (auto simp: big2const_eq)
qed

lemma const_add_eq:
  "0 \<le> n \<Longrightarrow> const_add a b s1 s2 n = Inr (Const_bits (if fully_def (bits a) \<and> fully_def (bits b)
    then map st (bl_of_int (nat n) (cval s1 (bits a) + cval s2 (bits b)))
    else replicate (nat n) Sx))"
  by (rule arith_result) (simp_all add: const_add_def)

lemma const_sub_eq:
  "0 \<le> n \<Longrightarrow> const_sub a b s1 s2 n = Inr (Const_bits (if fully_def (bits a) \<and> fully_def (bits b)
    then map st (bl_of_int (nat n) (cval s1 (bits a) - cval s2 (bits b)))
    else replicate (nat n) Sx))"
  by (rule arith_result) (simp_all add: const_sub_def)

lemma const_mul_eq:
  "0 \<le> n \<Longrightarrow> const_mul a b s1 s2 n = Inr (Const_bits (if fully_def (bits a) \<and> fully_def (bits b)
    then map st (bl_of_int (nat n) (cval s1 (bits a) * cval s2 (bits b)))
    else replicate (nat n) Sx))"
  by (rule arith_result) (simp_all add: const_mul_def)

lemma cval_Const_bit_S0 [simp]: "cval sg (bits (Const_bit S0)) = 0" "fully_def (bits (Const_bit S0))"
  by (simp_all add: Const_bit_def cval_def sval_def sbl_def uval_def)

lemma const_neg_eq:
  "0 \<le> n \<Longrightarrow> const_neg a b s1 s2 n = Inr (Const_bits (if fully_def (bits a)
    then map st (bl_of_int (nat n) (- cval s1 (bits a)))
    else replicate (nat n) Sx))"
  by (simp add: const_neg_def const_sub_eq)

text \<open>C30: addition, subtraction, multiplication and negation of constants are exact modulo
  \<open>2 ^ result_len\<close> for every combination of operand widths and signedness, and give all-undefined
  as soon as an operand bit is undefined.\<close>

theorem const_arith_correct:
  assumes "0 \<le> n"
  shows "const_add a b s1 s2 n = Inr (Const_bits (if fully_def (bits a) \<and> fully_def (bits b)
      then map st (bl_of_int (nat n) (cval s1 (bits a) + cval s2 (bits b)))
      else replicate (nat n) Sx)) \<and>
    const_sub a b s1 s2 n = Inr (Const_bits (if fully_def (bits a) \<and> fully_def (bits b)
      then map st (bl_of_int (nat n) (cval s1 (bits a) - cval s2 (bits b)))
      else replicate (nat n) Sx)) \<and>
    const_mul a b s1 s2 n = Inr (Const_bits (if fully_def (bits a) \<and> fully_def (bits b)
      then map st (bl_of_int (nat n) (cval s1 (bits a) * cval s2 (bits b)))
      else replicate (nat n) Sx)) \<and>
    const_neg a b s1 s2 n = Inr (Const_bits (if fully_def (bits a)
      then map st (bl_of_int (nat n) (- cval s1 (bits a)))
      else replicate (nat n) Sx))"
  using const_add_eq [OF assms] const_sub_eq [OF assms] const_mul_eq [OF assms]
    const_neg_eq [OF assms] by blast

theorem const_arith_correct_witness:
  "const_add (Const_bits [S1, S1]) (Const_bits [S1]) False False 2 = Inr (Const_bits [S0, S0])"
  using const_arith_correct [of 2 "Const_bits [S1, S1]" "Const_bits [S1]" False False]
  by (simp add: cval_def uval_def bl_of_int_def upt_rec numeral_2_eq_2)

text \<open>What \<open>big2const\<close> writes, \<open>const2big\<close> reads back: the value modulo \<open>2 ^ n\<close> unsigned, and
  the two's complement representative when read as signed.\<close>

theorem const2big_big2const:
  assumes "0 \<le> n"
  shows "\<exists>c. big2const v n (-1) = Inr c \<and> length (bits c) = nat n \<and>
    const2big c False (-1) = (v mod 2 ^ nat n, -1) \<and>
    (0 < n \<longrightarrow> const2big c True (-1) = (signed_take_bit (nat n - 1) v, -1))"
proof -
  let ?bl = "bl_of_int (nat n) v"
  have "sbl ?bl = signed_take_bit (nat n - 1) v" if "0 < n"
  proof -
    have n: "nat n = Suc (nat n - 1)" using that by simp
    have ne: "?bl \<noteq> []"
      using that by (simp add: bl_of_int_def)
    have "last ?bl = bit v (nat n - 1)"
      using that by (simp add: last_conv_nth [OF ne])
    then have "sbl ?bl = take_bit (nat n) v - 2 ^ nat n * of_bool (bit v (nat n - 1))"
      using that ne by (simp add: sbl_def ubl_bl_of_int take_bit_eq_mod)
    also have "\<dots> = signed_take_bit (nat n - 1) v"
      by (subst (1 2) n) (simp add: signed_take_bit_eq_take_bit_minus)
    finally show ?thesis .
  qed
  then show ?thesis
    using assms by (simp add: big2const_eq const2big_fully_def cval_def ubl_bl_of_int)
qed

theorem const2big_big2const_witness:
  "\<exists>c. big2const (-3) 4 (-1) = Inr c \<and> const2big c False (-1) = (13, -1) \<and>
     const2big c True (-1) = (-3, -1)"
proof -
  have "signed_take_bit 3 (-3) = (-3 :: int)"
    by (simp add: signed_take_bit_eq_take_bit_minus)
  then show ?thesis
    using const2big_big2const [of 4 "-3"] by auto
qed


text \<open>The quotient and remainder rules of the source in terms of Isabelle's floored division.\<close>

definition quot_to_zero :: "int \<Rightarrow> int \<Rightarrow> int" where
  "quot_to_zero dividend divisor = sgn (dividend * divisor) * (\<bar>dividend\<bar> div \<bar>divisor\<bar>)"

lemma const_div_quotient:
  "(if (a < 0) \<noteq> (b < 0) then - ((if a < 0 then - a else a) div (if b < 0 then - b else b))
    else (if a < 0 then - a else a) div (if b < 0 then - b else b)) = quot_to_zero a b"
  if "b \<noteq> 0" for a b :: int
  using that by (auto simp: quot_to_zero_def sgn_if zero_less_mult_iff mult_less_0_iff)

lemma const_mod_remainder:
  "(if a < 0 then - ((if a < 0 then - a else a) mod (if b < 0 then - b else b))
    else (if a < 0 then - a else a) mod (if b < 0 then - b else b)) = a - b * quot_to_zero a b"
  if "b \<noteq> 0" for a b :: int
  using that
  by (auto simp: quot_to_zero_def sgn_if zero_less_mult_iff mult_less_0_iff minus_div_mult_eq_mod [symmetric] algebra_simps)

lemma ceil_div: "(a + b - 1) div b = - ((- a) div b)" if "0 < b" for a b :: int
proof -
  have "(- a) div b = - ((a + b - 1) div b)"
  proof (rule int_div_pos_eq)
    let ?q = "(a + b - 1) div b" and ?m = "(a + b - 1) mod b"
    have m: "0 \<le> ?m" "?m < b" and e: "a + b - 1 = b * ?q + ?m"
      using that by simp_all
    show "- a = b * - ?q + (b - 1 - ?m)"
      using e by (simp add: algebra_simps)
    show "0 \<le> b - 1 - ?m" "b - 1 - ?m < b" using m by simp_all
  qed
  then show ?thesis by simp
qed

lemma const_divfloor_quotient:
  fixes a b :: int
  assumes b0: "b \<noteq> 0"
  shows "(if (a < 0) = (b < 0) \<or> (if a < 0 then - a else a) = 0
    then (if a < 0 then - a else a) div (if b < 0 then - b else b)
    else - (((if a < 0 then - a else a) + (if b < 0 then - b else b) - 1)
              div (if b < 0 then - b else b))) = a div b"
proof -
  consider "a < 0" "b < 0" | "a < 0" "0 < b" | "0 \<le> a" "b < 0" | "0 \<le> a" "0 < b"
    using b0 by linarith
  then show ?thesis
  proof cases
    case 2
    then show ?thesis using ceil_div [of b "- a"] by simp
  next
    case 3
    then show ?thesis using ceil_div [of "- b" a] by (auto simp: div_minus_right)
  qed simp_all
qed

lemma const_modfloor_remainder:
  fixes a b :: int
  assumes b0: "b \<noteq> 0"
  shows "(let a' = (if sgn a = -1 then - a else a); b' = (if sgn b = -1 then - b else b);
        t = (if sgn a = -1 then - (a' mod b') else a' mod b')
    in if t = 0 \<or> sgn a = sgn b then t else if sgn b = -1 then t - b' else t + b') = a mod b"
proof -
  consider "a < 0" "b < 0" | "a < 0" "0 < b" | "0 \<le> a" "b < 0" | "0 \<le> a" "0 < b"
    using b0 by linarith
  then show ?thesis
  proof cases
    case 1
    then have "sgn a = -1" "sgn b = -1" by simp_all
    then show ?thesis by (simp add: Let_def)
  next
    case 2
    then have sg: "sgn a = -1" "sgn b = 1" by simp_all
    have "- (- a mod b) = (if a mod b = 0 then 0 else a mod b - b)"
      by (simp add: zmod_zminus1_eq_if)
    moreover have "a mod b \<noteq> b"
      using 2 pos_mod_bound [of b a] by linarith
    ultimately show ?thesis
      unfolding sg Let_def by (cases "a mod b = 0") simp_all
  next
    case 3
    then have sg: "sgn b = -1" "sgn a \<noteq> -1" by (simp_all add: sgn_if)
    have "a mod - b = (if a mod b = 0 then 0 else a mod b - b)"
      by (simp add: zmod_zminus2_eq_if)
    moreover have "a mod b \<noteq> b"
      using 3 neg_mod_bound [of b a] by linarith
    ultimately show ?thesis
      using sg(2) unfolding sg(1) Let_def by (cases "a mod b = 0") simp_all
  next
    case 4
    then have "sgn b = 1" "sgn a \<noteq> -1" "a = 0 \<or> sgn a = 1" by (auto simp: sgn_if)
    then show ?thesis by (cases "a = 0") (simp_all add: Let_def)
  qed
qed

lemma division_result:
  assumes n: "0 \<le> n"
    and def: "\<And>x u y u'. const2big a s1 (-1) = (x, u) \<Longrightarrow> const2big b s2 u = (y, u') \<Longrightarrow>
      opr = (if y = 0 then Const_state Sx n else big2const (h x y) n (min u' 0))"
  shows "opr = Inr (Const_bits (if fully_def (bits a) \<and> fully_def (bits b) \<and> cval s2 (bits b) \<noteq> 0
    then map st (bl_of_int (nat n) (h (cval s1 (bits a)) (cval s2 (bits b))))
    else replicate (nat n) Sx))"
proof (cases "fully_def (bits a) \<and> fully_def (bits b)")
  case True
  then have "const2big a s1 (-1) = (cval s1 (bits a), -1)"
    and "const2big b s2 (-1) = (cval s2 (bits b), -1)"
    by (simp_all add: const2big_fully_def)
  from def [OF this] show ?thesis
    using n True by (auto simp: big2const_eq Const_state_def Const_bits_def)
next
  case False
  obtain x u where 1: "const2big a s1 (-1) = (x, u)" by (cases "const2big a s1 (-1)")
  obtain y u' where 2: "const2big b s2 u = (y, u')" by (cases "const2big b s2 u")
  have "u' \<ge> 0"
    using const2big_pair_undef [OF False, of s2 s1] 1 2 by simp
  with def [OF 1 2] show ?thesis
    using n False by (auto simp: big2const_eq Const_state_def Const_bits_def)
qed

lemma const_div_shape:
  assumes "0 \<le> n" "const2big a s1 (-1) = (x, u)" "const2big b s2 u = (y, u')"
  shows "const_div a b s1 s2 n =
    (if y = 0 then Const_state Sx n else big2const (quot_to_zero x y) n (min u' 0))"
proof (cases "y = 0")
  case False
  then show ?thesis
    unfolding const_div_def assms(2,3) Let_def split_conv
    by (simp only: if_False max_len_nonneg [OF assms(1)] const_div_quotient [OF False])
qed (simp add: const_div_def assms)

lemma const_mod_shape:
  assumes "0 \<le> n" "const2big a s1 (-1) = (x, u)" "const2big b s2 u = (y, u')"
  shows "const_mod a b s1 s2 n =
    (if y = 0 then Const_state Sx n else big2const (x - y * quot_to_zero x y) n (min u' 0))"
proof (cases "y = 0")
  case False
  then show ?thesis
    unfolding const_mod_def assms(2,3) Let_def split_conv
    by (simp only: if_False max_len_nonneg [OF assms(1)] const_mod_remainder [OF False])
qed (simp add: const_mod_def assms)

lemma const_divfloor_shape:
  assumes "0 \<le> n" "const2big a s1 (-1) = (x, u)" "const2big b s2 u = (y, u')"
  shows "const_divfloor a b s1 s2 n =
    (if y = 0 then Const_state Sx n else big2const (x div y) n (min u' 0))"
proof (cases "y = 0")
  case False
  then show ?thesis
    unfolding const_divfloor_def assms(2,3) Let_def split_conv
    by (simp only: if_False max_len_nonneg [OF assms(1)] const_divfloor_quotient [OF False])
qed (simp add: const_divfloor_def assms)

lemma const_modfloor_shape:
  assumes "0 \<le> n" "const2big a s1 (-1) = (x, u)" "const2big b s2 u = (y, u')"
  shows "const_modfloor a b s1 s2 n =
    (if y = 0 then Const_state Sx n else big2const (x mod y) n (min u' 0))"
proof (cases "y = 0")
  case False
  then show ?thesis
    unfolding const_modfloor_def assms(2,3) Let_def split_conv
    by (simp only: if_False max_len_nonneg [OF assms(1)] const_modfloor_remainder [OF False, unfolded Let_def])
qed (simp add: const_modfloor_def assms)

text \<open>C31: \<open>const_div\<close> and \<open>const_mod\<close> divide with truncation towards zero, \<open>const_divfloor\<close> and
  \<open>const_modfloor\<close> with rounding towards minus infinity; a zero divisor or an undefined operand
  bit gives an all-undefined result.\<close>

theorem const_division_correct:
  assumes "0 \<le> n" and a: "x = cval s1 (bits a)" and b: "y = cval s2 (bits b)"
    and ok: "ok \<longleftrightarrow> fully_def (bits a) \<and> fully_def (bits b) \<and> y \<noteq> 0"
  shows "const_div a b s1 s2 n = Inr (Const_bits
      (if ok then map st (bl_of_int (nat n) (quot_to_zero x y)) else replicate (nat n) Sx)) \<and>
    const_mod a b s1 s2 n = Inr (Const_bits
      (if ok then map st (bl_of_int (nat n) (x - y * quot_to_zero x y)) else replicate (nat n) Sx)) \<and>
    const_divfloor a b s1 s2 n = Inr (Const_bits
      (if ok then map st (bl_of_int (nat n) (x div y)) else replicate (nat n) Sx)) \<and>
    const_modfloor a b s1 s2 n = Inr (Const_bits
      (if ok then map st (bl_of_int (nat n) (x mod y)) else replicate (nat n) Sx))"
  unfolding ok a b
  by (intro conjI;
      rule division_result [where h = quot_to_zero]
        division_result [where h = "\<lambda>x y. x - y * quot_to_zero x y"]
        division_result [where h = "(div)"] division_result [where h = "(mod)"];
      (rule assms(1) const_div_shape const_mod_shape const_divfloor_shape const_modfloor_shape;
        assumption?)+)

theorem const_division_correct_witness:
  "const_div (Const_bits [S1, S0, S0, S1]) (Const_bits [S0, S1]) True False 4 =
     Inr (Const_bits [S1, S0, S1, S1]) \<and>
   const_modfloor (Const_bits [S1, S0, S0, S1]) (Const_bits [S0, S1]) True False 4 =
     Inr (Const_bits [S1, S0, S0, S0])"
proof -
  have v: "(-7 :: int) = cval True (bits (Const_bits [S1, S0, S0, S1]))"
    "(2 :: int) = cval False (bits (Const_bits [S0, S1]))"
    by (simp_all add: cval_def uval_def sval_def sbl_def)
  have t: "map st (bl_of_int (nat 4) (quot_to_zero (-7) 2)) = [S1, S0, S1, S1]"
    "map st (bl_of_int (nat 4) ((-7) mod 2)) = [S1, S0, S0, S0]"
    by code_simp+
  show ?thesis
    using const_division_correct [OF _ v, of 4 True] by (simp only: t) simp
qed

section \<open>Exponentiation\<close>

lemma pow_loop_mod: "0 \<le> b \<Longrightarrow> pow_loop m b a y mod m = (y * a ^ nat b) mod m"
proof (induction m b a y rule: pow_loop.induct)
  case (1 m b a y)
  show ?case
  proof (cases "b > 0")
    case True
    let ?y = "if b mod 2 = 1 then (y * a) mod m else y"
    have "pow_loop m b a y mod m = pow_loop m (b div 2) ((a * a) mod m) ?y mod m"
      using True by (simp add: pow_loop.simps [of m b])
    also have "\<dots> = (?y * ((a * a) mod m) ^ nat (b div 2)) mod m"
      using "1.IH" [OF True] True by simp
    also have "\<dots> = ((if b mod 2 = 1 then y * a else y) * (a * a) ^ nat (b div 2)) mod m"
      by (auto simp: mod_mult_left_eq mod_mult_right_eq power_mod
          intro: mod_mult_cong)
    also have "(if b mod 2 = 1 then y * a else y) * (a * a) ^ nat (b div 2) = y * a ^ nat b"
    proof -
      have "nat b = 2 * nat (b div 2) + nat (b mod 2)"
        using True by (simp add: nat_eq_iff nat_mult_distrib [symmetric] flip: nat_add_distrib)
      moreover have "b mod 2 = 0 \<or> b mod 2 = 1" by presburger
      ultimately show ?thesis
        by (auto simp: power_add power_mult power2_eq_square)
    qed
    finally show ?thesis .
  next
    case False
    with "1.prems" show ?thesis by (simp add: pow_loop.simps)
  qed
qed

definition pow_value :: "int \<Rightarrow> int \<Rightarrow> int" where
  "pow_value x y =
     (if 0 \<le> y then x ^ nat y
      else if x = 1 then 1 else if x = -1 then (if even y then 1 else -1) else 0)"

lemma abs_power_sign:
  "(if x < 0 \<and> y mod 2 = 1 then \<bar>x\<bar> ^ nat y * -1 else \<bar>x\<bar> ^ nat y) = x ^ nat y"
  if "0 \<le> y" for x y :: int
proof (cases "x < 0")
  case True
  have "even (nat y) \<longleftrightarrow> \<not> y mod 2 = 1"
    using that by (auto simp: even_nat_iff)
  then show ?thesis
    using True by (auto simp: abs_if)
qed simp

lemma const_pow_shape:
  assumes "const2big a s1 (-1) = (x, -1)" "const2big b s2 (-1) = (y, -1)" "0 \<le> n"
  shows "const_pow a b s1 s2 n =
    (if x = 0 \<and> y < 0 then Const_state Sx n
     else if x = 0 \<and> y > 0 then Const_state S0 n
     else if y < 0 then
       big2const (if x = -1 then (if (- y) mod 2 = 0 then 1 else -1)
         else if x < -1 \<or> x > 1 then 0 else 1) n (-1)
     else if y > 0 then
       (let p = pow_loop (2 ^ nat n) y \<bar>x\<bar> 1
        in big2const (if x < 0 \<and> y mod 2 = 1 then p * -1 else p) n (-1))
     else big2const 1 n (-1))"
  unfolding const_pow_def assms(1,2) Let_def split_conv max_len_nonneg [OF assms(3)]
  using assms(3) by (simp add: abs_if)

lemma pow_loop_value:
  assumes "0 < y"
  shows "bl_of_int n (if x < 0 \<and> y mod 2 = 1 then pow_loop (2 ^ n) y \<bar>x\<bar> 1 * -1
      else pow_loop (2 ^ n) y \<bar>x\<bar> 1) = bl_of_int n (x ^ nat y)"
proof (rule bl_of_int_cong)
  let ?m = "2 ^ n :: int" and ?f = "x < 0 \<and> y mod 2 = 1" and ?p = "pow_loop (2 ^ n) y \<bar>x\<bar> 1"
  have p: "?p mod ?m = (\<bar>x\<bar> ^ nat y) mod ?m"
    using assms by (simp add: pow_loop_mod)
  then have q: "(?p * -1) mod ?m = (\<bar>x\<bar> ^ nat y * -1) mod ?m"
    by (rule mod_mult_cong) (rule refl)
  have "(if ?f then ?p * -1 else ?p) mod ?m =
      (if ?f then \<bar>x\<bar> ^ nat y * -1 else \<bar>x\<bar> ^ nat y) mod ?m"
  proof (cases ?f)
    case True
    show ?thesis unfolding if_P [OF True] by (rule q)
  next
    case False
    show ?thesis unfolding if_not_P [OF False] by (rule p)
  qed
  also have "\<dots> = (x ^ nat y) mod ?m"
    using abs_power_sign [of y x] assms by (simp only: less_imp_le)
  finally show "(if ?f then ?p * -1 else ?p) mod ?m = (x ^ nat y) mod ?m" .
qed

lemma const_pow_ok:
  assumes "fully_def (bits a)" "fully_def (bits b)" "0 \<le> n"
    and x: "x = cval s1 (bits a)" and y: "y = cval s2 (bits b)"
  shows "const_pow a b s1 s2 n = Inr (Const_bits
    (if x = 0 \<and> y < 0 then replicate (nat n) Sx else map st (bl_of_int (nat n) (pow_value x y))))"
proof -
  have shape: "const2big a s1 (-1) = (x, -1)" "const2big b s2 (-1) = (y, -1)"
    using assms by (simp_all add: const2big_fully_def)
  have S0s: "replicate (nat n) S0 = map st (bl_of_int (nat n) 0)"
    by (rule nth_equalityI) simp_all
  consider "x = 0" "y < 0" | "x = 0" "y > 0" | "y = 0" | "x \<noteq> 0" "y < 0" | "x \<noteq> 0" "y > 0"
    by linarith
  then show ?thesis
  proof cases
    case 5
    then show ?thesis
      using assms(3) pow_loop_value [of y "nat n" x]
      by (simp only: const_pow_shape [OF shape] pow_value_def Let_def big2const_eq) simp
  qed (use assms(3) S0s in \<open>auto simp: const_pow_shape [OF shape] pow_value_def big2const_eq
        Const_state_def Const_bits_def even_iff_mod_2_eq_zero zero_power\<close>)
qed

text \<open>C32: for operands without undefined bits \<open>const_pow\<close> computes the power modulo
  \<open>2 ^ result_len\<close> by square-and-multiply, follows the Verilog table for negative exponents, and
  gives an undefined result for zero to a negative power.\<close>

theorem const_pow_correct:
  assumes "fully_def (bits a)" "fully_def (bits b)" "0 \<le> n"
    and x: "x = cval s1 (bits a)" and y: "y = cval s2 (bits b)"
  shows "const_pow a b s1 s2 n = Inr (Const_bits
    (if x = 0 \<and> y < 0 then replicate (nat n) Sx else map st (bl_of_int (nat n) (pow_value x y))))"
  using assms by (rule const_pow_ok)

theorem const_pow_correct_witness:
  "const_pow (Const_bits [S1, S1]) (Const_bits [S0, S1]) False False 4 =
     Inr (Const_bits [S1, S0, S0, S1])"
proof -
  have v: "(3 :: int) = cval False (bits (Const_bits [S1, S1]))"
    "(2 :: int) = cval False (bits (Const_bits [S0, S1]))"
    by (simp_all add: cval_def uval_def)
  have t: "map st (bl_of_int (nat 4) (pow_value 3 2)) = [S1, S0, S0, S1]"
    by code_simp
  show ?thesis
    using const_pow_correct [OF _ _ _ v, of 4] by (simp only: t) simp
qed

lemma const2big_no_ones: "S1 \<notin> set (bits c) \<Longrightarrow> fst (const2big c sg u) = 0"
proof -
  assume n: "S1 \<notin> set (bits c)"
  have "ubl (map (\<lambda>b. b = S1) (bits c)) = 0" using n by (auto simp: ubl_eq_0_iff)
  moreover have "const2big c sg u = const2big_loop 0 S1 (bits c) 0 u"
    by (rule const2big_pos) (use n last_in_set in metis)
  ultimately show ?thesis by (simp add: const2big_loop_mag)
qed

lemma infos_zeros:
  assumes "infos (replicate n S0) (map st (bl_of_int n v))"
  shows "2 ^ n dvd v"
proof -
  have "\<not> b" if "b \<in> set (bl_of_int n v)" for b
    using assms that by (auto simp: list_all2_conv_all_nth info_def defined_def in_set_conv_nth st_def split: if_splits)
  then have "ubl (bl_of_int n v) = 0" unfolding ubl_eq_0_iff by blast
  then show ?thesis by (simp add: ubl_bl_of_int dvd_eq_mod_eq_0)
qed



section \<open>Comparisons\<close>

lemma compare_result:
  assumes "\<And>x u y u'. const2big a s1 (-1) = (x, u) \<Longrightarrow> const2big b s2 u = (y, u') \<Longrightarrow>
    opr = Inr (pad_S0 (Const_bit (compare_bit (h x y) u')) n)"
  shows "opr = Inr (pad_S0 (Const_bit (if fully_def (bits a) \<and> fully_def (bits b)
    then st (h (cval s1 (bits a)) (cval s2 (bits b))) else Sx)) n)"
proof (cases "fully_def (bits a) \<and> fully_def (bits b)")
  case True
  then have "const2big a s1 (-1) = (cval s1 (bits a), -1)"
    and "const2big b s2 (-1) = (cval s2 (bits b), -1)"
    by (simp_all add: const2big_fully_def)
  from assms [OF this] show ?thesis
    using True by (simp add: compare_bit_def st_def)
next
  case False
  obtain x u where 1: "const2big a s1 (-1) = (x, u)" by (cases "const2big a s1 (-1)")
  obtain y u' where 2: "const2big b s2 u = (y, u')" by (cases "const2big b s2 u")
  have "u' \<ge> 0"
    using const2big_pair_undef [OF False, of s2 s1] 1 2 by simp
  with assms [OF 1 2] show ?thesis
    using False by (auto simp: compare_bit_def)
qed

lemma cval_bounds:
  assumes "length bs \<le> w"
  shows "- (if sg then 2 ^ (w - 1) else 0) \<le> cval sg bs \<and> cval sg bs < (if sg then 2 ^ (w - 1) else 2 ^ w)"
proof (cases sg)
  case True
  show ?thesis
  proof (cases bs rule: rev_cases)
    case Nil
    then show ?thesis using True by (simp add: cval_def sval_def)
  next
    case (snoc cs c)
    have "uval cs < 2 ^ length cs" by (rule uval_less)
    moreover have "(2::int) ^ length cs \<le> 2 ^ (w - 1)"
      using assms snoc by (intro power_increasing) simp_all
    moreover have "sval bs = uval cs - 2 ^ length cs \<or> sval bs = uval cs"
      by (simp add: snoc sval_def uval_def sbl_snoc)
    moreover have "0 \<le> uval cs" "(0::int) < 2 ^ length cs" by simp_all
    ultimately have "- (2 ^ (w - 1)) \<le> sval bs \<and> sval bs < 2 ^ (w - 1)"
      by linarith
    then show ?thesis using True by (simp add: cval_def)
  qed
next
  case False
  have "uval bs < 2 ^ length bs" by (rule uval_less)
  moreover have "(2::int) ^ length bs \<le> 2 ^ w"
    using assms by (intro power_increasing) simp_all
  ultimately have "uval bs < 2 ^ w" by linarith
  then show ?thesis using False by (simp add: cval_def)
qed

lemma cval_eq_iff_bl:
  assumes "length xs \<le> w" "length ys \<le> w"
  shows "bl_of_int w (cval sg xs) = bl_of_int w (cval sg ys) \<longleftrightarrow> cval sg xs = cval sg ys"
proof
  assume "bl_of_int w (cval sg xs) = bl_of_int w (cval sg ys)"
  then have m: "cval sg xs mod 2 ^ w = cval sg ys mod 2 ^ w"
    by (metis ubl_bl_of_int)
  then have "2 ^ w dvd cval sg xs - cval sg ys"
    by (simp add: mod_eq_dvd_iff)
  moreover have "\<bar>cval sg xs - cval sg ys\<bar> < 2 ^ w"
  proof (cases "w = 0")
    case True
    then show ?thesis using assms by (simp add: cval_def sval_def uval_def)
  next
    case False
    then have "(2::int) ^ w = 2 * 2 ^ (w - 1)" by (cases w) simp_all
    then show ?thesis
      using cval_bounds [OF assms(1), of sg] cval_bounds [OF assms(2), of sg]
      by (auto split: if_splits)
  qed
  ultimately show "cval sg xs = cval sg ys"
    by (metis dvd_imp_le_int eq_iff_diff_eq_0 abs_of_nonneg linorder_not_less zero_le_numeral zero_le_power)
qed simp

lemma eq_loop_bools:
  "length as = length bs \<Longrightarrow> eq_loop (map st as) (map st bs) m = (if as = bs then Some m else None)"
  by (induction as bs arbitrary: m rule: list_induct2) auto

lemma bits_pad_S0 [simp]: "bits (pad_S0 (Const_bit s) n) = s # replicate (nat (n - 1)) S0"
  by (simp add: pad_S0_def Const_bit_def)

lemma const_eq_value:
  assumes "fully_def (bits a)" "fully_def (bits b)" "0 < n"
  shows "const_eq a b s1 s2 n = Inr (pad_S0 (Const_bit
    (st (cval (s1 \<and> s2) (bits a) = cval (s1 \<and> s2) (bits b)))) n)"
proof -
  let ?w = "max (length (bits a)) (length (bits b))"
  have w: "nat (max (int (length (bits a))) (int (length (bits b)))) = ?w"
    "0 \<le> max (int (length (bits a))) (int (length (bits b)))" by auto
  obtain m where m: "nat n = Suc m" "m = nat (n - 1)" using assms(3) by (cases "nat n") auto
  show ?thesis
    using assms m cval_eq_iff_bl [of "bits a" ?w "bits b" "s1 \<and> s2"]
    by (auto simp: const_eq_def Const_state_def extend_u0_eq w ext_bits_fully_def eq_loop_bools
        set_front_def guardE_def pad_S0_def Const_bit_def)
qed

lemma const_compare_value:
  assumes "fully_def (bits a)" "fully_def (bits b)" "0 < n"
    and x: "x = cval s1 (bits a)" and y: "y = cval s2 (bits b)"
  shows "const_lt a b s1 s2 n = Inr (pad_S0 (Const_bit (st (x < y))) n) \<and>
    const_le a b s1 s2 n = Inr (pad_S0 (Const_bit (st (x \<le> y))) n) \<and>
    const_ge a b s1 s2 n = Inr (pad_S0 (Const_bit (st (x \<ge> y))) n) \<and>
    const_gt a b s1 s2 n = Inr (pad_S0 (Const_bit (st (x > y))) n) \<and>
    const_eq a b s1 s2 n = Inr (pad_S0 (Const_bit
      (st (cval (s1 \<and> s2) (bits a) = cval (s1 \<and> s2) (bits b)))) n) \<and>
    const_ne a b s1 s2 n = Inr (pad_S0 (Const_bit
      (st (cval (s1 \<and> s2) (bits a) \<noteq> cval (s1 \<and> s2) (bits b)))) n)"
proof -
  note d = const2big_fully_def [OF assms(1)] const2big_fully_def [OF assms(2)]
  have "const_ne a b s1 s2 n = Inr (pad_S0 (Const_bit
      (st (cval (s1 \<and> s2) (bits a) \<noteq> cval (s1 \<and> s2) (bits b)))) n)"
    by (simp add: const_ne_def const_eq_value [OF assms(1-3)] flip_front_checked_def flip_front_def
        pad_S0_def Const_bit_def st_def)
  then show ?thesis
    using const_eq_value [OF assms(1-3)]
    by (simp add: const_lt_def const_le_def const_ge_def const_gt_def d x y compare_bit_def st_def)
qed

text \<open>C35: on fully defined operands the six comparison operators decide the comparison of the
  operand values (\<open>eq\<close> and \<open>ne\<close> treat the operands as signed only if both are), in a result padded
  with zeros to the requested width.\<close>

theorem const_compare_correct:
  assumes "fully_def (bits a)" "fully_def (bits b)" "0 < n"
    and x: "x = cval s1 (bits a)" and y: "y = cval s2 (bits b)"
  shows "const_lt a b s1 s2 n = Inr (pad_S0 (Const_bit (st (x < y))) n) \<and>
    const_le a b s1 s2 n = Inr (pad_S0 (Const_bit (st (x \<le> y))) n) \<and>
    const_ge a b s1 s2 n = Inr (pad_S0 (Const_bit (st (x \<ge> y))) n) \<and>
    const_gt a b s1 s2 n = Inr (pad_S0 (Const_bit (st (x > y))) n) \<and>
    const_eq a b s1 s2 n = Inr (pad_S0 (Const_bit
      (st (cval (s1 \<and> s2) (bits a) = cval (s1 \<and> s2) (bits b)))) n) \<and>
    const_ne a b s1 s2 n = Inr (pad_S0 (Const_bit
      (st (cval (s1 \<and> s2) (bits a) \<noteq> cval (s1 \<and> s2) (bits b)))) n)"
  by (rule const_compare_value [OF assms])

theorem const_compare_correct_witness:
  "const_lt (Const_bits [S1, S1]) (Const_bits [S1]) True False 1 = Inr (pad_S0 (Const_bit S1) 1)"
proof -
  have v: "(-1 :: int) = cval True (bits (Const_bits [S1, S1]))"
    "(1 :: int) = cval False (bits (Const_bits [S1]))"
    by (simp_all add: cval_def uval_def sval_def sbl_def)
  show ?thesis
    using const_compare_correct [OF _ _ _ v, of 1] by simp
qed

text \<open>Two bits that are both defined and differ decide an equality, whatever the other bits are.\<close>

definition differ :: "state \<Rightarrow> state \<Rightarrow> bool" where
  "differ a b \<longleftrightarrow> defined a \<and> defined b \<and> a \<noteq> b"


lemma eq_loop_eq:
  "length as = length bs \<Longrightarrow> eq_loop as bs m =
    (if \<exists>i<length as. differ (as ! i) (bs ! i) then None
     else Some (if fully_def as \<and> fully_def bs then m else Sx))"
proof (induction as bs arbitrary: m rule: list_induct2)
  case (Cons a as b bs)
  have ex: "(\<exists>i<length (a # as). differ ((a # as) ! i) ((b # bs) ! i)) \<longleftrightarrow>
    differ a b \<or> (\<exists>i<length as. differ (as ! i) (bs ! i))"
    by (simp add: Ex_less_Suc2)
  have d: "(a = S0 \<and> b = S1 \<or> a = S1 \<and> b = S0) \<longleftrightarrow> differ a b"
    by (cases a; cases b) (simp_all add: differ_def)
  show ?case
    unfolding ex using d by (cases "differ a b") (auto simp: Cons.IH)
qed simp

lemma fully_def_ext_bits: "length bs \<le> n \<Longrightarrow> fully_def (ext_bits sg n bs) \<longleftrightarrow> fully_def bs"
  by (auto simp: ext_bits_def fully_def_last)

lemma const_order_eq:
  "const_lt a b s1 s2 n = Inr (pad_S0 (Const_bit (if fully_def (bits a) \<and> fully_def (bits b)
    then st (cval s1 (bits a) < cval s2 (bits b)) else Sx)) n)"
  "const_le a b s1 s2 n = Inr (pad_S0 (Const_bit (if fully_def (bits a) \<and> fully_def (bits b)
    then st (cval s1 (bits a) \<le> cval s2 (bits b)) else Sx)) n)"
  "const_ge a b s1 s2 n = Inr (pad_S0 (Const_bit (if fully_def (bits a) \<and> fully_def (bits b)
    then st (cval s1 (bits a) \<ge> cval s2 (bits b)) else Sx)) n)"
  "const_gt a b s1 s2 n = Inr (pad_S0 (Const_bit (if fully_def (bits a) \<and> fully_def (bits b)
    then st (cval s1 (bits a) > cval s2 (bits b)) else Sx)) n)"
  by (rule compare_result, simp add: const_lt_def const_le_def const_ge_def const_gt_def)+

text \<open>C36: an undefined bit in either operand makes the four orderings undefined; an equality stays
  decided if some position has two defined, different bits (after extension to a common width), and
  is undefined otherwise.\<close>

theorem const_compare_undefined:
  assumes "\<not> (fully_def (bits a) \<and> fully_def (bits b))" "0 < n"
    and w: "w = max (length (bits a)) (length (bits b))"
    and d: "d = (\<exists>i<w. differ (ext_bits (s1 \<and> s2) w (bits a) ! i) (ext_bits (s1 \<and> s2) w (bits b) ! i))"
  shows "const_lt a b s1 s2 n = Inr (pad_S0 (Const_bit Sx) n) \<and>
    const_le a b s1 s2 n = Inr (pad_S0 (Const_bit Sx) n) \<and>
    const_ge a b s1 s2 n = Inr (pad_S0 (Const_bit Sx) n) \<and>
    const_gt a b s1 s2 n = Inr (pad_S0 (Const_bit Sx) n) \<and>
    const_eq a b s1 s2 n = Inr (pad_S0 (Const_bit (if d then S0 else Sx)) n) \<and>
    const_ne a b s1 s2 n = Inr (pad_S0 (Const_bit (if d then S1 else Sx)) n)"
proof -
  have w': "nat (max (int (length (bits a))) (int (length (bits b)))) = w"
    "0 \<le> max (int (length (bits a))) (int (length (bits b)))" by (auto simp: w)
  have f: "fully_def (ext_bits (s1 \<and> s2) w (bits a)) \<longleftrightarrow> fully_def (bits a)"
    "fully_def (ext_bits (s1 \<and> s2) w (bits b)) \<longleftrightarrow> fully_def (bits b)"
    by (simp_all add: fully_def_ext_bits w)
  obtain m where m: "nat n = Suc m" "m = nat (n - 1)" using assms(2) by (cases "nat n") auto
  have eq: "const_eq a b s1 s2 n = Inr (pad_S0 (Const_bit (if d then S0 else Sx)) n)"
    using assms(1,2) m
    by (auto simp: const_eq_def Const_state_def extend_u0_eq w' eq_loop_eq f d
        set_front_def guardE_def pad_S0_def Const_bit_def)
  have ne: "const_ne a b s1 s2 n = Inr (pad_S0 (Const_bit (if d then S1 else Sx)) n)"
    by (simp add: const_ne_def eq flip_front_checked_def flip_front_def pad_S0_def Const_bit_def)
  show ?thesis
    using eq ne by (simp only: const_order_eq if_not_P [OF assms(1)])
qed

theorem const_compare_undefined_witness:
  "const_eq (Const_bits [Sx, S1]) (Const_bits [S0]) False False 1 = Inr (pad_S0 (Const_bit S0) 1)"
proof -
  have "\<exists>i<2. differ (ext_bits (False \<and> False) 2 (bits (Const_bits [Sx, S1])) ! i)
    (ext_bits (False \<and> False) 2 (bits (Const_bits [S0])) ! i)"
    by (rule exI [of _ "1::nat"]) (simp add: ext_bits_def differ_def)
  then have d: "True = (\<exists>i<2. differ (ext_bits (False \<and> False) 2 (bits (Const_bits [Sx, S1])) ! i)
    (ext_bits (False \<and> False) 2 (bits (Const_bits [S0])) ! i))"
    by (simp only:)
  show ?thesis
    using const_compare_undefined [OF _ _ _ d, of 1] by simp
qed

section \<open>Shifts\<close>

lemma shift_worker_eq:
  assumes "fully_def (bits b)" "0 \<le> n" "bits a \<noteq> [] \<or> \<not> sign_ext"
  shows "const_shift_worker a b sign_ext s2 dir n vac = Inr (Const_bits (map (\<lambda>i.
     let pos = int i + cval s2 (bits b) * dir in
     if pos < 0 then vac
     else if pos \<ge> int (length (bits a)) then (if sign_ext then last (bits a) else vac)
     else bits a ! nat pos) [0..<nat n]))"
  using assms by (auto simp: const_shift_worker_def const2big_fully_def Const_state_def not_len_def
      guardE_def Const_bits_def Let_def)

lemma shift_worker_undef:
  assumes "\<not> fully_def (bits b)" "0 \<le> n"
  shows "const_shift_worker a b sign_ext s2 dir n vac = Inr (Const_bits (replicate (nat n) Sx))"
proof -
  obtain v u where 1: "const2big b s2 (-1) = (v, u)" by (cases "const2big b s2 (-1)")
  have "u \<ge> 0"
    using const2big_undef [of b s2 "-1"] assms(1) 1 by auto
  then show ?thesis
    using assms 1 by (simp add: const_shift_worker_def Const_state_def not_len_def Const_bits_def)
qed

lemma bit_sval: "bit (sval bs) i \<longleftrightarrow> (if i < length bs then bs ! i = S1 else bs \<noteq> [] \<and> last bs = S1)"
proof (cases "bs \<noteq> [] \<and> last bs = S1")
  case True
  have "NOT (sval bs) = ubl (map Not (map (\<lambda>s. s = S1) bs))"
    unfolding ubl_map_Not using True by (simp add: sval_eq uval_def not_int_def)
  then have "bit (NOT (sval bs)) i \<longleftrightarrow> i < length bs \<and> bs ! i \<noteq> S1"
    by (auto simp: bit_ubl)
  then show ?thesis using True by (auto simp: bit_not_int_iff)
next
  case False
  then have "sval bs = uval bs" by (simp add: sval_eq)
  then show ?thesis using False by (auto simp: bit_uval)
qed

lemma bit_cval: "bit (cval sg bs) i \<longleftrightarrow>
    (if i < length bs then bs ! i = S1 else sg \<and> bs \<noteq> [] \<and> last bs = S1)"
  by (simp add: cval_def bit_sval bit_uval)

text \<open>The shift by a signed amount: left for a negative one.\<close>

definition shift_int :: "int \<Rightarrow> int \<Rightarrow> int" where
  "shift_int v k = (if 0 \<le> k then drop_bit (nat k) v else push_bit (nat (- k)) v)"

lemma bit_shift_int: "bit (shift_int v k) i \<longleftrightarrow> 0 \<le> int i + k \<and> bit v (nat (int i + k))"
proof (cases "0 \<le> k")
  case True
  then have "nat (int i + k) = nat k + i" by simp
  then show ?thesis using True by (simp add: shift_int_def bit_drop_bit_eq)
next
  case False
  then have "nat (int i + k) = i - nat (- k)" by simp
  moreover have "nat (- k) \<le> i \<longleftrightarrow> 0 \<le> int i + k" using False by auto
  ultimately show ?thesis using False by (simp add: shift_int_def bit_push_bit_iff)
qed

lemma shift_worker_value:
  assumes "fully_def (bits a)" "fully_def (bits b)" "0 \<le> n" "bits a \<noteq> [] \<or> \<not> sg"
  shows "const_shift_worker a b sg s2 dir n S0 =
    Inr (Const_bits (map st (bl_of_int (nat n) (shift_int (cval sg (bits a)) (cval s2 (bits b) * dir)))))"
proof -
  have "(let pos = int i + cval s2 (bits b) * dir in
     if pos < 0 then S0
     else if pos \<ge> int (length (bits a)) then (if sg then last (bits a) else S0)
     else bits a ! nat pos) = st (bit (shift_int (cval sg (bits a)) (cval s2 (bits b) * dir)) i)" for i
    unfolding bit_shift_int bit_cval Let_def
    using assms(1,4) by (auto simp: not_le st_of_defined fully_def_last fully_def_nth)
  then show ?thesis
    unfolding shift_worker_eq [OF assms(2,3,4)]
    by (simp add: list_eq_iff_nth_eq)
qed

lemma cval_ext_bits:
  "fully_def bs \<Longrightarrow> cval False (ext_bits sg w bs) = cval sg bs mod 2 ^ w"
  by (simp add: ext_bits_fully_def) (simp add: cval_def ubl_bl_of_int)

lemma fully_def_ext: "fully_def bs \<Longrightarrow> fully_def (ext_bits sg w bs)"
  by (simp add: ext_bits_fully_def)

text \<open>A result of \<open>n\<close> bits with the value \<open>v\<close>, or undefined when the shift amount \<open>b\<close> is.\<close>

definition shift_result :: "const_t \<Rightarrow> int \<Rightarrow> int \<Rightarrow> const_t res" where
  "shift_result b n v = Inr (Const_bits (if fully_def (bits b) then map st (bl_of_int (nat n) v)
     else replicate (nat n) Sx))"

lemma shift_worker_result:
  assumes "fully_def (bits a)" "0 \<le> n" "bits a \<noteq> [] \<or> \<not> sg"
  shows "const_shift_worker a b sg s2 dir n S0 =
    shift_result b n (shift_int (cval sg (bits a)) (cval s2 (bits b) * dir))"
  using assms by (simp add: shift_result_def shift_worker_value shift_worker_undef)

lemma shift_int_left: "shift_int v (- uval bs) = v * 2 ^ nat (uval bs)"
  by (auto simp: shift_int_def push_bit_eq_mult drop_bit_eq_div)

lemma shift_int_right: "shift_int v (uval bs) = v div 2 ^ nat (uval bs)"
  by (simp add: shift_int_def drop_bit_eq_div)

lemma const_shift_value:
  assumes a: "fully_def (bits a)" "bits a \<noteq> []" and n: "0 \<le> n"
    and x: "x = cval s1 (bits a)" and z: "z = x mod 2 ^ max (nat n) (length (bits a))"
  shows "const_shl a b s1 s2 n = shift_result b n (x * 2 ^ nat (uval (bits b))) \<and>
    const_sshl a b s1 s2 n = shift_result b n (x * 2 ^ nat (uval (bits b))) \<and>
    const_sshr a b s1 s2 n = shift_result b n (x div 2 ^ nat (uval (bits b))) \<and>
    const_shr a b s1 s2 n = shift_result b n (z div 2 ^ nat (uval (bits b))) \<and>
    const_shift a b s1 s2 n = shift_result b n (shift_int z (cval s2 (bits b)))"
proof -
  have w: "0 \<le> max n (int (length (bits a)))"
    "nat (max n (int (length (bits a)))) = max (nat n) (length (bits a))" using n by auto
  have u: "cval False bs = uval bs" for bs by (simp add: cval_def)
  have "const_shl a b s1 s2 n = shift_result b n (x mod 2 ^ nat n * 2 ^ nat (uval (bits b)))"
    using n fully_def_ext [OF a(1)]
    by (simp add: const_shl_def extend_u0_eq shift_worker_result cval_ext_bits [OF a(1)] u [of "bits b"]
        shift_int_left x)
  moreover have "bl_of_int (nat n) (x mod 2 ^ nat n * 2 ^ nat (uval (bits b))) =
      bl_of_int (nat n) (x * 2 ^ nat (uval (bits b)))"
    by (rule bl_of_int_cong) (simp add: mod_mult_left_eq)
  ultimately have "const_shl a b s1 s2 n = shift_result b n (x * 2 ^ nat (uval (bits b)))"
    by (simp add: shift_result_def)
  moreover have "const_sshl a b s1 s2 n = shift_result b n (x * 2 ^ nat (uval (bits b)))"
    using n a by (simp add: const_sshl_def shift_worker_result u [of "bits b"] shift_int_left x)
  moreover have "const_sshr a b s1 s2 n = shift_result b n (x div 2 ^ nat (uval (bits b)))"
    using n a by (simp add: const_sshr_def shift_worker_result u [of "bits b"] shift_int_right x)
  moreover have "const_shr a b s1 s2 n = shift_result b n (z div 2 ^ nat (uval (bits b)))"
    using n fully_def_ext [OF a(1)]
    by (simp add: const_shr_def extend_u0_eq w shift_worker_result cval_ext_bits [OF a(1)]
        u [of "bits b"] shift_int_right x z)
  moreover have "const_shift a b s1 s2 n = shift_result b n (shift_int z (cval s2 (bits b)))"
    using n fully_def_ext [OF a(1)]
    by (simp add: const_shift_def extend_u0_eq w shift_worker_result cval_ext_bits [OF a(1)] x z)
  ultimately show ?thesis by blast
qed

text \<open>C37: on a fully defined operand the shifts are arithmetic on the operand value: \<open>shl\<close> and
  \<open>sshl\<close> multiply by a power of two, \<open>sshr\<close> is the arithmetic right shift, \<open>shr\<close> the logical right
  shift of the operand extended to the result width, \<open>shift\<close> the same with a signed amount; an
  undefined shift amount makes the whole result undefined.\<close>

theorem const_shift_correct:
  assumes a: "fully_def (bits a)" "bits a \<noteq> []" and n: "0 \<le> n"
    and x: "x = cval s1 (bits a)" and z: "z = x mod 2 ^ max (nat n) (length (bits a))"
  shows "const_shl a b s1 s2 n = shift_result b n (x * 2 ^ nat (uval (bits b))) \<and>
    const_sshl a b s1 s2 n = shift_result b n (x * 2 ^ nat (uval (bits b))) \<and>
    const_sshr a b s1 s2 n = shift_result b n (x div 2 ^ nat (uval (bits b))) \<and>
    const_shr a b s1 s2 n = shift_result b n (z div 2 ^ nat (uval (bits b))) \<and>
    const_shift a b s1 s2 n = shift_result b n (shift_int z (cval s2 (bits b)))"
  by (rule const_shift_value [OF assms])

theorem const_shift_correct_witness:
  "const_sshr (Const_bits [S0, S1]) (Const_bits [S1]) True False 2 = Inr (Const_bits [S1, S1])"
proof -
  have x: "-2 = cval True (bits (Const_bits [S0, S1]))"
    by (simp add: cval_def sval_def sbl_def)
  have "map st (bl_of_int (nat 2) (- 2 div 2 ^ nat (uval [S1]))) = [S1, S1]" by code_simp
  then show ?thesis
    using const_shift_correct [OF _ _ _ x refl, of 2 "Const_bits [S1]" False]
    by (simp add: shift_result_def)
qed

section \<open>Reductions, logical operations and multiplexers\<close>

text \<open>The truth value of a bit vector: some bit is 1, all bits are 0, or neither is known.\<close>

definition truth :: "state list \<Rightarrow> state" where
  "truth bs = (if S1 \<in> set bs then S1 else if fully_def bs then S0 else Sx)"

lemma logic_simps:
  "logic_and S0 b = S0" "logic_and a S0 = S0" "logic_and S1 S1 = S1"
  "logic_or S1 b = S1" "logic_or a S1 = S1" "logic_or S0 S0 = S0"
  "\<not> defined a \<Longrightarrow> b \<noteq> S0 \<Longrightarrow> logic_and a b = Sx" "\<not> defined b \<Longrightarrow> a \<noteq> S0 \<Longrightarrow> logic_and a b = Sx"
  "\<not> defined a \<Longrightarrow> b \<noteq> S1 \<Longrightarrow> logic_or a b = Sx" "\<not> defined b \<Longrightarrow> a \<noteq> S1 \<Longrightarrow> logic_or a b = Sx"
  by (auto simp: logic_and_def logic_or_def defined_def)

lemma foldl_logic_or:
  "foldl logic_or s bs = (if s = S1 \<or> S1 \<in> set bs then S1 else if s = S0 \<and> fully_def bs then S0
     else if bs = [] then s else Sx)"
  by (induction bs arbitrary: s) (auto simp: logic_or_def defined_def)

lemma foldl_logic_and:
  "foldl logic_and s bs = (if s = S0 \<or> S0 \<in> set bs then S0 else if s = S1 \<and> fully_def bs then S1
     else if bs = [] then s else Sx)"
  by (induction bs arbitrary: s) (auto simp: logic_and_def defined_def)

lemma foldl_logic_xor:
  "foldl logic_xor s bs = (if bs = [] then s else if defined s \<and> fully_def bs
     then st ((s = S1) \<noteq> odd (count_list bs S1)) else Sx)"
  by (induction bs arbitrary: s) (auto simp: logic_xor_def defined_def st_def)

lemma odd_count_list: "odd (count_list xs y) \<Longrightarrow> y \<in> set xs"
  by (metis count_notin even_zero)

text \<open>The reduction operators in three-valued logic: one controlling bit decides \<open>and\<close> and \<open>or\<close>
  whatever the others are, the parity needs every bit.\<close>

theorem const_reduce_correct:
  "const_reduce_and a b s1 s2 n = Inr (pad_S0 (Const_bit
     (if S0 \<in> set (bits a) then S0 else if fully_def (bits a) then S1 else Sx)) n) \<and>
   const_reduce_or a b s1 s2 n = Inr (pad_S0 (Const_bit (truth (bits a))) n) \<and>
   const_reduce_bool a b s1 s2 n = Inr (pad_S0 (Const_bit (truth (bits a))) n) \<and>
   const_reduce_xor a b s1 s2 n = Inr (pad_S0 (Const_bit
     (if fully_def (bits a) then st (odd (count_list (bits a) S1)) else Sx)) n) \<and>
   const_reduce_xnor a b s1 s2 n = Inr (pad_S0 (Const_bit
     (if fully_def (bits a) then st (even (count_list (bits a) S1)) else Sx)) n)"
  by (auto simp: const_reduce_and_def const_reduce_or_def const_reduce_bool_def const_reduce_xor_def
      const_reduce_xnor_def logic_reduce_wrapper_def foldl_logic_or foldl_logic_and foldl_logic_xor
      truth_def flip_front_def pad_S0_def Const_bit_def st_def dest: odd_count_list)

lemma const2big_zero: "fst (const2big c sg u) = 0 \<longleftrightarrow> S1 \<notin> set (bits c)"
proof (cases sg c rule: const2big_cases)
  case (neg bs)
  have "fst (const2big_loop 0 S0 bs 0 u) = ubl (map (\<lambda>b. b = S0) bs)"
    by (subst const2big_loop_mag) auto
  then have "0 \<le> fst (const2big_loop 0 S0 bs 0 u)" by simp
  then show ?thesis
    by (subst const2big_neg [OF neg]) (simp add: neg)
next
  case pos
  have "fst (const2big_loop 0 S1 (bits c) 0 u) = ubl (map (\<lambda>b. b = S1) (bits c))"
    by (subst const2big_loop_mag) auto
  then show ?thesis
    by (auto simp: const2big_pos [OF pos] ubl_eq_0_iff)
qed

lemma const2big_truth:
  assumes "const2big c sg (-1) = (v, u)"
  shows "(if v = 0 then if u \<ge> 0 then Sx else S0 else S1) = truth (bits c)"
    and "(if v = 0 then if u \<ge> 0 then Sx else S1 else S0) =
      (if S1 \<in> set (bits c) then S0 else if fully_def (bits c) then S1 else Sx)"
  using const2big_zero [of c sg "-1"] const2big_undef [of c sg "-1"] assms
  by (auto simp: truth_def)

text \<open>The logical operators act on the truth values of their operands, which do not depend on
  the signedness flags.\<close>

theorem const_logic_correct:
  "const_logic_not a b s1 s2 n = Inr (pad_S0 (Const_bit
     (if S1 \<in> set (bits a) then S0 else if fully_def (bits a) then S1 else Sx)) n) \<and>
   const_logic_and a b s1 s2 n =
     Inr (pad_S0 (Const_bit (logic_and (truth (bits a)) (truth (bits b)))) n) \<and>
   const_logic_or a b s1 s2 n =
     Inr (pad_S0 (Const_bit (logic_or (truth (bits a)) (truth (bits b)))) n)"
proof -
  obtain v u where a: "const2big a s1 (-1) = (v, u)" by (cases "const2big a s1 (-1)")
  obtain v' u' where b: "const2big b s2 (-1) = (v', u')" by (cases "const2big b s2 (-1)")
  show ?thesis
    by (simp only: const_logic_not_def const_logic_and_def const_logic_or_def a b Let_def prod.case
        const2big_truth [OF a] const2big_truth [OF b])
qed

lemma bmux_step_length [simp]: "length (bmux_step t s) = (if s = S1 then length t - length t div 2 else length t div 2)"
  by (simp add: bmux_step_def Let_def)

lemma bmux_fold_value:
  assumes "fully_def ss" "length t = w * 2 ^ length ss"
  shows "foldl bmux_step t (rev ss) = take w (drop (nat (uval ss) * w) t)"
  using assms
proof (induction ss arbitrary: t rule: rev_induct)
  case (snoc s ss)
  have h: "length t div 2 = w * 2 ^ length ss" using snoc.prems by simp
  have d: "fully_def ss" "defined s" using snoc.prems by simp_all
  have u: "nat (uval (ss @ [s])) = nat (uval ss) + (if s = S1 then 2 ^ length ss else 0)"
    by (simp add: uval_def ubl_append nat_add_distrib nat_power_eq)
  have "nat (uval ss) < 2 ^ length ss"
    using uval_less [of ss] by (simp add: nat_less_iff)
  then have "Suc (nat (uval ss)) * w \<le> 2 ^ length ss * w" by (intro mult_le_mono1) (rule Suc_leI)
  then have l: "nat (uval ss) * w + w \<le> w * 2 ^ length ss" by (simp add: algebra_simps)
  show ?case
  proof (cases "s = S1")
    case True
    have "foldl bmux_step t (rev (ss @ [s])) = foldl bmux_step (drop (length t div 2) t) (rev ss)"
      using True by (simp add: bmux_step_def Let_def)
    also have "\<dots> = take w (drop (nat (uval ss) * w) (drop (length t div 2) t))"
      using snoc.prems h by (intro snoc.IH d) simp
    finally show ?thesis
      using u True by (simp add: h algebra_simps)
  next
    case False
    then have "s = S0" using d by (simp add: defined_def)
    then have "foldl bmux_step t (rev (ss @ [s])) = foldl bmux_step (take (length t div 2) t) (rev ss)"
      by (simp add: bmux_step_def Let_def)
    also have "\<dots> = take w (drop (nat (uval ss) * w) (take (length t div 2) t))"
      using snoc.prems h by (intro snoc.IH d) simp
    finally show ?thesis
      using False l by (simp add: u h drop_take min_def)
  qed
qed (simp add: uval_def)

lemma demux_flags_value:
  assumes "fully_def ss"
  shows "demux_flags i j ss ne x = (ne \<or> (\<exists>k<length ss. bit i (j + k) \<noteq> (ss ! k = S1)), x)"
  using assms
proof (induction ss arbitrary: j ne)
  case (Cons s ss)
  have "(\<exists>k<length (s # ss). bit i (j + k) \<noteq> ((s # ss) ! k = S1)) \<longleftrightarrow>
    bit i j \<noteq> (s = S1) \<or> (\<exists>k<length ss. bit i (Suc j + k) \<noteq> (ss ! k = S1))"
    by (simp add: Ex_less_Suc2)
  then show ?case
    using Cons by (auto simp: Let_def defined_def)
qed simp

lemma demux_word_value:
  assumes "fully_def ss" "i < 2 ^ length ss"
  shows "demux_word as ss i = (if int i = uval ss then as else replicate (length as) S0)"
proof -
  have "int i = uval ss \<longleftrightarrow> (\<forall>k<length ss. bit i k = (ss ! k = S1))"
  proof
    assume e: "\<forall>k<length ss. bit i k = (ss ! k = S1)"
    show "int i = uval ss"
    proof (rule bit_eqI)
      fix k
      have "\<not> bit i k" if "length ss \<le> k"
        using assms(2) that by (metis bit_take_bit_iff not_less take_bit_nat_eq_self)
      then show "bit (int i) k = bit (uval ss) k"
        using e by (cases "k < length ss") (auto simp: bit_uval bit_of_nat_iff)
    qed
  next
    assume "int i = uval ss"
    then have "bit (int i) k = bit (uval ss) k" for k by simp
    then show "\<forall>k<length ss. bit i k = (ss ! k = S1)"
      by (simp add: bit_uval bit_of_nat_iff)
  qed
  then show ?thesis
    by (auto simp: demux_word_def demux_flags_value [OF assms(1)] map_replicate_const)
qed

lemma nth_concat_uniform:
  assumes "\<And>x. x \<in> set xss \<Longrightarrow> length x = w" "i < length xss"
  shows "take w (drop (i * w) (concat xss)) = xss ! i"
  using assms
proof (induction xss arbitrary: i)
  case (Cons x xss)
  then show ?case by (cases i) auto
qed simp

lemma length_demux_word: "length (demux_word as ss i) = length as"
  by (simp add: demux_word_def split_beta)

text \<open>C38: with a fully defined select, \<open>const_bmux\<close> returns the word the select addresses and
  \<open>const_demux\<close> places its argument at that word and zeros everywhere else; so a \<open>bmux\<close> undoes a
  \<open>demux\<close>.\<close>

theorem const_mux_correct:
  assumes s: "fully_def (bits s)" "length (bits s) \<le> 30"
    and t: "length (bits t) = length (bits a) * 2 ^ length (bits s)"
  shows "const_bmux t s = Const_bits (take (length (bits a)) (drop (nat (uval (bits s)) * length (bits a)) (bits t))) \<and>
    const_demux a s = Inr (Const_bits (concat (map
      (\<lambda>i. if int i = uval (bits s) then bits a else replicate (length (bits a)) S0)
      [0..<2 ^ length (bits s)]))) \<and>
    bindE (const_demux a s) (\<lambda>d. Inr (const_bmux d s)) = Inr (Const_bits (bits a))"
proof -
  let ?w = "length (bits a)"
  let ?f = "\<lambda>i. if int i = uval (bits s) then bits a else replicate ?w S0"
  have m: "map (demux_word (bits a) (bits s)) [0..<2 ^ length (bits s)] = map ?f [0..<2 ^ length (bits s)]"
    by (rule map_cong) (auto simp: demux_word_value [OF s(1)])
  have d: "const_demux a s = Inr (Const_bits (concat (map ?f [0..<2 ^ length (bits s)])))"
    using s(2) by (simp only: const_demux_def m guardE_True)
  have len: "length (concat (map ?f [0..<2 ^ length (bits s)])) = ?w * 2 ^ length (bits s)"
    by (subst m [symmetric]) (simp add: length_concat length_demux_word comp_def sum_list_triv)
  have "nat (uval (bits s)) < 2 ^ length (bits s)"
    using uval_less [of "bits s"] by (simp add: nat_less_iff)
  then have "take ?w (drop (nat (uval (bits s)) * ?w) (concat (map ?f [0..<2 ^ length (bits s)]))) = bits a"
    by (subst nth_concat_uniform) auto
  then have "const_bmux (Const_bits (concat (map ?f [0..<2 ^ length (bits s)]))) s = Const_bits (bits a)"
    by (simp only: const_bmux_def Const_bits_simps bmux_fold_value [OF s(1) len])
  moreover have "const_bmux t s =
      Const_bits (take ?w (drop (nat (uval (bits s)) * ?w) (bits t)))"
    by (simp only: const_bmux_def bmux_fold_value [OF s(1) t])
  ultimately show ?thesis
    unfolding d by (simp only: bindE_Inr)
qed

theorem const_mux_correct_witness:
  "const_bmux (Const_bits [S0, S1, S1, Sx]) (Const_bits [S1]) = Const_bits [S1, Sx]"
proof -
  have "nat (uval [S1]) = 1" by (simp add: uval_def)
  then show ?thesis
    using const_mux_correct [of "Const_bits [S1]" "Const_bits [S0, S1, S1, Sx]" "Const_bits [S0, S0]"]
    by simp
qed

end
