(* ===== verification/Hashlib.thy ===== *)
theory Hashlib
  imports Prelude
begin

text \<open>
  The chained hash tables of \<open>kernel/hashlib.h\<close>.  \<open>dict\<close> and \<open>pool\<close> share the same private
  functions up to the projection of an entry to its key, so those are written once over a
  projection \<open>key\<close> (\<open>fst\<close> for \<open>dict\<close>, the identity for \<open>pool\<close>) and the public operations of each
  class on top of them.  The user's \<open>hash\<close> is a parameter, \<open>cmp\<close> is equality.  \<open>capacity\<close> is the
  capacity of the vector \<open>entries\<close>, which the table size depends on; it doubles when an
  \<open>emplace_back\<close> finds the vector full, and copying allocates exactly the copied size.
  A walk along a chain is bounded by the number of entries; \<open>Diverges\<close> marks a longer one, which
  the table invariant excludes.
\<close>

section \<open>Hash functions\<close>

definition mkhash :: "32 word \<Rightarrow> 32 word \<Rightarrow> 32 word" where
  "mkhash a b = (push_bit 5 a + a) XOR b"

definition mkhash_init :: "32 word" where
  "mkhash_init = 5381"

definition mkhash_add :: "32 word \<Rightarrow> 32 word \<Rightarrow> 32 word" where
  "mkhash_add a b = (push_bit 5 a + a) + b"

definition mkhash_xorshift :: "32 word \<Rightarrow> 32 word" where
  "mkhash_xorshift a =
     (let a = a XOR push_bit 13 a; a = a XOR drop_bit 17 a in a XOR push_bit 5 a)"

definition hash_bool :: "bool \<Rightarrow> 32 word" where
  "hash_bool a = (if a then 1 else 0)"

definition hash_int32 :: "32 word \<Rightarrow> 32 word" where
  "hash_int32 a = a"

definition hash_int64 :: "64 word \<Rightarrow> 32 word" where
  "hash_int64 a = mkhash (ucast a) (ucast (signed_drop_bit 32 a))"

text \<open>A \<open>char\<close> is signed: it is sign-extended when it becomes an \<open>unsigned int\<close>.\<close>

definition hash_char :: "char \<Rightarrow> 32 word" where
  "hash_char c = scast (of_char c :: 8 word)"

definition hash_string :: "string \<Rightarrow> 32 word" where
  "hash_string a = foldl (\<lambda>v c. mkhash v (hash_char c)) 0 a"

definition hash_pair :: "('p \<Rightarrow> 32 word) \<Rightarrow> ('q \<Rightarrow> 32 word) \<Rightarrow> 'p \<times> 'q \<Rightarrow> 32 word" where
  "hash_pair hp hq a = mkhash (hp (fst a)) (hq (snd a))"

definition hash_vector :: "('t \<Rightarrow> 32 word) \<Rightarrow> 't list \<Rightarrow> 32 word" where
  "hash_vector ht a = foldl (\<lambda>h k. mkhash h (ht k)) mkhash_init a"

definition hash_cstr :: "string \<Rightarrow> 32 word" where
  "hash_cstr a = foldl (\<lambda>h c. mkhash h (hash_char c)) mkhash_init (takeWhile (\<lambda>c. c \<noteq> CHR 0x00) a)"

section \<open>The table\<close>

record 'u entry_t =
  udata :: 'u
  nxt :: int

record 'u table =
  hashtable :: "int list"
  entries :: "'u entry_t list"
  capacity :: nat

definition zero_and_some_primes :: "int list" where
  "zero_and_some_primes = [
     0, 23, 29, 37, 47, 59, 79, 101, 127, 163, 211, 269, 337, 431, 541, 677,
     853, 1069, 1361, 1709, 2137, 2677, 3347, 4201, 5261, 6577, 8231, 10289,
     12889, 16127, 20161, 25219, 31531, 39419, 49277, 61603, 77017, 96281,
     120371, 150473, 188107, 235159, 293957, 367453, 459317, 574157, 717697,
     897133, 1121423, 1401791, 1752239, 2190299, 2737937, 3422429, 4278037,
     5347553, 6684443, 8355563, 10444457, 13055587, 16319519, 20399411,
     25499291, 31874149, 39842687, 49803361, 62254207, 77817767, 97272239,
     121590311, 151987889, 189984863, 237481091, 296851369, 371064217]"

definition hashtable_size :: "int \<Rightarrow> int res" where
  "hashtable_size min_size =
     (case find (\<lambda>p. p \<ge> min_size) zero_and_some_primes of
        Some p \<Rightarrow> Inr p | None \<Rightarrow> Inl Length_error)"

definition do_hash :: "('k \<Rightarrow> 32 word) \<Rightarrow> 'u table \<Rightarrow> 'k \<Rightarrow> nat" where
  "do_hash hash t k =
     (if hashtable t \<noteq> [] then unat (hash k mod word_of_nat (length (hashtable t))) else 0)"

text \<open>\<open>entries.capacity() * hashtable_size_factor\<close> is a \<open>size_t\<close>, narrowed to \<open>int\<close> by the call.\<close>

definition rehash_size :: "nat \<Rightarrow> int" where
  "rehash_size cap = sint (word_of_nat (cap * 3) :: 32 word)"

definition rehash_step :: "('k \<Rightarrow> 32 word) \<Rightarrow> ('u \<Rightarrow> 'k) \<Rightarrow> 'u table \<Rightarrow> nat \<Rightarrow> 'u table res" where
  "rehash_step hash key t i =
     (let e = entries t ! i; h = do_hash hash t (key (udata e))
      in guardE (-1 \<le> nxt e \<and> nxt e < int (length (entries t))) Assert_failed
           (guardE (h < length (hashtable t)) Undefined_behaviour
             (Inr (t\<lparr>hashtable := (hashtable t)[h := int i],
                     entries := (entries t)[i := e\<lparr>nxt := hashtable t ! h\<rparr>]\<rparr>))))"

definition do_rehash :: "('k \<Rightarrow> 32 word) \<Rightarrow> ('u \<Rightarrow> 'k) \<Rightarrow> 'u table \<Rightarrow> 'u table res" where
  "do_rehash hash key t =
     bindE (hashtable_size (rehash_size (capacity t))) (\<lambda>n.
     foldE (rehash_step hash key) (t\<lparr>hashtable := replicate (nat n) (-1)\<rparr>) [0..<length (entries t)])"

fun walk :: "'u entry_t list \<Rightarrow> int \<Rightarrow> int \<Rightarrow> nat \<Rightarrow> int res" where
  "walk es target k 0 = Inl Diverges"
| "walk es target k (Suc fuel) =
     (if nxt (es ! nat k) = target then Inr k
      else let k' = nxt (es ! nat k)
           in guardE (0 \<le> k' \<and> k' < int (length es)) Assert_failed (walk es target k' fuel))"

text \<open>Make the link that points to \<open>target\<close> in the chain of slot \<open>h\<close> point to \<open>to\<close>.  \<open>dict\<close> asserts
  that the head of the chain is an index, \<open>pool\<close> does not: \<open>bad\<close> is what a bad head gives.\<close>

definition relink :: "error \<Rightarrow> nat \<Rightarrow> int \<Rightarrow> int \<Rightarrow> 'u table \<Rightarrow> 'u table res" where
  "relink bad h target to t =
     guardE (h < length (hashtable t)) Undefined_behaviour (
     let k = hashtable t ! h
     in guardE (0 \<le> k \<and> k < int (length (entries t))) bad (
        if k = target then Inr (t\<lparr>hashtable := (hashtable t)[h := to]\<rparr>)
        else bindE (walk (entries t) target k (length (entries t))) (\<lambda>k.
          Inr (t\<lparr>entries := (entries t)[nat k := (entries t ! nat k)\<lparr>nxt := to\<rparr>]\<rparr>))))"

definition do_erase ::
  "error \<Rightarrow> ('k \<Rightarrow> 32 word) \<Rightarrow> ('u \<Rightarrow> 'k) \<Rightarrow> 'u table \<Rightarrow> int \<Rightarrow> nat \<Rightarrow> (int \<times> 'u table) res" where
  "do_erase bad hash key t index h =
     guardE (index < int (length (entries t))) Assert_failed (
     if hashtable t = [] \<or> index < 0 then Inr (0, t)
     else
       bindE (relink bad h index (nxt (entries t ! nat index)) t) (\<lambda>t.
       let back_idx = int (length (entries t)) - 1
       in bindE
            (if index \<noteq> back_idx then
               bindE (relink bad (do_hash hash t (key (udata (entries t ! nat back_idx)))) back_idx index t)
                 (\<lambda>t. Inr (t\<lparr>entries := (entries t)[nat index := entries t ! nat back_idx]\<rparr>))
             else Inr t) (\<lambda>t.
          let t = t\<lparr>entries := butlast (entries t)\<rparr>
          in Inr (1, if entries t = [] then t\<lparr>hashtable := []\<rparr> else t))))"

fun lookup_loop :: "('u \<Rightarrow> 'k) \<Rightarrow> 'k \<Rightarrow> 'u entry_t list \<Rightarrow> int \<Rightarrow> nat \<Rightarrow> int res" where
  "lookup_loop key k es index 0 = Inl Diverges"
| "lookup_loop key k es index (Suc fuel) =
     (if index \<ge> 0 \<and> key (udata (es ! nat index)) \<noteq> k then
        let index' = nxt (es ! nat index)
        in guardE (-1 \<le> index' \<and> index' < int (length es)) Assert_failed
             (lookup_loop key k es index' fuel)
      else Inr index)"

text \<open>Returns the index and the slot together with the table, which a lookup may rehash.\<close>

definition do_lookup ::
  "('k \<Rightarrow> 32 word) \<Rightarrow> ('u \<Rightarrow> 'k) \<Rightarrow> 'u table \<Rightarrow> 'k \<Rightarrow> nat \<Rightarrow> ((int \<times> nat) \<times> 'u table) res" where
  "do_lookup hash key t k h =
     (if hashtable t = [] then Inr ((-1, h), t)
      else
        bindE (if length (entries t) * 2 > length (hashtable t)
               then bindE (do_rehash hash key t) (\<lambda>t. Inr (do_hash hash t k, t))
               else Inr (h, t)) (\<lambda>(h, t).
        guardE (h < length (hashtable t)) Undefined_behaviour (
        bindE (lookup_loop key k (entries t) (hashtable t ! h) (Suc (length (entries t)))) (\<lambda>index.
        Inr ((index, h), t)))))"

definition emplace_back :: "'u \<Rightarrow> int \<Rightarrow> 'u table \<Rightarrow> 'u table" where
  "emplace_back u n t =
     t\<lparr>entries := entries t @ [\<lparr>udata = u, nxt = n\<rparr>],
       capacity := (if length (entries t) < capacity t then capacity t
                    else max 1 (2 * length (entries t)))\<rparr>"

definition do_insert ::
  "('k \<Rightarrow> 32 word) \<Rightarrow> ('u \<Rightarrow> 'k) \<Rightarrow> 'u table \<Rightarrow> 'u \<Rightarrow> nat \<Rightarrow> (int \<times> 'u table) res" where
  "do_insert hash key t u h =
     (if hashtable t = [] then
        bindE (do_rehash hash key (emplace_back u (-1) t)) (\<lambda>t.
        Inr (int (length (entries t)) - 1, t))
      else
        guardE (h < length (hashtable t)) Undefined_behaviour (
        let t = emplace_back u (hashtable t ! h) t;
            t = t\<lparr>hashtable := (hashtable t)[h := int (length (entries t)) - 1]\<rparr>
        in Inr (int (length (entries t)) - 1, t)))"

text \<open>The sequence \<open>hash = do_hash(key); i = do_lookup(key, hash)\<close> that opens every public operation.\<close>

definition lookup ::
  "('k \<Rightarrow> 32 word) \<Rightarrow> ('u \<Rightarrow> 'k) \<Rightarrow> 'u table \<Rightarrow> 'k \<Rightarrow> ((int \<times> nat) \<times> 'u table) res" where
  "lookup hash key t k = do_lookup hash key t k (do_hash hash t k)"

definition insert_new ::
  "('k \<Rightarrow> 32 word) \<Rightarrow> ('u \<Rightarrow> 'k) \<Rightarrow> 'u table \<Rightarrow> 'u \<Rightarrow> ((int \<times> bool) \<times> 'u table) res" where
  "insert_new hash key t u =
     bindE (lookup hash key t (key u)) (\<lambda>((i, h), t).
     if i \<ge> 0 then Inr ((i, False), t)
     else bindE (do_insert hash key t u h) (\<lambda>(i, t). Inr ((i, True), t)))"

definition table_empty :: "'u table" where
  "table_empty = \<lparr>hashtable = [], entries = [], capacity = 0\<rparr>"

definition table_reserve :: "'u table \<Rightarrow> nat \<Rightarrow> 'u table" where
  "table_reserve t n = t\<lparr>capacity := max (capacity t) n\<rparr>"

definition table_clear :: "'u table \<Rightarrow> 'u table" where
  "table_clear t = t\<lparr>hashtable := [], entries := []\<rparr>"

text \<open>\<open>*this = other\<close>: the vector is reallocated only if its capacity is too small.\<close>

definition table_assign :: "('k \<Rightarrow> 32 word) \<Rightarrow> ('u \<Rightarrow> 'k) \<Rightarrow> 'u table \<Rightarrow> 'u table \<Rightarrow> 'u table res" where
  "table_assign hash key this other =
     do_rehash hash key (this\<lparr>entries := entries other,
       capacity := max (capacity this) (length (entries other))\<rparr>)"

section \<open>Chains\<close>

text \<open>\<open>lseg es s xs e\<close>: following the links from \<open>s\<close> visits exactly the entries \<open>xs\<close> and ends at \<open>e\<close>.\<close>

fun lseg :: "'u entry_t list \<Rightarrow> int \<Rightarrow> nat list \<Rightarrow> int \<Rightarrow> bool" where
  "lseg es s [] e \<longleftrightarrow> s = e"
| "lseg es s (j # js) e \<longleftrightarrow> s = int j \<and> j < length es \<and> lseg es (nxt (es ! j)) js e"

lemma lseg_append: "lseg es s (xs @ ys) e \<longleftrightarrow> (\<exists>m. lseg es s xs m \<and> lseg es m ys e)"
  by (induction xs arbitrary: s) auto

lemma lseg_bound: "lseg es s xs e \<Longrightarrow> j \<in> set xs \<Longrightarrow> j < length es"
  by (induction xs arbitrary: s) auto

lemma lseg_frame: "j \<notin> set xs \<Longrightarrow> lseg (es[j := x]) s xs e \<longleftrightarrow> lseg es s xs e"
  by (induction xs arbitrary: s) auto

lemma lseg_snoc: "lseg es s xs e \<Longrightarrow> lseg (es @ [x]) s xs e"
  by (induction xs arbitrary: s) (auto simp: nth_append)

lemma lseg_butlast: "lseg es s xs e \<Longrightarrow> length es - 1 \<notin> set xs \<Longrightarrow> lseg (butlast es) s xs e"
  by (induction xs arbitrary: s) (auto simp: nth_butlast)

lemma lseg_next_range:
  "lseg es s xs (-1) \<Longrightarrow> j \<in> set xs \<Longrightarrow> -1 \<le> nxt (es ! j) \<and> nxt (es ! j) < int (length es)"
proof (induction xs arbitrary: s)
  case (Cons i xs)
  then show ?case by (cases xs) auto
qed simp

lemma distinct_bounded_length:
  assumes "distinct xs" "\<And>j. j \<in> set xs \<Longrightarrow> j < n" shows "length xs \<le> n"
proof -
  have "card (set xs) \<le> card {..<n}" by (rule card_mono) (use assms in auto)
  then show ?thesis using assms(1) by (simp add: distinct_card)
qed

lemma lookup_loop_lseg:
  assumes "lseg es s c (-1)" "length c < fuel"
  shows "lookup_loop key k es s fuel =
    Inr (case find (\<lambda>j. key (udata (es ! j)) = k) c of None \<Rightarrow> -1 | Some j \<Rightarrow> int j)"
  using assms
proof (induction c arbitrary: s fuel)
  case Nil
  then show ?case by (cases fuel) auto
next
  case (Cons j c)
  obtain f where f: "fuel = Suc f" using Cons.prems(2) by (cases fuel) auto
  have r: "-1 \<le> nxt (es ! j) \<and> nxt (es ! j) < int (length es)"
    using lseg_next_range [OF Cons.prems(1)] by simp
  show ?case
    using Cons.prems r by (auto simp: f Cons.IH)
qed

lemma walk_lseg:
  assumes "lseg es s (xs @ [l]) (int v)" "v \<notin> set (xs @ [l])" "length xs < fuel"
  shows "walk es (int v) s fuel = Inr (int l)"
  using assms
proof (induction xs arbitrary: s fuel)
  case Nil
  then show ?case by (cases fuel) auto
next
  case (Cons j xs)
  obtain f where f: "fuel = Suc f" using Cons.prems(3) by (cases fuel) auto
  have j: "s = int j" "j < length es" "lseg es (nxt (es ! j)) (xs @ [l]) (int v)"
    using Cons.prems(1) by auto
  obtain i where i: "nxt (es ! j) = int i" "i \<in> set (xs @ [l])" "i < length es"
    using j(3) by (cases xs) auto
  have "i \<noteq> v" using i(2) Cons.prems(2) by auto
  then show ?case
    using j i(1,3) Cons.prems(2,3) Cons.IH [of "int i" f] by (auto simp: f)
qed

section \<open>Relinking\<close>

text \<open>A chain ends at -1, visits no entry twice.\<close>

lemma relink_head:
  assumes "h < length (hashtable t)" "hashtable t ! h = int v" "v < length (entries t)"
  shows "relink bad h (int v) to t = Inr (t\<lparr>hashtable := (hashtable t)[h := to]\<rparr>)"
  using assms by (simp add: relink_def)

lemma relink_inner:
  assumes "h < length (hashtable t)" "lseg (entries t) (hashtable t ! h) (xs @ [l]) (int v)"
    and "v \<notin> set (xs @ [l])" "distinct (xs @ [l])"
  shows "relink bad h (int v) to t =
    Inr (t\<lparr>entries := (entries t)[l := (entries t ! l)\<lparr>nxt := to\<rparr>]\<rparr>)"
proof -
  obtain i where i: "hashtable t ! h = int i" "i \<in> set (xs @ [l])" "i < length (entries t)"
    using assms(2) by (cases xs) auto
  have "length (xs @ [l]) \<le> length (entries t)"
    using assms(4) by (rule distinct_bounded_length) (use assms(2) lseg_bound in metis)
  then have "walk (entries t) (int v) (hashtable t ! h) (length (entries t)) = Inr (int l)"
    using assms(2,3) by (intro walk_lseg) auto
  moreover have "i \<noteq> v" using i(2) assms(3) by auto
  ultimately show ?thesis using i assms(1) by (simp add: relink_def)
qed

text \<open>Relinking changes one chain: its part before the target ends at the new link, and every
  list of entries that avoids this part keeps its links.\<close>

lemma relink_lseg:
  assumes "h < length (hashtable t)" "lseg (entries t) (hashtable t ! h) xs (int v)"
    and "v \<notin> set xs" "distinct xs" "v < length (entries t)"
  obtains t' where "relink bad h (int v) to t = Inr t'"
    "lseg (entries t') (hashtable t' ! h) xs to"
    "length (hashtable t') = length (hashtable t)" "length (entries t') = length (entries t)"
    "\<And>h'. h' \<noteq> h \<Longrightarrow> hashtable t' ! h' = hashtable t ! h'"
    "\<And>j. j \<notin> set xs \<Longrightarrow> entries t' ! j = entries t ! j"
    "\<And>ys s e. set xs \<inter> set ys = {} \<Longrightarrow> lseg (entries t') s ys e \<longleftrightarrow> lseg (entries t) s ys e"
    "map udata (entries t') = map udata (entries t)" "capacity t' = capacity t"
proof (cases xs rule: rev_cases)
  case Nil
  then have r: "relink bad h (int v) to t = Inr (t\<lparr>hashtable := (hashtable t)[h := to]\<rparr>)"
    using assms by (intro relink_head) auto
  show thesis
    by (rule that [OF r]) (use assms Nil in auto)
next
  case (snoc ys l)
  let ?e = "(entries t)[l := (entries t ! l)\<lparr>nxt := to\<rparr>]"
  have r: "relink bad h (int v) to t = Inr (t\<lparr>entries := ?e\<rparr>)"
    using assms snoc by (intro relink_inner) auto
  have l: "l < length (entries t)" using assms(2) snoc lseg_bound by fastforce
  obtain m where m: "lseg (entries t) (hashtable t ! h) ys m" "m = int l"
    using assms(2) snoc by (auto simp: lseg_append)
  have "lseg ?e (hashtable t ! h) ys m"
    using m(1) assms(4) snoc by (simp add: lseg_frame)
  then have s: "lseg ?e (hashtable t ! h) xs to"
    using m(2) l by (auto simp: snoc lseg_append)
  have u: "map udata ?e = map udata (entries t)"
    using l by (intro nth_equalityI) (auto simp: nth_list_update)
  show thesis
    by (rule that [OF r]) (use s u snoc in \<open>auto simp: lseg_frame\<close>)
qed

section \<open>The table invariant\<close>

definition bucket :: "('k \<Rightarrow> 32 word) \<Rightarrow> ('u \<Rightarrow> 'k) \<Rightarrow> 'u table \<Rightarrow> nat \<Rightarrow> nat set" where
  "bucket hash key t h =
     {i. i < length (entries t) \<and> do_hash hash t (key (udata (entries t ! i))) = h}"

definition chained :: "('k \<Rightarrow> 32 word) \<Rightarrow> ('u \<Rightarrow> 'k) \<Rightarrow> 'u table \<Rightarrow> bool" where
  "chained hash key t \<longleftrightarrow> (\<forall>h<length (hashtable t). \<exists>c.
     lseg (entries t) (hashtable t ! h) c (-1) \<and> distinct c \<and> set c = bucket hash key t h)"

text \<open>The largest table size; beyond it \<open>hashtable_size\<close> throws.\<close>

definition max_table :: nat where
  "max_table = 371064217"

definition elems :: "'u table \<Rightarrow> 'u list" where
  "elems t = map udata (entries t)"

definition table_inv :: "('k \<Rightarrow> 32 word) \<Rightarrow> ('u \<Rightarrow> 'k) \<Rightarrow> 'u table \<Rightarrow> bool" where
  "table_inv hash key t \<longleftrightarrow> (hashtable t = [] \<longrightarrow> entries t = []) \<and>
     length (hashtable t) \<le> max_table \<and> length (entries t) \<le> capacity t \<and>
     distinct (map key (elems t)) \<and> chained hash key t"

lemma length_elems [simp]: "length (elems t) = length (entries t)"
  by (simp add: elems_def)

lemma elems_nth: "i < length (entries t) \<Longrightarrow> elems t ! i = udata (entries t ! i)"
  by (simp add: elems_def)

lemma do_hash_less:
  assumes "hashtable t \<noteq> []" "length (hashtable t) \<le> max_table"
  shows "do_hash hash t k < length (hashtable t)"
proof -
  have u: "unat (word_of_nat (length (hashtable t)) :: 32 word) = length (hashtable t)"
    using assms(2) by (simp add: unat_of_nat max_table_def)
  then have "unat (hash k mod word_of_nat (length (hashtable t))) = unat (hash k) mod length (hashtable t)"
    by (simp add: unat_mod)
  then show ?thesis using assms(1) by (simp add: do_hash_def)
qed

lemma do_hash_cong: "length (hashtable t) = length (hashtable t') \<Longrightarrow> do_hash hash t k = do_hash hash t' k"
  by (cases "hashtable t = []") (auto simp: do_hash_def)

lemma hashtable_size_ok:
  assumes "m \<le> int max_table"
  obtains p where "hashtable_size m = Inr p" "m \<le> p" "0 \<le> p" "p \<le> int max_table"
proof (cases "find (\<lambda>p. p \<ge> m) zero_and_some_primes")
  case None
  have "371064217 \<in> set zero_and_some_primes" by (simp add: zero_and_some_primes_def)
  then have "\<not> (371064217 \<ge> m)" using None by (auto simp: find_None_iff)
  then show thesis using assms by (simp add: max_table_def)
next
  case (Some p)
  then have p: "p \<in> set zero_and_some_primes" "m \<le> p"
    by (auto simp: find_Some_iff)
  have "list_all (\<lambda>p. 0 \<le> p \<and> p \<le> 371064217) zero_and_some_primes"
    by (simp add: zero_and_some_primes_def)
  then have "0 \<le> p" "p \<le> 371064217" using p(1) by (auto simp: list_all_iff)
  then show thesis using that [of p] p(2) Some by (simp add: hashtable_size_def max_table_def)
qed

lemma rehash_size_eq: "cap * 3 \<le> max_table \<Longrightarrow> rehash_size cap = int (cap * 3)"
proof -
  assume a: "cap * 3 \<le> max_table"
  have "sint (word_of_nat (cap * 3) :: 32 word) = signed_take_bit 31 (int (cap * 3))"
    by (simp only: signed_of_nat) simp
  also have "\<dots> = int (cap * 3)"
    by (rule signed_take_bit_int_eq_self) (use a in \<open>simp_all add: max_table_def\<close>)
  finally show ?thesis by (simp only: rehash_size_def)
qed

lemma rehash_loop:
  assumes n: "n \<noteq> 0 \<or> es = []" "n \<le> max_table" and t0: "length (hashtable t0) = n" "entries t0 = es"
    and empty: "\<And>h. h < n \<Longrightarrow> hashtable t0 ! h = -1"
    and ranges: "\<And>e. e \<in> set es \<Longrightarrow> -1 \<le> nxt e \<and> nxt e < int (length es)"
    and slot: "\<And>j. slot j = do_hash hash t0 (key (udata (es ! j)))"
  shows "i \<le> length es \<Longrightarrow> \<exists>t. foldE (rehash_step hash key) t0 [0..<i] = Inr t \<and>
    length (hashtable t) = n \<and> map udata (entries t) = map udata es \<and> capacity t = capacity t0 \<and>
    (\<forall>j. i \<le> j \<longrightarrow> entries t ! j = es ! j) \<and>
    (\<forall>h<n. lseg (entries t) (hashtable t ! h) (rev (filter (\<lambda>j. slot j = h) [0..<i])) (-1))"
proof (induction i)
  case 0
  then show ?case using t0 empty by auto
next
  case (Suc i)
  then obtain t where t: "foldE (rehash_step hash key) t0 [0..<i] = Inr t"
    "length (hashtable t) = n" "map udata (entries t) = map udata es" "capacity t = capacity t0"
    "\<And>j. i \<le> j \<Longrightarrow> entries t ! j = es ! j"
    "\<And>h. h < n \<Longrightarrow> lseg (entries t) (hashtable t ! h) (rev (filter (\<lambda>j. slot j = h) [0..<i])) (-1)"
    by auto
  have i: "i < length es" using Suc.prems by simp
  have len: "length (entries t) = length es" using t(3) by (metis length_map)
  have e: "entries t ! i = es ! i" using t(5) by simp
  have s: "do_hash hash t (key (udata (es ! i))) = slot i"
    by (simp add: slot do_hash_cong [of t t0] t(2) t0)
  have sl: "slot i < n"
  proof -
    have "hashtable t0 \<noteq> []" using n i t0 by auto
    then show ?thesis using do_hash_less [of t0 hash] n(2) t0(1) by (simp add: slot)
  qed
  let ?t = "t\<lparr>hashtable := (hashtable t)[slot i := int i],
              entries := (entries t)[i := (es ! i)\<lparr>nxt := hashtable t ! slot i\<rparr>]\<rparr>"
  have step: "rehash_step hash key t i = Inr ?t"
    using ranges [OF nth_mem [OF i]] sl by (simp add: rehash_step_def e s len t(2) Let_def)
  have ud: "map udata (entries ?t) = map udata es"
    unfolding t(3) [symmetric]
    by (rule nth_equalityI) (use i len e in \<open>auto simp: nth_list_update\<close>)
  have ch: "lseg (entries ?t) (hashtable ?t ! h) (rev (filter (\<lambda>j. slot j = h) [0..<Suc i])) (-1)"
    if h: "h < n" for h
  proof -
    have "i \<notin> set (rev (filter (\<lambda>j. slot j = h) [0..<i]))" by simp
    then have "lseg (entries ?t) (hashtable t ! h) (rev (filter (\<lambda>j. slot j = h) [0..<i])) (-1)"
      using t(6) [OF h] by (simp add: lseg_frame)
    then have "lseg (entries ?t) (hashtable ?t ! h)
        ((if slot i = h then [i] else []) @ rev (filter (\<lambda>j. slot j = h) [0..<i])) (-1)"
      using h t(2) len i by (cases "slot i = h") simp_all
    moreover have "rev (filter (\<lambda>j. slot j = h) [0..<Suc i]) =
        (if slot i = h then [i] else []) @ rev (filter (\<lambda>j. slot j = h) [0..<i])" by simp
    ultimately show ?thesis by (simp only:)
  qed
  have f: "foldE (rehash_step hash key) t0 [0..<Suc i] = Inr ?t"
    by (simp add: foldE_append t(1) step)
  have o: "\<forall>j. Suc i \<le> j \<longrightarrow> entries ?t ! j = es ! j" using t(5) by simp
  have l: "length (hashtable ?t) = n" "capacity ?t = capacity t0" using t(2,4) by simp_all
  show ?case
    by (intro exI [of _ ?t] conjI f l ud o allI impI ch)
qed

lemma do_rehash_ok:
  assumes cap: "capacity t * 3 \<le> max_table" "length (entries t) \<le> capacity t"
    and ranges: "\<And>e. e \<in> set (entries t) \<Longrightarrow> -1 \<le> nxt e \<and> nxt e < int (length (entries t))"
    and keys: "distinct (map key (elems t))"
  obtains t' where "do_rehash hash key t = Inr t'" "table_inv hash key t'" "elems t' = elems t"
    "capacity t' = capacity t" "3 * length (entries t) \<le> length (hashtable t')"
proof -
  let ?m = "int (capacity t * 3)"
  obtain p where p: "hashtable_size ?m = Inr p" "?m \<le> p" "0 \<le> p" "p \<le> int max_table"
    using hashtable_size_ok [of ?m] cap(1) by auto
  define n where "n = nat p"
  have n: "n \<le> max_table" "capacity t * 3 \<le> n" using p by (auto simp: n_def)
  define t0 where "t0 = t\<lparr>hashtable := replicate n (-1)\<rparr>"
  define slot where "slot j = do_hash hash t0 (key (udata (entries t ! j)))" for j
  have nz: "n \<noteq> 0 \<or> entries t = []" using n cap by (cases "entries t") auto
  have t0: "length (hashtable t0) = n" "entries t0 = entries t" by (simp_all add: t0_def)
  have empty: "hashtable t0 ! h = -1" if "h < n" for h using that by (simp add: t0_def)
  obtain t' where t': "foldE (rehash_step hash key) t0 [0..<length (entries t)] = Inr t'"
    "length (hashtable t') = n" "map udata (entries t') = map udata (entries t)"
    "capacity t' = capacity t0"
    "\<And>h. h < n \<Longrightarrow> lseg (entries t') (hashtable t' ! h)
      (rev (filter (\<lambda>j. slot j = h) [0..<length (entries t)])) (-1)"
    using rehash_loop [where slot = slot and key = key, OF nz n(1) t0 empty ranges slot_def order_refl]
    by blast
  have el: "elems t' = elems t" using t'(3) by (simp add: elems_def)
  have len: "length (entries t') = length (entries t)" using el by (metis length_elems)
  have b: "bucket hash key t' h = set (rev (filter (\<lambda>j. slot j = h) [0..<length (entries t)]))" for h
  proof -
    have "do_hash hash t' (key (udata (entries t' ! j))) = slot j" if "j < length (entries t)" for j
      using that el len
      by (simp add: slot_def elems_nth [symmetric] do_hash_cong [of t' t0] t'(2) t0_def)
    then show ?thesis by (auto simp: bucket_def len)
  qed
  have cp: "capacity t' = capacity t" using t'(4) by (simp add: t0_def)
  have "chained hash key t'"
    unfolding chained_def b
  proof (intro allI impI)
    fix h assume "h < length (hashtable t')"
    then have "lseg (entries t') (hashtable t' ! h)
        (rev (filter (\<lambda>j. slot j = h) [0..<length (entries t)])) (-1)"
      using t'(2,5) by simp
    then show "\<exists>c. lseg (entries t') (hashtable t' ! h) c (-1) \<and> distinct c \<and>
        set c = set (rev (filter (\<lambda>j. slot j = h) [0..<length (entries t)]))"
      by (intro exI conjI) (assumption, simp, rule refl)
  qed
  moreover have "hashtable t' = [] \<longrightarrow> entries t' = []"
  proof
    assume "hashtable t' = []"
    then have "length (entries t') = 0" using t'(2) n(2) cap(2) len by simp
    then show "entries t' = []" by simp
  qed
  ultimately have i: "table_inv hash key t'"
    using n(1) cap(2) keys by (simp add: table_inv_def t'(2) cp len el)
  have r: "do_rehash hash key t = Inr t'"
    using t'(1) by (simp add: do_rehash_def rehash_size_eq [OF cap(1)] p(1) [simplified] t0_def n_def)
  show thesis
    by (rule that [OF r i el cp]) (use t'(2) n(2) cap(2) in simp)
qed

section \<open>Lookup and insertion\<close>

text \<open>A table may be rehashed while three times its capacity is a legal size.\<close>

definition room :: "'u table \<Rightarrow> bool" where
  "room t \<longleftrightarrow> capacity t * 3 \<le> max_table"

lemma table_inv_ranges:
  assumes "table_inv hash key t" "e \<in> set (entries t)"
  shows "-1 \<le> nxt e \<and> nxt e < int (length (entries t))"
proof -
  obtain i where i: "i < length (entries t)" "e = entries t ! i"
    using assms(2) by (auto simp: in_set_conv_nth)
  have ne: "hashtable t \<noteq> []" using assms by (auto simp: table_inv_def)
  let ?h = "do_hash hash t (key (udata e))"
  have "?h < length (hashtable t)"
    using do_hash_less [OF ne] assms(1) by (simp add: table_inv_def)
  then obtain c where c: "lseg (entries t) (hashtable t ! ?h) c (-1)" "set c = bucket hash key t ?h"
    using assms(1) by (auto simp: table_inv_def chained_def)
  have "i \<in> set c" using i by (simp add: c(2) bucket_def)
  from lseg_next_range [OF c(1) this] show ?thesis by (simp add: i(2))
qed

lemma table_inv_index_unique:
  assumes "table_inv hash key t" "i < length (entries t)" "j < length (entries t)"
    and "key (elems t ! i) = key (elems t ! j)"
  shows "i = j"
  using assms nth_eq_iff_index_eq [of "map key (elems t)" i j] by (simp add: table_inv_def)

definition index_of :: "('u \<Rightarrow> 'k) \<Rightarrow> 'u table \<Rightarrow> 'k \<Rightarrow> int \<Rightarrow> bool" where
  "index_of key t k i \<longleftrightarrow>
     (if k \<in> key ` set (elems t)
      then 0 \<le> i \<and> nat i < length (entries t) \<and> key (elems t ! nat i) = k else i = -1)"

lemma index_of_nonneg: "index_of key t k i \<Longrightarrow> 0 \<le> i \<longleftrightarrow> k \<in> key ` set (elems t)"
  by (auto simp: index_of_def split: if_splits)

lemma bucket_search:
  assumes inv: "table_inv hash key t" and ne: "hashtable t \<noteq> []"
  obtains i where "lookup_loop key k (entries t) (hashtable t ! do_hash hash t k)
      (Suc (length (entries t))) = Inr i" "index_of key t k i"
proof -
  let ?h = "do_hash hash t k"
  have "?h < length (hashtable t)" using do_hash_less [OF ne] inv by (simp add: table_inv_def)
  then obtain c where c: "lseg (entries t) (hashtable t ! ?h) c (-1)" "distinct c"
    "set c = bucket hash key t ?h"
    using inv by (auto simp: table_inv_def chained_def)
  have len: "length c \<le> length (entries t)"
    by (rule distinct_bounded_length [OF c(2)]) (simp add: c(3) bucket_def)
  have mem: "j \<in> set c" if "j < length (entries t)" "key (udata (entries t ! j)) = k" for j
    using that by (simp add: c(3) bucket_def)
  have bnd: "j < length (entries t)" if "j \<in> set c" for j
    using that by (simp add: c(3) bucket_def)
  let ?f = "find (\<lambda>j. key (udata (entries t ! j)) = k) c"
  have l: "lookup_loop key k (entries t) (hashtable t ! ?h) (Suc (length (entries t))) =
      Inr (case ?f of None \<Rightarrow> -1 | Some j \<Rightarrow> int j)"
    by (rule lookup_loop_lseg [OF c(1)]) (use len in simp)
  show thesis
  proof (cases ?f)
    case None
    have "k \<notin> key ` set (elems t)"
    proof
      assume "k \<in> key ` set (elems t)"
      then obtain j where "j < length (entries t)" "key (udata (entries t ! j)) = k"
        by (auto simp: in_set_conv_nth elems_nth)
      then show False using None mem [of j] by (auto simp: find_None_iff)
    qed
    then show thesis using that [OF l] None by (simp add: index_of_def)
  next
    case (Some j)
    then have "j \<in> set c" "key (udata (entries t ! j)) = k" by (auto simp: find_Some_iff)
    moreover then have "k \<in> key ` set (elems t)"
      using bnd [of j] by (auto simp: elems_def)
    ultimately have "index_of key t k (int j)"
      using bnd [of j] by (simp add: index_of_def elems_nth)
    then show thesis using that [OF l] Some by simp
  qed
qed

lemma index_of_elems: "elems t = elems t' \<Longrightarrow> index_of key t k i = index_of key t' k i"
  by (simp add: index_of_def length_elems [symmetric] del: length_elems)

lemma lookup_ok:
  assumes inv: "table_inv hash key t" and room: "room t"
  obtains i h t' where "lookup hash key t k = Inr ((i, h), t')" "table_inv hash key t'"
    "elems t' = elems t" "capacity t' = capacity t" "index_of key t k i"
    "hashtable t' \<noteq> [] \<longrightarrow> h = do_hash hash t' k"
    "hashtable t' = [] \<longleftrightarrow> hashtable t = []"
proof (cases "hashtable t = []")
  case True
  then have "elems t = []" using inv by (simp add: table_inv_def elems_def)
  then show thesis
    using that [of "-1" "do_hash hash t k" t] True inv
    by (simp add: lookup_def do_lookup_def index_of_def)
next
  case ne: False
  obtain t' where t': "(if length (entries t) * 2 > length (hashtable t)
        then bindE (do_rehash hash key t) (\<lambda>t. Inr (do_hash hash t k, t))
        else Inr (do_hash hash t k, t)) = Inr (do_hash hash t' k, t')"
    "table_inv hash key t'" "elems t' = elems t" "capacity t' = capacity t" "hashtable t' \<noteq> []"
  proof (cases "length (entries t) * 2 > length (hashtable t)")
    case False
    then show thesis using that [of t] inv ne by simp
  next
    case True
    have "length (entries t) \<le> capacity t" "distinct (map key (elems t))"
      using inv by (simp_all add: table_inv_def)
    from do_rehash_ok [where hash = hash, OF room [unfolded room_def] this(1) table_inv_ranges [OF inv] this(2)]
    obtain t' where r: "do_rehash hash key t = Inr t'" "table_inv hash key t'" "elems t' = elems t"
      "capacity t' = capacity t" "3 * length (entries t) \<le> length (hashtable t')"
      by blast
    have "hashtable t' \<noteq> []" using r(5) True ne by auto
    then show thesis using that [of t'] r True by simp
  qed
  obtain i where i: "lookup_loop key k (entries t') (hashtable t' ! do_hash hash t' k)
      (Suc (length (entries t'))) = Inr i" "index_of key t' k i"
    using bucket_search [OF t'(2,5)] by blast
  have "do_hash hash t' k < length (hashtable t')"
    using do_hash_less [OF t'(5)] t'(2) by (simp add: table_inv_def)
  then have lk: "lookup hash key t k = Inr ((i, do_hash hash t' k), t')"
    using i(1) by (simp only: lookup_def do_lookup_def ne if_False t'(1) bindE_Inr prod.case guardE_True)
  have io: "index_of key t k i" using i(2) by (simp only: index_of_elems [OF t'(3)])
  show thesis
    by (rule that [OF lk t'(2,3,4) io]) (simp_all add: ne t'(5))
qed

lemma elems_emplace_back [simp]:
  "elems (emplace_back u n t) = elems t @ [u]"
  "length (entries (emplace_back u n t)) = Suc (length (entries t))"
  "hashtable (emplace_back u n t) = hashtable t"
  by (simp_all add: emplace_back_def elems_def)

lemma capacity_emplace_back:
  "capacity (emplace_back u n t) = (if length (entries t) < capacity t then capacity t
     else max 1 (2 * length (entries t)))"
  by (simp add: emplace_back_def)

lemma do_insert_empty:
  assumes inv: "table_inv hash key t" and room: "room t" and e: "hashtable t = []"
  obtains t' where "do_insert hash key t u h = Inr (0, t')" "table_inv hash key t'"
    "elems t' = [u]" "capacity t' = max 1 (capacity t)"
proof -
  let ?t = "emplace_back u (-1) t"
  have en: "entries t = []" "elems t = []" using inv e by (simp_all add: table_inv_def elems_def)
  have cap: "capacity ?t = max 1 (capacity t)"
    using en by (simp add: capacity_emplace_back)
  have c: "capacity ?t * 3 \<le> max_table" "length (entries ?t) \<le> capacity ?t"
    using room en by (simp_all add: cap room_def max_table_def)
  have r: "-1 \<le> nxt e \<and> nxt e < int (length (entries ?t))" if "e \<in> set (entries ?t)" for e
    using that en by (simp add: emplace_back_def)
  have d: "distinct (map key (elems ?t))" by (simp add: en)
  obtain t' where t': "do_rehash hash key ?t = Inr t'" "table_inv hash key t'" "elems t' = elems ?t"
    "capacity t' = capacity ?t"
    using do_rehash_ok [where hash = hash, OF c r d] by blast
  have "length (entries t') = 1" using t'(3) en by (metis elems_emplace_back(1) length_elems append_Nil length_Cons list.size(3) One_nat_def)
  then have "do_insert hash key t u h = Inr (0, t')" using e t'(1) by (simp add: do_insert_def)
  then show thesis using that t'(2-4) cap en by simp
qed

lemma do_insert_chained:
  assumes inv: "table_inv hash key t" and ne: "hashtable t \<noteq> []"
    and new: "key u \<notin> key ` set (elems t)" and h: "h = do_hash hash t (key u)"
  obtains t' where "do_insert hash key t u h = Inr (int (length (entries t)), t')"
    "table_inv hash key t'" "elems t' = elems t @ [u]"
    "capacity t' \<le> max (capacity t) (max 1 (2 * length (entries t)))"
proof -
  let ?n = "length (entries t)"
  let ?e = "emplace_back u (hashtable t ! h) t"
  let ?t = "?e\<lparr>hashtable := (hashtable t)[h := int ?n]\<rparr>"
  have bnd: "length (hashtable t) \<le> max_table" using inv by (simp add: table_inv_def)
  have hl: "h < length (hashtable t)" unfolding h by (rule do_hash_less [OF ne bnd])
  have el: "elems ?t = elems t @ [u]" by (simp add: elems_def emplace_back_def)
  have en: "entries ?t = entries t @ [\<lparr>udata = u, nxt = hashtable t ! h\<rparr>]"
    by (simp add: emplace_back_def)
  have dh: "do_hash hash ?t k = do_hash hash t k" for k by (rule do_hash_cong) simp
  have bu: "bucket hash key ?t h' = bucket hash key t h' \<union> (if h' = h then {?n} else {})" for h'
    unfolding bucket_def dh en by (auto simp: nth_append h less_Suc_eq)
  have "chained hash key ?t"
    unfolding chained_def
  proof (intro allI impI)
    fix h' assume "h' < length (hashtable ?t)"
    then have h': "h' < length (hashtable t)" by simp
    then obtain c where c: "lseg (entries t) (hashtable t ! h') c (-1)" "distinct c"
      "set c = bucket hash key t h'"
      using inv by (auto simp: table_inv_def chained_def)
    have c2: "lseg (entries ?t) (hashtable t ! h') c (-1)"
      unfolding en by (rule lseg_snoc [OF c(1)])
    have nn: "?n \<notin> set c" by (simp add: c(3) bucket_def)
    let ?c = "if h' = h then ?n # c else c"
    have "lseg (entries ?t) (hashtable ?t ! h') ?c (-1)"
      using c2 h' by (cases "h' = h") (simp_all add: en)
    moreover have "distinct ?c" "set ?c = bucket hash key ?t h'"
      unfolding bu using c(2,3) nn by auto
    ultimately show "\<exists>c. lseg (entries ?t) (hashtable ?t ! h') c (-1) \<and> distinct c \<and>
        set c = bucket hash key ?t h'" by blast
  qed
  moreover have "length (entries ?t) \<le> capacity ?t"
    using inv by (auto simp: table_inv_def capacity_emplace_back)
  moreover have "distinct (map key (elems ?t))"
    unfolding el using inv new by (auto simp: table_inv_def)
  ultimately have i: "table_inv hash key ?t"
    using ne bnd by (simp add: table_inv_def)
  have "do_insert hash key t u h = Inr (int ?n, ?t)"
    using ne hl by (simp add: do_insert_def Let_def)
  then show thesis
    using that [OF _ i el] by (simp add: capacity_emplace_back)
qed

lemma insert_new_ok:
  assumes inv: "table_inv hash key t" and room: "room t"
  obtains i b t' where "insert_new hash key t u = Inr ((i, b), t')" "table_inv hash key t'"
    "elems t' = (if key u \<in> key ` set (elems t) then elems t else elems t @ [u])"
    "b \<longleftrightarrow> key u \<notin> key ` set (elems t)" "index_of key t' (key u) i"
    "capacity t' \<le> max (capacity t) (max 1 (2 * length (entries t)))"
proof -
  obtain i h t1 where l: "lookup hash key t (key u) = Inr ((i, h), t1)" "table_inv hash key t1"
    "elems t1 = elems t" "capacity t1 = capacity t" "index_of key t (key u) i"
    "hashtable t1 \<noteq> [] \<longrightarrow> h = do_hash hash t1 (key u)" "hashtable t1 = [] \<longleftrightarrow> hashtable t = []"
    by (rule lookup_ok [OF inv room])
  have len: "length (entries t1) = length (entries t)" by (metis l(3) length_elems)
  have l5: "index_of key t1 (key u) i" using l(5) by (simp only: index_of_elems [OF l(3)])
  show thesis
  proof (cases "key u \<in> key ` set (elems t)")
    case True
    then have "0 \<le> i" using index_of_nonneg [OF l(5)] by simp
    then have r: "insert_new hash key t u = Inr ((i, False), t1)"
      by (simp add: insert_new_def l(1))
    show thesis
      by (rule that [OF r l(2) _ _ l5]) (simp_all add: True l(3,4))
  next
    case False
    then have i: "\<not> 0 \<le> i" using index_of_nonneg [OF l(5)] by simp
    obtain j t' where t': "do_insert hash key t1 u h = Inr (j, t')" "table_inv hash key t'"
      "elems t' = elems t @ [u]" "j = int (length (entries t))"
      "capacity t' \<le> max (capacity t) (max 1 (2 * length (entries t)))"
    proof (cases "hashtable t1 = []")
      case True
      have "entries t1 = []" "elems t1 = []" using l(2) True by (simp_all add: table_inv_def elems_def)
      moreover obtain t' where "do_insert hash key t1 u h = Inr (0, t')" "table_inv hash key t'"
        "elems t' = [u]" "capacity t' = max 1 (capacity t1)"
        by (rule do_insert_empty [OF l(2) _ True]) (use room l(4) in \<open>simp_all add: room_def\<close>)
      ultimately show thesis using that [of 0 t'] l(3,4) len by simp
    next
      case ne: False
      obtain t' where "do_insert hash key t1 u h = Inr (int (length (entries t1)), t')"
        "table_inv hash key t'" "elems t' = elems t1 @ [u]"
        "capacity t' \<le> max (capacity t1) (max 1 (2 * length (entries t1)))"
        by (rule do_insert_chained [OF l(2) ne _ mp [OF l(6) ne]]) (simp_all add: l(3) False)
      then show thesis using that [of "int (length (entries t1))" t'] l(3,4) len by simp
    qed
    have r: "insert_new hash key t u = Inr ((j, True), t')"
      using i by (simp add: insert_new_def l(1) t'(1))
    have "length (entries t') = Suc (length (entries t))"
      using t'(3) by (metis length_append_singleton length_elems)
    then have io: "index_of key t' (key u) j"
      by (simp add: index_of_def t'(3,4) nth_append)
    show thesis
      by (rule that [OF r t'(2) _ _ io t'(5)]) (simp_all add: False t'(3))
  qed
qed

section \<open>Erasure\<close>

text \<open>Every chain holds its bucket without the entries \<open>X\<close>, which no chain reaches.\<close>

definition chained_without :: "('k \<Rightarrow> 32 word) \<Rightarrow> ('u \<Rightarrow> 'k) \<Rightarrow> 'u table \<Rightarrow> nat set \<Rightarrow> bool" where
  "chained_without hash key t X \<longleftrightarrow> (\<forall>h<length (hashtable t). \<exists>c.
     lseg (entries t) (hashtable t ! h) c (-1) \<and> distinct c \<and> set c = bucket hash key t h - X)"

lemma chained_without_empty: "chained_without hash key t {} \<longleftrightarrow> chained hash key t"
  by (simp add: chained_without_def chained_def)

lemma bucket_disjoint: "h \<noteq> h' \<Longrightarrow> bucket hash key t h \<inter> bucket hash key t h' = {}"
  by (auto simp: bucket_def)

lemma bucket_cong:
  assumes "length (hashtable t) = length (hashtable t')" "map udata (entries t) = map udata (entries t')"
  shows "bucket hash key t h = bucket hash key t' h"
proof -
  have "length (entries t) = length (entries t')" using assms(2) by (metis length_map)
  moreover have "udata (entries t ! i) = udata (entries t' ! i)" if "i < length (entries t)" for i
    using assms(2) that calculation by (metis nth_map)
  ultimately show ?thesis
    by (auto simp: bucket_def do_hash_cong [OF assms(1)])
qed

lemma unlink_ok:
  assumes ch: "chained_without hash key t X" and i: "i < length (entries t)" "i \<notin> X"
    and h: "h = do_hash hash t (key (udata (entries t ! i)))" "h < length (hashtable t)"
  obtains t' where "relink bad h (int i) (nxt (entries t ! i)) t = Inr t'"
    "chained_without hash key t' (insert i X)" "length (hashtable t') = length (hashtable t)"
    "map udata (entries t') = map udata (entries t)" "capacity t' = capacity t"
proof -
  obtain c where c: "lseg (entries t) (hashtable t ! h) c (-1)" "distinct c"
    "set c = bucket hash key t h - X"
    using ch h(2) by (auto simp: chained_without_def)
  have "i \<in> set c" using i h(1) by (simp add: c(3) bucket_def)
  then obtain xs ys where xy: "c = xs @ i # ys" by (metis split_list)
  have ls: "lseg (entries t) (hashtable t ! h) xs (int i)"
    "lseg (entries t) (nxt (entries t ! i)) ys (-1)"
    using c(1) by (auto simp: xy lseg_append)
  have dx: "i \<notin> set xs" "distinct xs" "set xs \<inter> set ys = {}" "distinct (xs @ ys)" "i \<notin> set ys"
    using c(2) by (auto simp: xy)
  obtain t' where t': "relink bad h (int i) (nxt (entries t ! i)) t = Inr t'"
    "lseg (entries t') (hashtable t' ! h) xs (nxt (entries t ! i))"
    "length (hashtable t') = length (hashtable t)" "length (entries t') = length (entries t)"
    "\<And>h'. h' \<noteq> h \<Longrightarrow> hashtable t' ! h' = hashtable t ! h'"
    "\<And>j. j \<notin> set xs \<Longrightarrow> entries t' ! j = entries t ! j"
    "\<And>ys s e. set xs \<inter> set ys = {} \<Longrightarrow> lseg (entries t') s ys e \<longleftrightarrow> lseg (entries t) s ys e"
    "map udata (entries t') = map udata (entries t)" "capacity t' = capacity t"
    using relink_lseg [OF h(2) ls(1) dx(1,2) i(1), where bad = bad and to = "nxt (entries t ! i)"] by metis
  have b: "bucket hash key t' h' = bucket hash key t h'" for h'
    by (rule bucket_cong [OF t'(3,8)])
  have "chained_without hash key t' (insert i X)"
    unfolding chained_without_def t'(3) b
  proof (intro allI impI)
    fix h' assume h': "h' < length (hashtable t)"
    show "\<exists>c. lseg (entries t') (hashtable t' ! h') c (-1) \<and> distinct c \<and>
      set c = bucket hash key t h' - insert i X"
    proof (cases "h' = h")
      case True
      have "lseg (entries t') (nxt (entries t ! i)) ys (-1)" using ls(2) t'(7) [OF dx(3)] by simp
      then have "lseg (entries t') (hashtable t' ! h) (xs @ ys) (-1)"
        using t'(2) by (auto simp: lseg_append)
      moreover have "set (xs @ ys) = bucket hash key t h - insert i X"
        using c(3) dx by (auto simp: xy)
      ultimately show ?thesis using True dx(4) by blast
    next
      case False
      obtain d where d: "lseg (entries t) (hashtable t ! h') d (-1)" "distinct d"
        "set d = bucket hash key t h' - X"
        using ch h' by (auto simp: chained_without_def)
      have "set c \<inter> set d = {}" using bucket_disjoint [of h h'] False by (fastforce simp: c(3) d(3))
      then have "set xs \<inter> set d = {}" "i \<notin> set d" by (auto simp: xy)
      moreover from this have "set d = bucket hash key t h' - insert i X" using d(3) by auto
      ultimately show ?thesis using d(1,2) t'(5) [OF False] t'(7) [of d] by metis
    qed
  qed
  then show thesis by (rule that [OF t'(1) _ t'(3,8,9)])
qed

lemma distinct_move_last:
  assumes "distinct xs" "i < length xs"
  shows "distinct (butlast (xs[i := last xs]))" "set (butlast (xs[i := last xs])) = set xs - {xs ! i}"
proof -
  obtain ys l where xs: "xs = ys @ [l]" using assms(2) by (cases xs rule: rev_cases) auto
  show "distinct (butlast (xs[i := last xs]))" "set (butlast (xs[i := last xs])) = set xs - {xs ! i}"
    using assms xs
    by (auto simp: list_update_append nth_append less_Suc_eq distinct_list_update set_update_distinct)
qed

text \<open>Moving the last entry to the free index: the links into the last entry go to the index, the
  entry is copied, and the vector shrinks.\<close>

lemma move_back_ok:
  assumes ch: "chained_without hash key t {i}" and i: "i < length (entries t)"
    and b: "b = length (entries t) - 1" "i \<noteq> b"
    and hb: "hb = do_hash hash t (key (udata (entries t ! b)))" "hb < length (hashtable t)"
  obtains t' where "relink bad hb (int b) (int i) t = Inr t'"
    "chained hash key (t'\<lparr>entries := butlast ((entries t')[i := entries t' ! b])\<rparr>)"
    "length (hashtable t') = length (hashtable t)"
    "map udata (entries t') = map udata (entries t)" "capacity t' = capacity t"
proof -
  have bl: "b < length (entries t)" "i < b" using i b by auto
  obtain c where c: "lseg (entries t) (hashtable t ! hb) c (-1)" "distinct c"
    "set c = bucket hash key t hb - {i}"
    using ch hb(2) by (auto simp: chained_without_def)
  have "b \<in> set c" using bl b(2) hb(1) by (simp add: c(3) bucket_def)
  then obtain xs ys where xy: "c = xs @ b # ys" by (metis split_list)
  have ls: "lseg (entries t) (hashtable t ! hb) xs (int b)"
    "lseg (entries t) (nxt (entries t ! b)) ys (-1)"
    using c(1) by (auto simp: xy lseg_append)
  have dx: "b \<notin> set xs" "distinct xs" "set xs \<inter> set ys = {}" "b \<notin> set ys" "distinct ys"
    using c(2) by (auto simp: xy)
  have ic: "i \<notin> set c" by (simp add: c(3))
  obtain t' where t': "relink bad hb (int b) (int i) t = Inr t'"
    "lseg (entries t') (hashtable t' ! hb) xs (int i)"
    "length (hashtable t') = length (hashtable t)" "length (entries t') = length (entries t)"
    "\<And>h'. h' \<noteq> hb \<Longrightarrow> hashtable t' ! h' = hashtable t ! h'"
    "\<And>j. j \<notin> set xs \<Longrightarrow> entries t' ! j = entries t ! j"
    "\<And>ys s e. set xs \<inter> set ys = {} \<Longrightarrow> lseg (entries t') s ys e \<longleftrightarrow> lseg (entries t) s ys e"
    "map udata (entries t') = map udata (entries t)" "capacity t' = capacity t"
    using relink_lseg [OF hb(2) ls(1) dx(1,2) bl(1), where bad = bad and to = "int i"] by metis
  let ?e = "(entries t')[i := entries t' ! b]"
  let ?u = "t'\<lparr>entries := butlast ?e\<rparr>"
  have eb: "entries t' ! b = entries t ! b" using t'(6) dx(1) by simp
  have move: "lseg (butlast ?e) s d e" if "lseg (entries t') s d e" "i \<notin> set d" "b \<notin> set d" for s d e
    using that t'(4) b(1) by (intro lseg_butlast) (simp_all add: lseg_frame)
  have ei: "butlast ?e ! i = entries t ! b" "i < length (butlast ?e)"
    using bl t'(4) eb by (auto simp: nth_butlast)
  have ud: "udata (butlast ?e ! j) = udata (entries t ! (if j = i then b else j))"
    if "j < length (butlast ?e)" for j
  proof -
    have "map udata (entries t') ! j = map udata (entries t) ! j" by (simp add: t'(8))
    then show ?thesis using that t'(4) eb by (cases "j = i") (auto simp: nth_butlast)
  qed
  have lu: "length (butlast ?e) = b" using t'(4) b(1) by simp
  have bu: "bucket hash key ?u h = bucket hash key t h - {i, b} \<union> (if h = hb then {i} else {})" for h
  proof -
    have "do_hash hash ?u k = do_hash hash t k" for k by (rule do_hash_cong) (simp add: t'(3))
    then have "bucket hash key ?u h = {j. j < b \<and> do_hash hash t (key (udata (entries t ! (if j = i then b else j)))) = h}"
      using ud lu by (auto simp: bucket_def)
    also have "\<dots> = bucket hash key t h - {i, b} \<union> (if h = hb then {i} else {})"
      using bl b(1) hb(1) by (auto simp: bucket_def split: if_splits)
    finally show ?thesis .
  qed
  have "chained hash key ?u"
    unfolding chained_def bu
  proof (intro allI impI)
    fix h assume "h < length (hashtable ?u)"
    then have h: "h < length (hashtable t)" by (simp add: t'(3))
    show "\<exists>c. lseg (entries ?u) (hashtable ?u ! h) c (-1) \<and> distinct c \<and>
      set c = bucket hash key t h - {i, b} \<union> (if h = hb then {i} else {})"
    proof (cases "h = hb")
      case True
      have "lseg (butlast ?e) (hashtable t' ! hb) xs (int i)"
        using t'(2) ic dx(1) by (intro move) (auto simp: xy)
      moreover have "lseg (butlast ?e) (nxt (entries t ! b)) ys (-1)"
        using ls(2) t'(7) [OF dx(3)] ic dx(4) by (intro move) (auto simp: xy)
      ultimately have "lseg (entries ?u) (hashtable ?u ! hb) (xs @ i # ys) (-1)"
        using ei by (auto simp: lseg_append)
      moreover have "distinct (xs @ i # ys)" using dx ic by (auto simp: xy)
      moreover have "set (xs @ i # ys) = bucket hash key t h - {i, b} \<union> {i}"
        using c(3) dx ic True by (auto simp: xy)
      ultimately show ?thesis using True by auto
    next
      case False
      obtain d where d: "lseg (entries t) (hashtable t ! h) d (-1)" "distinct d"
        "set d = bucket hash key t h - {i}"
        using ch h by (auto simp: chained_without_def)
      have "set c \<inter> set d = {}" using bucket_disjoint [of hb h] False by (fastforce simp: c(3) d(3))
      then have x: "set xs \<inter> set d = {}" "b \<notin> set d" "i \<notin> set d" using d(3) by (auto simp: xy)
      then have "lseg (butlast ?e) (hashtable t' ! h) d (-1)"
        using d(1) t'(5) [OF False] t'(7) [OF x(1)] by (intro move) simp_all
      moreover have "set d = bucket hash key t h - {i, b}" using d(3) x by auto
      ultimately show ?thesis using False d(2) by auto
    qed
  qed
  then show thesis by (rule that [OF t'(1) _ t'(3,8,9)])
qed

lemma update_last: "xs[length xs - Suc 0 := last xs] = xs"
  by (cases xs rule: rev_cases) auto

lemma shrink_ok:
  assumes "chained_without hash key t {length (entries t) - 1}"
  shows "chained hash key (t\<lparr>entries := butlast (entries t)\<rparr>)"
proof -
  let ?t = "t\<lparr>entries := butlast (entries t)\<rparr>"
  have "do_hash hash ?t k = do_hash hash t k" for k by (rule do_hash_cong) simp
  then have bu: "bucket hash key ?t h = bucket hash key t h - {length (entries t) - 1}" for h
    by (auto simp: bucket_def nth_butlast)
  show ?thesis
    unfolding chained_def bu
  proof (intro allI impI)
    fix h assume "h < length (hashtable ?t)"
    then obtain c where c: "lseg (entries t) (hashtable t ! h) c (-1)" "distinct c"
      "set c = bucket hash key t h - {length (entries t) - 1}"
      using assms by (auto simp: chained_without_def)
    have "lseg (butlast (entries t)) (hashtable t ! h) c (-1)"
      by (rule lseg_butlast [OF c(1)]) (simp add: c(3))
    then show "\<exists>c. lseg (entries ?t) (hashtable ?t ! h) c (-1) \<and> distinct c \<and>
        set c = bucket hash key t h - {length (entries t) - 1}"
      using c(2,3) by auto
  qed
qed

lemma do_erase_ok:
  assumes inv: "table_inv hash key t" and i: "i < length (entries t)"
    and h: "h = do_hash hash t (key (elems t ! i))"
  obtains t' where "do_erase bad hash key t (int i) h = Inr (1, t')" "table_inv hash key t'"
    "elems t' = butlast ((elems t)[i := last (elems t)])" "capacity t' = capacity t"
proof -
  let ?b = "length (entries t) - 1"
  have ne: "hashtable t \<noteq> []" using inv i by (auto simp: table_inv_def)
  have bnd: "length (hashtable t) \<le> max_table" using inv by (simp add: table_inv_def)
  have hh: "h = do_hash hash t (key (udata (entries t ! i)))" "h < length (hashtable t)"
    using h do_hash_less [OF ne bnd] i by (simp_all add: elems_nth)
  obtain t1 where t1: "relink bad h (int i) (nxt (entries t ! i)) t = Inr t1"
    "chained_without hash key t1 {i}" "length (hashtable t1) = length (hashtable t)"
    "map udata (entries t1) = map udata (entries t)" "capacity t1 = capacity t"
  proof -
    have c: "chained_without hash key t {}" using inv by (simp add: chained_without_empty table_inv_def)
    have n: "i \<notin> {}" by simp
    show thesis
      by (rule unlink_ok [where bad = bad, OF c i n hh]) (rule that)
  qed
  have l1: "length (entries t1) = length (entries t)" using t1(4) by (metis length_map)
  have kd: "distinct (map key (butlast ((elems t)[i := last (elems t)])))"
  proof -
    have "elems t \<noteq> []" using i by (auto simp: elems_def)
    then have "map key (butlast ((elems t)[i := last (elems t)])) =
        butlast ((map key (elems t))[i := last (map key (elems t))])"
      by (simp add: map_butlast map_update last_map)
    then show ?thesis
      using distinct_move_last [of "map key (elems t)" i] inv i by (simp add: table_inv_def)
  qed
  obtain t2 where t2: "(if int i \<noteq> int (length (entries t1)) - 1 then
       bindE (relink bad (do_hash hash t1 (key (udata (entries t1 ! nat (int (length (entries t1)) - 1)))))
           (int (length (entries t1)) - 1) (int i) t1)
         (\<lambda>t. Inr (t\<lparr>entries := (entries t)[i := entries t ! nat (int (length (entries t1)) - 1)]\<rparr>))
     else Inr t1) = Inr t2"
    "chained hash key (t2\<lparr>entries := butlast (entries t2)\<rparr>)"
    "length (hashtable t2) = length (hashtable t)"
    "map udata (butlast (entries t2)) = butlast ((elems t)[i := last (elems t)])" "capacity t2 = capacity t"
  proof (cases "i = ?b")
    case True
    have "int i = int (length (entries t1)) - 1" using True i l1 by simp
    moreover have "chained hash key (t1\<lparr>entries := butlast (entries t1)\<rparr>)"
      using t1(2) True l1 by (intro shrink_ok) simp
    moreover have "map udata (butlast (entries t1)) = butlast ((elems t)[i := last (elems t)])"
      using t1(4) True update_last [of "map udata (entries t)"] by (simp add: map_butlast elems_def)
    ultimately show thesis using that [of t1] t1(3,5) by simp
  next
    case False
    have hb: "do_hash hash t1 (key (udata (entries t1 ! ?b))) < length (hashtable t1)"
      using do_hash_less [of t1] ne bnd t1(3) by (metis length_0_conv)
    obtain t' where t': "relink bad (do_hash hash t1 (key (udata (entries t1 ! ?b)))) (int ?b) (int i) t1 = Inr t'"
      "chained hash key (t'\<lparr>entries := butlast ((entries t')[i := entries t' ! ?b])\<rparr>)"
      "length (hashtable t') = length (hashtable t1)"
      "map udata (entries t') = map udata (entries t1)" "capacity t' = capacity t1"
      by (rule move_back_ok [OF t1(2) _ _ False refl hb, where bad = bad]) (use i l1 in simp_all)
    have ii: "nat (int i) = i" "int (length (entries t1)) - 1 = int ?b" "nat (int ?b) = ?b"
      "int i \<noteq> int ?b" using i l1 False by auto
    have l': "length (entries t') = length (entries t)" using t'(4) l1 by (metis length_map)
    have "map udata ((entries t')[i := entries t' ! ?b]) = (elems t)[i := last (elems t)]"
    proof -
      have e: "elems t = map udata (entries t')" by (simp only: elems_def t'(4) t1(4))
      have "entries t' \<noteq> []" using l' i by auto
      then have "last (elems t) = udata (entries t' ! ?b)"
        unfolding e by (simp add: last_map last_conv_nth l' [symmetric])
      then show ?thesis unfolding map_update e by (simp only:)
    qed
    then have u: "map udata (butlast ((entries t')[i := entries t' ! ?b])) = butlast ((elems t)[i := last (elems t)])"
      by (simp add: map_butlast)
    let ?t2 = "t'\<lparr>entries := (entries t')[i := entries t' ! ?b]\<rparr>"
    show thesis
    proof (rule that [of ?t2])
      show "(if int i \<noteq> int (length (entries t1)) - 1 then
         bindE (relink bad (do_hash hash t1 (key (udata (entries t1 ! nat (int (length (entries t1)) - 1)))))
             (int (length (entries t1)) - 1) (int i) t1)
           (\<lambda>t. Inr (t\<lparr>entries := (entries t)[i := entries t ! nat (int (length (entries t1)) - 1)]\<rparr>))
         else Inr t1) = Inr ?t2"
        using ii(4) by (simp only: ii(1-3) t'(1) bindE_Inr) simp
    qed (use t' t1(3,5) u in simp_all)
  qed
  let ?u = "t2\<lparr>entries := butlast (entries t2)\<rparr>"
  let ?t = "if entries ?u = [] then ?u\<lparr>hashtable := []\<rparr> else ?u"
  have len: "length (butlast (entries t2)) = length (entries t) - 1"
    using t2(4) by (metis length_butlast length_elems length_list_update length_map)
  have r: "do_erase bad hash key t (int i) h = Inr (1, ?t)"
    using i ne by (simp only: do_erase_def nat_int t1(1) bindE_Inr Let_def t2(1)) simp
  have el: "elems ?t = butlast ((elems t)[i := last (elems t)])"
    unfolding t2(4) [symmetric] by (simp add: elems_def)
  have "chained hash key ?t"
    using t2(2) by (auto simp: chained_def)
  then have "table_inv hash key ?t"
    using inv kd len t2(3,5) ne unfolding table_inv_def el by auto
  then show thesis by (rule that [OF r _ el]) (simp add: t2(5))
qed

end
