(* ===== verification/Dict.thy ===== *)
theory Dict
  imports Hashlib "HOL-Library.Multiset"
begin

text \<open>
  The class \<open>dict\<close> of \<open>kernel/hashlib.h\<close>: every public operation, the finite map a table stands
  for, and the interface of a finite map that the clients of \<open>dict\<close> use.  A \<open>const\<close> operation
  returns the table as well, because a lookup may rehash it.  An iterator is its index, -1 for
  \<open>end()\<close>; a reference to a value is the index of its entry.
\<close>

type_synonym ('k, 'v) dict = "('k \<times> 'v) table"

section \<open>Operations\<close>

definition dict_empty :: "('k, 'v) dict" where
  "dict_empty = table_empty"

definition dict_assign :: "('k \<Rightarrow> 32 word) \<Rightarrow> ('k, 'v) dict \<Rightarrow> ('k, 'v) dict \<Rightarrow> ('k, 'v) dict res" where
  "dict_assign hash this other = table_assign hash fst this other"

definition dict_copy :: "('k \<Rightarrow> 32 word) \<Rightarrow> ('k, 'v) dict \<Rightarrow> ('k, 'v) dict res" where
  "dict_copy hash other = dict_assign hash dict_empty other"

definition dict_swap :: "('k, 'v) dict \<Rightarrow> ('k, 'v) dict \<Rightarrow> ('k, 'v) dict \<times> ('k, 'v) dict" where
  "dict_swap this other = (other, this)"

definition dict_clear :: "('k, 'v) dict \<Rightarrow> ('k, 'v) dict" where
  "dict_clear t = table_clear t"

definition dict_move_assign :: "('k, 'v) dict \<Rightarrow> ('k, 'v) dict \<Rightarrow> ('k, 'v) dict \<times> ('k, 'v) dict" where
  "dict_move_assign this other = dict_swap (dict_clear this) other"

definition dict_insert ::
  "('k \<Rightarrow> 32 word) \<Rightarrow> ('k, 'v) dict \<Rightarrow> 'k \<times> 'v \<Rightarrow> ((int \<times> bool) \<times> ('k, 'v) dict) res" where
  "dict_insert hash t value =
     bindE (lookup hash fst t (fst value)) (\<lambda>((i, h), t).
     if i \<ge> 0 then Inr ((i, False), t)
     else bindE (do_insert hash fst t value h) (\<lambda>(i, t). Inr ((i, True), t)))"

text \<open>\<open>T()\<close>, the default value, is an argument.\<close>

definition dict_insert_key ::
  "('k \<Rightarrow> 32 word) \<Rightarrow> 'v \<Rightarrow> ('k, 'v) dict \<Rightarrow> 'k \<Rightarrow> ((int \<times> bool) \<times> ('k, 'v) dict) res" where
  "dict_insert_key hash defval t k =
     bindE (lookup hash fst t k) (\<lambda>((i, h), t).
     if i \<ge> 0 then Inr ((i, False), t)
     else bindE (do_insert hash fst t (k, defval) h) (\<lambda>(i, t). Inr ((i, True), t)))"

definition dict_emplace ::
  "('k \<Rightarrow> 32 word) \<Rightarrow> ('k, 'v) dict \<Rightarrow> 'k \<Rightarrow> 'v \<Rightarrow> ((int \<times> bool) \<times> ('k, 'v) dict) res" where
  "dict_emplace hash t k v =
     bindE (lookup hash fst t k) (\<lambda>((i, h), t).
     if i \<ge> 0 then Inr ((i, False), t)
     else bindE (do_insert hash fst t (k, v) h) (\<lambda>(i, t). Inr ((i, True), t)))"

definition dict_insert_range ::
  "('k \<Rightarrow> 32 word) \<Rightarrow> ('k, 'v) dict \<Rightarrow> ('k \<times> 'v) list \<Rightarrow> ('k, 'v) dict res" where
  "dict_insert_range hash t xs = foldE (\<lambda>t x. bindE (dict_insert hash t x) (\<lambda>(_, t). Inr t)) t xs"

definition dict_of_list :: "('k \<Rightarrow> 32 word) \<Rightarrow> ('k \<times> 'v) list \<Rightarrow> ('k, 'v) dict res" where
  "dict_of_list hash xs = dict_insert_range hash dict_empty xs"

definition dict_erase :: "('k \<Rightarrow> 32 word) \<Rightarrow> ('k, 'v) dict \<Rightarrow> 'k \<Rightarrow> (int \<times> ('k, 'v) dict) res" where
  "dict_erase hash t k =
     bindE (lookup hash fst t k) (\<lambda>((index, h), t). do_erase Assert_failed hash fst t index h)"

definition dict_erase_it :: "('k \<Rightarrow> 32 word) \<Rightarrow> ('k, 'v) dict \<Rightarrow> int \<Rightarrow> (int \<times> ('k, 'v) dict) res" where
  "dict_erase_it hash t it =
     guardE (0 \<le> it \<and> it < int (length (entries t))) Undefined_behaviour (
     let h = do_hash hash t (fst (udata (entries t ! nat it)))
     in bindE (do_erase Assert_failed hash fst t it h) (\<lambda>(_, t). Inr (it - 1, t)))"

definition dict_count :: "('k \<Rightarrow> 32 word) \<Rightarrow> ('k, 'v) dict \<Rightarrow> 'k \<Rightarrow> (int \<times> ('k, 'v) dict) res" where
  "dict_count hash t k =
     bindE (lookup hash fst t k) (\<lambda>((i, h), t). Inr (if i < 0 then 0 else 1, t))"

definition dict_count_it ::
  "('k \<Rightarrow> 32 word) \<Rightarrow> ('k, 'v) dict \<Rightarrow> 'k \<Rightarrow> int \<Rightarrow> (int \<times> ('k, 'v) dict) res" where
  "dict_count_it hash t k it =
     bindE (lookup hash fst t k) (\<lambda>((i, h), t). Inr (if i < 0 \<or> i > it then 0 else 1, t))"

definition dict_find :: "('k \<Rightarrow> 32 word) \<Rightarrow> ('k, 'v) dict \<Rightarrow> 'k \<Rightarrow> (int \<times> ('k, 'v) dict) res" where
  "dict_find hash t k = bindE (lookup hash fst t k) (\<lambda>((i, h), t). Inr (if i < 0 then -1 else i, t))"

definition dict_at :: "('k \<Rightarrow> 32 word) \<Rightarrow> ('k, 'v) dict \<Rightarrow> 'k \<Rightarrow> ('v \<times> ('k, 'v) dict) res" where
  "dict_at hash t k =
     bindE (lookup hash fst t k) (\<lambda>((i, h), t).
     if i < 0 then Inl Out_of_range else Inr (snd (udata (entries t ! nat i)), t))"

definition dict_at_default ::
  "('k \<Rightarrow> 32 word) \<Rightarrow> ('k, 'v) dict \<Rightarrow> 'k \<Rightarrow> 'v \<Rightarrow> ('v \<times> ('k, 'v) dict) res" where
  "dict_at_default hash t k defval =
     bindE (lookup hash fst t k) (\<lambda>((i, h), t).
     if i < 0 then Inr (defval, t) else Inr (snd (udata (entries t ! nat i)), t))"

text \<open>\<open>operator[]\<close> returns a reference: the index, to be read or assigned through.\<close>

definition dict_ref :: "('k \<Rightarrow> 32 word) \<Rightarrow> 'v \<Rightarrow> ('k, 'v) dict \<Rightarrow> 'k \<Rightarrow> (int \<times> ('k, 'v) dict) res" where
  "dict_ref hash defval t k =
     bindE (lookup hash fst t k) (\<lambda>((i, h), t).
     if i < 0 then do_insert hash fst t (k, defval) h else Inr (i, t))"

definition dict_deref :: "('k, 'v) dict \<Rightarrow> int \<Rightarrow> 'v" where
  "dict_deref t i = snd (udata (entries t ! nat i))"

definition dict_store :: "('k, 'v) dict \<Rightarrow> int \<Rightarrow> 'v \<Rightarrow> ('k, 'v) dict" where
  "dict_store t i v =
     (let e = entries t ! nat i
      in t\<lparr>entries := (entries t)[nat i := e\<lparr>udata := (fst (udata e), v)\<rparr>]\<rparr>)"

text \<open>\<open>d[k] = v\<close>\<close>

definition dict_put :: "('k \<Rightarrow> 32 word) \<Rightarrow> 'v \<Rightarrow> ('k, 'v) dict \<Rightarrow> 'k \<Rightarrow> 'v \<Rightarrow> ('k, 'v) dict res" where
  "dict_put hash defval t k v = bindE (dict_ref hash defval t k) (\<lambda>(i, t). Inr (dict_store t i v))"

text \<open>Keys are distinct, so \<open>std::sort\<close> with a strict order has one possible outcome.\<close>

definition dict_sort :: "('k :: linorder \<Rightarrow> 32 word) \<Rightarrow> ('k, 'v) dict \<Rightarrow> ('k, 'v) dict res" where
  "dict_sort hash t = do_rehash hash fst (t\<lparr>entries := rev (sort_key (fst \<circ> udata) (entries t))\<rparr>)"

fun dict_equal_loop ::
  "('k \<Rightarrow> 32 word) \<Rightarrow> ('k \<times> 'v) entry_t list \<Rightarrow> ('k, 'v) dict \<Rightarrow> (bool \<times> ('k, 'v) dict) res" where
  "dict_equal_loop hash [] other = Inr (True, other)"
| "dict_equal_loop hash (it # es) other =
     bindE (dict_find hash other (fst (udata it))) (\<lambda>(oit, other).
     if oit = -1 \<or> dict_deref other oit \<noteq> snd (udata it) then Inr (False, other)
     else dict_equal_loop hash es other)"

definition dict_equal ::
  "('k \<Rightarrow> 32 word) \<Rightarrow> ('k, 'v) dict \<Rightarrow> ('k, 'v) dict \<Rightarrow> (bool \<times> ('k, 'v) dict) res" where
  "dict_equal hash t other =
     (if length (entries t) \<noteq> length (entries other) then Inr (False, other)
      else dict_equal_loop hash (entries t) other)"

definition dict_not_equal ::
  "('k \<Rightarrow> 32 word) \<Rightarrow> ('k, 'v) dict \<Rightarrow> ('k, 'v) dict \<Rightarrow> (bool \<times> ('k, 'v) dict) res" where
  "dict_not_equal hash t other = bindE (dict_equal hash t other) (\<lambda>(b, other). Inr (\<not> b, other))"

definition dict_hash :: "('k \<Rightarrow> 32 word) \<Rightarrow> ('v \<Rightarrow> 32 word) \<Rightarrow> ('k, 'v) dict \<Rightarrow> 32 word" where
  "dict_hash hk hv t =
     foldl (\<lambda>h e. (h XOR hk (fst (udata e))) XOR hv (snd (udata e))) mkhash_init (entries t)"

definition dict_reserve :: "('k, 'v) dict \<Rightarrow> nat \<Rightarrow> ('k, 'v) dict" where
  "dict_reserve t n = table_reserve t n"

definition dict_size :: "('k, 'v) dict \<Rightarrow> nat" where
  "dict_size t = length (entries t)"

definition dict_is_empty :: "('k, 'v) dict \<Rightarrow> bool" where
  "dict_is_empty t \<longleftrightarrow> entries t = []"

text \<open>Iteration starts at the last entry and goes down.\<close>

definition dict_begin :: "('k, 'v) dict \<Rightarrow> int" where
  "dict_begin t = int (length (entries t)) - 1"

definition dict_element :: "('k, 'v) dict \<Rightarrow> int \<Rightarrow> int" where
  "dict_element t n = int (length (entries t)) - 1 - n"

definition dict_items :: "('k, 'v) dict \<Rightarrow> ('k \<times> 'v) list" where
  "dict_items t = map udata (rev (entries t))"

section \<open>The finite map of a table\<close>

definition dict_inv :: "('k \<Rightarrow> 32 word) \<Rightarrow> ('k, 'v) dict \<Rightarrow> bool" where
  "dict_inv hash t \<longleftrightarrow> table_inv hash fst t"

definition dict_map :: "('k, 'v) dict \<Rightarrow> ('k \<rightharpoonup> 'v)" where
  "dict_map t = map_of (elems t)"

text \<open>Room for \<open>n\<close> more keys: the capacity at most doubles past the number of entries.\<close>

definition fits :: "nat \<Rightarrow> 'u table \<Rightarrow> bool" where
  "fits n t \<longleftrightarrow> room t \<and> 6 * (length (entries t) + n) \<le> max_table"

lemma fits_room: "fits n t \<Longrightarrow> room t"
  by (simp add: fits_def)

lemma fits_mono: "fits n t \<Longrightarrow> m \<le> n \<Longrightarrow> fits m t"
  by (simp add: fits_def)

lemma fits_same:
  "fits n t \<Longrightarrow> capacity t' = capacity t \<Longrightarrow> length (entries t') \<le> length (entries t) \<Longrightarrow> fits n t'"
  by (simp add: fits_def room_def)

lemma fits_grow:
  assumes "fits (Suc n) t" "capacity t' \<le> max (capacity t) (max 1 (2 * length (entries t)))"
    "length (entries t') \<le> Suc (length (entries t))"
  shows "fits n t'"
proof -
  have "capacity t' \<le> capacity t \<or> capacity t' \<le> 1 \<or> capacity t' \<le> 2 * length (entries t)"
    using assms(2) by linarith
  then show ?thesis using assms(1,3) by (auto simp: fits_def room_def max_table_def)
qed

lemma dom_dict_map: "dom (dict_map t) = fst ` set (elems t)"
  by (simp add: dict_map_def dom_map_of_conv_image_fst)

lemma dict_map_nth:
  assumes "dict_inv hash t" "i < length (entries t)"
  shows "dict_map t (fst (elems t ! i)) = Some (snd (elems t ! i))"
proof -
  have "distinct (map fst (elems t))" using assms(1) by (simp add: dict_inv_def table_inv_def)
  moreover have "elems t ! i \<in> set (elems t)" using assms(2) by simp
  ultimately show ?thesis by (simp add: dict_map_def)
qed

text \<open>\<open>i\<close> is the index \<open>do_lookup\<close> gives for \<open>k\<close>: that of its entry, or -1.\<close>

definition dict_index :: "('k, 'v) dict \<Rightarrow> 'k \<Rightarrow> int \<Rightarrow> bool" where
  "dict_index t k i \<longleftrightarrow> (case dict_map t k of None \<Rightarrow> i = -1
     | Some v \<Rightarrow> 0 \<le> i \<and> nat i < length (entries t) \<and> elems t ! nat i = (k, v))"

lemma dict_index_of:
  assumes "dict_inv hash t" "index_of fst t k i" shows "dict_index t k i"
proof (cases "k \<in> fst ` set (elems t)")
  case True
  then have i: "0 \<le> i" "nat i < length (entries t)" "fst (elems t ! nat i) = k"
    using assms(2) by (simp_all add: index_of_def)
  then show ?thesis
    using dict_map_nth [OF assms(1) i(2)] by (simp add: dict_index_def prod_eq_iff)
next
  case False
  then have "dict_map t k = None" using dom_dict_map [of t] by blast
  then show ?thesis using assms(2) False by (simp add: dict_index_def index_of_def)
qed

lemma dict_lookup_ok:
  assumes "dict_inv hash t" "room t"
  obtains i h t' where "lookup hash fst t k = Inr ((i, h), t')" "dict_inv hash t'"
    "elems t' = elems t" "dict_index t' k i" "capacity t' = capacity t"
    "hashtable t' \<noteq> [] \<longrightarrow> h = do_hash hash t' k"
proof -
  obtain i h t' where l: "lookup hash fst t k = Inr ((i, h), t')" "table_inv hash fst t'"
    "elems t' = elems t" "capacity t' = capacity t" "index_of fst t k i"
    "hashtable t' \<noteq> [] \<longrightarrow> h = do_hash hash t' k" "hashtable t' = [] \<longleftrightarrow> hashtable t = []"
    by (rule lookup_ok [OF assms(1) [unfolded dict_inv_def] assms(2)])
  have "index_of fst t' k i" using l(5) by (simp only: index_of_elems [OF l(3)])
  then show thesis
    using that [OF l(1) _ l(3) _ l(4,6)] l(2) dict_index_of [of hash t'] by (simp add: dict_inv_def)
qed

lemma same_elems: "elems t' = elems t \<Longrightarrow> dict_map t' = dict_map t \<and> length (entries t') = length (entries t)"
  by (metis dict_map_def length_elems)

text \<open>C11: lookups are those of the finite map: \<open>find\<close> gives the index of the entry or \<open>end()\<close>, \<open>count\<close>
  tests membership, \<open>at\<close> returns the value or throws \<open>std::out_of_range\<close>, and the table still stands
  for the same map.\<close>

theorem dict_lookup_correct:
  assumes "dict_inv hash t" "room t"
  shows "\<exists>i t'. dict_find hash t k = Inr (i, t') \<and> dict_index t' k i \<and>
    dict_count hash t k = Inr (if k \<in> dom (dict_map t) then 1 else 0, t') \<and>
    dict_at hash t k = (case dict_map t k of None \<Rightarrow> Inl Out_of_range | Some v \<Rightarrow> Inr (v, t')) \<and>
    dict_at_default hash t k d = Inr (case dict_map t k of None \<Rightarrow> d | Some v \<Rightarrow> v, t') \<and>
    dict_inv hash t' \<and> elems t' = elems t"
proof -
  obtain i h t' where l: "lookup hash fst t k = Inr ((i, h), t')" "dict_inv hash t'"
    "elems t' = elems t" "dict_index t' k i" "capacity t' = capacity t"
    "hashtable t' \<noteq> [] \<longrightarrow> h = do_hash hash t' k"
    by (rule dict_lookup_ok [OF assms])
  have m: "dict_map t' = dict_map t" using same_elems [OF l(3)] by simp
  show ?thesis
  proof (cases "dict_map t k")
    case None
    then have "i = -1" using l(4) m by (simp add: dict_index_def)
    then show ?thesis
      using None l(2-4)
      by (auto simp: dict_find_def dict_count_def dict_at_def dict_at_default_def l(1) dom_def)
  next
    case (Some v)
    then have "0 \<le> i" "nat i < length (entries t')" "elems t' ! nat i = (k, v)"
      using l(4) m by (simp_all add: dict_index_def)
    then have "0 \<le> i" "snd (udata (entries t' ! nat i)) = v" by (simp_all add: elems_nth)
    then show ?thesis
      using Some l(2-4)
      by (auto simp: dict_find_def dict_count_def dict_at_def dict_at_default_def l(1) dom_def)
  qed
qed

text \<open>A table with one entry, the concrete table of the examples.\<close>

definition dict_one :: "'k \<Rightarrow> 'v \<Rightarrow> ('k, 'v) dict" where
  "dict_one k v = \<lparr>hashtable = [0], entries = [\<lparr>udata = (k, v), nxt = -1\<rparr>], capacity = 1\<rparr>"

lemma dict_one_ok:
  "dict_inv hash (dict_one k v)" "fits 2 (dict_one k v)" "room (dict_one k v)"
  "elems (dict_one k v) = [(k, v)]" "dict_map (dict_one k v) = [k \<mapsto> v]"
proof -
  have "chained hash fst (dict_one k v)"
    unfolding chained_def
  proof (intro allI impI)
    fix h assume "h < length (hashtable (dict_one k v))"
    then have "h = 0" by (simp add: dict_one_def)
    then have "lseg (entries (dict_one k v)) (hashtable (dict_one k v) ! h) [0] (-1) \<and> distinct [0::nat] \<and>
        set [0] = bucket hash fst (dict_one k v) h"
      by (auto simp: dict_one_def bucket_def do_hash_def)
    then show "\<exists>c. lseg (entries (dict_one k v)) (hashtable (dict_one k v) ! h) c (-1) \<and> distinct c \<and>
        set c = bucket hash fst (dict_one k v) h" by (rule exI)
  qed
  then show "dict_inv hash (dict_one k v)"
    by (simp add: dict_inv_def table_inv_def dict_one_def elems_def max_table_def)
  show "fits 2 (dict_one k v)" "room (dict_one k v)"
    by (simp_all add: fits_def room_def dict_one_def max_table_def)
  show "elems (dict_one k v) = [(k, v)]" "dict_map (dict_one k v) = [k \<mapsto> v]"
    by (simp_all add: elems_def dict_one_def dict_map_def)
qed

theorem dict_lookup_correct_witness:
  "\<exists>t'. dict_at (\<lambda>k. word_of_int k) (dict_one (3 :: int) ''c'') 3 = Inr (''c'', t')"
proof -
  from dict_lookup_correct [OF dict_one_ok(1,3), of "\<lambda>k. word_of_int k" 3 "''c''" 3 "[]"]
  obtain t' where "dict_at (\<lambda>k. word_of_int k) (dict_one (3 :: int) ''c'') 3 =
      (case dict_map (dict_one (3 :: int) ''c'') 3 of None \<Rightarrow> Inl Out_of_range | Some v \<Rightarrow> Inr (v, t'))" by blast
  then show ?thesis by (simp add: dict_one_ok)
qed

lemma dict_insert_new: "dict_insert hash t x = insert_new hash fst t x"
  by (simp add: dict_insert_def insert_new_def)

lemma dict_emplace_new: "dict_emplace hash t k v = insert_new hash fst t (k, v)"
  by (simp add: dict_emplace_def insert_new_def)

lemma dict_insert_key_new: "dict_insert_key hash d t k = insert_new hash fst t (k, d)"
  by (simp add: dict_insert_key_def insert_new_def)

lemma dict_insert_new_ok:
  assumes "dict_inv hash t" "fits (Suc n) t"
  obtains i t' where "insert_new hash fst t (k, v) = Inr ((i, k \<notin> dom (dict_map t)), t')"
    "dict_inv hash t'" "fits n t'" "dict_index t' k i"
    "elems t' = (if k \<in> dom (dict_map t) then elems t else elems t @ [(k, v)])"
    "dict_map t' = (if k \<in> dom (dict_map t) then dict_map t else (dict_map t)(k \<mapsto> v))"
proof -
  obtain i b t' where r: "insert_new hash fst t (k, v) = Inr ((i, b), t')" "table_inv hash fst t'"
    "elems t' = (if fst (k, v) \<in> fst ` set (elems t) then elems t else elems t @ [(k, v)])"
    "b \<longleftrightarrow> fst (k, v) \<notin> fst ` set (elems t)" "index_of fst t' (fst (k, v)) i"
    "capacity t' \<le> max (capacity t) (max 1 (2 * length (entries t)))"
    by (rule insert_new_ok [OF assms(1) [unfolded dict_inv_def] fits_room [OF assms(2)]])
  note d = dom_dict_map [of t]
  have i: "dict_inv hash t'" using r(2) by (simp add: dict_inv_def)
  have el: "elems t' = (if k \<in> dom (dict_map t) then elems t else elems t @ [(k, v)])"
    using r(3) by (simp add: d)
  then have "length (entries t') \<le> Suc (length (entries t))"
    by (metis length_append_singleton length_elems le_SucI order_refl)
  then have f: "fits n t'" by (rule fits_grow [OF assms(2) r(6)])
  have "dict_map t' = (if k \<in> dom (dict_map t) then dict_map t else (dict_map t)(k \<mapsto> v))"
    unfolding dict_map_def el by (auto simp: dict_map_def [symmetric] map_add_def fun_eq_iff split: option.splits)
  moreover have "b \<longleftrightarrow> k \<notin> dom (dict_map t)" using r(4) by (simp add: d)
  moreover have "dict_index t' k i" using dict_index_of [OF i] r(5) by simp
  ultimately show thesis using that r(1) i f el by simp
qed

text \<open>C10: \<open>insert\<close> and \<open>emplace\<close> add a key that is not in the map and leave the map of a key that is,
  say which of the two happened, and return the index of the entry of the key; new entries go to the
  end, so the position of every other entry is unchanged.\<close>

theorem dict_insert_correct:
  assumes "dict_inv hash t" "fits (Suc n) t"
  shows "\<exists>i t'. dict_insert hash t (k, v) = Inr ((i, k \<notin> dom (dict_map t)), t') \<and>
    dict_emplace hash t k v = dict_insert hash t (k, v) \<and> dict_inv hash t' \<and> fits n t' \<and>
    dict_index t' k i \<and>
    elems t' = (if k \<in> dom (dict_map t) then elems t else elems t @ [(k, v)]) \<and>
    dict_map t' = (if k \<in> dom (dict_map t) then dict_map t else (dict_map t)(k \<mapsto> v))"
proof -
  obtain i t' where r: "insert_new hash fst t (k, v) = Inr ((i, k \<notin> dom (dict_map t)), t')"
    "dict_inv hash t'" "fits n t'" "dict_index t' k i"
    "elems t' = (if k \<in> dom (dict_map t) then elems t else elems t @ [(k, v)])"
    "dict_map t' = (if k \<in> dom (dict_map t) then dict_map t else (dict_map t)(k \<mapsto> v))"
    by (rule dict_insert_new_ok [OF assms])
  show ?thesis
    unfolding dict_insert_new dict_emplace_new using r by blast
qed

theorem dict_insert_correct_witness:
  "\<exists>i t'. dict_insert (\<lambda>k. word_of_int k) (dict_one (3 :: int) ''c'') (4, ''d'') = Inr ((i, True), t') \<and>
    dict_map t' = [3 \<mapsto> ''c'', 4 \<mapsto> ''d'']"
proof -
  have f: "fits (Suc 1) (dict_one (3 :: int) ''c'')" using dict_one_ok(2) by (simp add: numeral_2_eq_2)
  show ?thesis
    using dict_insert_correct [OF dict_one_ok(1) f, of "\<lambda>k. word_of_int k" 4 "''d''"]
    by (auto simp: dict_one_ok)
qed

lemma dict_erase_index:
  assumes inv: "dict_inv hash t" and i: "i < length (entries t)"
  obtains t' where "do_erase bad hash fst t (int i) (do_hash hash t (fst (elems t ! i))) = Inr (1, t')"
    "dict_inv hash t'" "elems t' = butlast ((elems t)[i := last (elems t)])" "capacity t' = capacity t"
    "dict_map t' = (dict_map t)(fst (elems t ! i) := None)"
proof -
  obtain t' where t': "do_erase bad hash fst t (int i) (do_hash hash t (fst (elems t ! i))) = Inr (1, t')"
    "table_inv hash fst t'" "elems t' = butlast ((elems t)[i := last (elems t)])"
    "capacity t' = capacity t"
    by (rule do_erase_ok [OF inv [unfolded dict_inv_def] i refl])
  have dk: "distinct (map fst (elems t))" "distinct (map fst (elems t'))"
    using inv t'(2) by (simp_all add: dict_inv_def table_inv_def)
  have "distinct (elems t)" using dk(1) by (simp add: distinct_map)
  then have s: "set (elems t') = set (elems t) - {elems t ! i}"
    unfolding t'(3) by (rule distinct_move_last) (simp add: i)
  have "dict_map t' k = ((dict_map t)(fst (elems t ! i) := None)) k" for k
  proof -
    obtain a b where ab: "elems t ! i = (a, b)" by fastforce
    then have "(a, b) \<in> set (elems t)" using i by (metis length_elems nth_mem)
    then have ne: "(a, v) \<in> set (elems t) \<longleftrightarrow> v = b" for v
      using map_of_eq_Some_iff [OF dk(1)] by (metis option.inject)
    have "dict_map t' k = Some v \<longleftrightarrow> ((dict_map t)(fst (elems t ! i) := None)) k = Some v" for v
      using ne by (auto simp: ab dict_map_def map_of_eq_Some_iff [OF dk(2)] map_of_eq_Some_iff [OF dk(1)] s)
    then show ?thesis by (metis not_Some_eq)
  qed
  then have "dict_map t' = (dict_map t)(fst (elems t ! i) := None)" by (rule ext)
  then show thesis by (rule that [OF t'(1) _ t'(3,4), rotated]) (simp add: dict_inv_def t'(2))
qed

text \<open>The last entry moves to the place of the removed one.\<close>

definition moved_last :: "'a list \<Rightarrow> nat \<Rightarrow> 'a list" where
  "moved_last xs i = butlast (xs[i := last xs])"

lemma dict_erase_elems:
  assumes "dict_inv hash t" "fits n t"
  shows "\<exists>t'. dict_erase hash t k = Inr (if k \<in> dom (dict_map t) then 1 else 0, t') \<and>
    dict_inv hash t' \<and> fits n t' \<and> dict_map t' = (dict_map t)(k := None) \<and>
    (k \<notin> dom (dict_map t) \<longrightarrow> elems t' = elems t) \<and>
    (\<forall>v. dict_map t k = Some v \<longrightarrow> (\<exists>i < length (elems t). elems t ! i = (k, v) \<and> elems t' = moved_last (elems t) i))"
proof -
  obtain i h t1 where l: "lookup hash fst t k = Inr ((i, h), t1)" "dict_inv hash t1"
    "elems t1 = elems t" "dict_index t1 k i" "capacity t1 = capacity t"
    "hashtable t1 \<noteq> [] \<longrightarrow> h = do_hash hash t1 k"
    by (rule dict_lookup_ok [OF assms(1) fits_room [OF assms(2)]])
  have m: "dict_map t1 = dict_map t" "length (entries t1) = length (entries t)"
    using same_elems [OF l(3)] by simp_all
  have f: "fits n t1" by (rule fits_same [OF assms(2) l(5)]) (simp add: m)
  show ?thesis
  proof (cases "dict_map t k")
    case None
    then have "i = -1" using l(4) m by (simp add: dict_index_def)
    then have "dict_erase hash t k = Inr (0, t1)"
      using l(1) by (simp add: dict_erase_def do_erase_def)
    moreover have "(dict_map t)(k := None) = dict_map t" using None by (simp add: fun_upd_idem)
    ultimately show ?thesis using None l(2,3) m f by (auto simp: domIff)
  next
    case (Some v)
    then have i: "0 \<le> i" "nat i < length (entries t1)" "elems t1 ! nat i = (k, v)"
      using l(4) m by (simp_all add: dict_index_def)
    have ne: "hashtable t1 \<noteq> []" using i(2) l(2) by (auto simp: dict_inv_def table_inv_def)
    obtain t' where t': "do_erase Assert_failed hash fst t1 (int (nat i)) (do_hash hash t1 (fst (elems t1 ! nat i))) = Inr (1, t')"
      "dict_inv hash t'" "elems t' = butlast ((elems t1)[nat i := last (elems t1)])" "capacity t' = capacity t1"
      "dict_map t' = (dict_map t1)(fst (elems t1 ! nat i) := None)"
      by (rule dict_erase_index [OF l(2) i(2)])
    have "dict_erase hash t k = Inr (1, t')"
      using t'(1) i l(1,6) ne by (simp add: dict_erase_def)
    moreover have "length (entries t') \<le> length (entries t1)"
      using t'(3) by (metis diff_le_self length_butlast length_elems length_list_update)
    then have "fits n t'" by (intro fits_same [OF f t'(4)])
    moreover have "\<exists>j < length (elems t). elems t ! j = (k, v) \<and> elems t' = moved_last (elems t) j"
      using i(2,3) t'(3) m(2) unfolding l(3) by (intro exI [of _ "nat i"]) (simp add: moved_last_def length_elems)
    ultimately show ?thesis using Some t'(2,5) i(3) m by (auto simp: dom_def)
  qed
qed

lemma dict_erase_ok:
  assumes "dict_inv hash t" "fits n t"
  shows "\<exists>t'. dict_erase hash t k = Inr (if k \<in> dom (dict_map t) then 1 else 0, t') \<and>
    dict_inv hash t' \<and> fits n t' \<and> dict_map t' = (dict_map t)(k := None)"
  using dict_erase_elems [OF assms, of k] by blast

text \<open>C12: \<open>erase\<close> removes the key from the map and returns how many entries it removed; the last entry
  takes the place of the removed one, and when the key is absent the entries stay as they are.\<close>

theorem dict_erase_correct:
  assumes "dict_inv hash t" "fits n t"
  shows "\<exists>t'. dict_erase hash t k = Inr (if k \<in> dom (dict_map t) then 1 else 0, t') \<and>
    dict_inv hash t' \<and> fits n t' \<and> dict_map t' = (dict_map t)(k := None) \<and>
    (k \<notin> dom (dict_map t) \<longrightarrow> elems t' = elems t) \<and>
    (\<forall>v. dict_map t k = Some v \<longrightarrow> (\<exists>i < length (elems t). elems t ! i = (k, v) \<and> elems t' = moved_last (elems t) i))"
  using assms by (rule dict_erase_elems)

theorem dict_erase_correct_witness:
  "\<exists>t'. dict_erase (\<lambda>k. word_of_int k) (dict_one (3 :: int) ''c'') 3 = Inr (1, t') \<and> dict_map t' = Map.empty"
  using dict_erase_correct [OF dict_one_ok(1,2), of "\<lambda>k. word_of_int k" 3 "''c''" 3]
  by (auto simp: dict_one_ok)

section \<open>Assignment through a reference\<close>

lemma dict_ref_ok:
  assumes "dict_inv hash t" "fits (Suc n) t"
  obtains i t' where "dict_ref hash d t k = Inr (i, t')" "dict_inv hash t'" "fits n t'"
    "dict_map t' = (if k \<in> dom (dict_map t) then dict_map t else (dict_map t)(k \<mapsto> d))"
    "0 \<le> i" "nat i < length (entries t')" "elems t' ! nat i = (k, the (dict_map t' k))"
proof -
  have e: "insert_new hash fst t (k, d) = bindE (lookup hash fst t k) (\<lambda>((i, h), t).
      if i \<ge> 0 then Inr ((i, False), t)
      else bindE (do_insert hash fst t (k, d) h) (\<lambda>(i, t). Inr ((i, True), t)))"
    by (simp add: insert_new_def)
  obtain i t' where r: "insert_new hash fst t (k, d) = Inr ((i, k \<notin> dom (dict_map t)), t')"
    "dict_inv hash t'" "fits n t'" "dict_index t' k i"
    "elems t' = (if k \<in> dom (dict_map t) then elems t else elems t @ [(k, d)])"
    "dict_map t' = (if k \<in> dom (dict_map t) then dict_map t else (dict_map t)(k \<mapsto> d))"
    by (rule dict_insert_new_ok [OF assms])
  have "dict_ref hash d t k = Inr (i, t')"
    using r(1) unfolding e
    by (auto simp: dict_ref_def not_le split: if_splits prod.splits)
  moreover have "\<exists>v. dict_map t' k = Some v"
    using r(6) by (auto split: if_splits)
  then have "0 \<le> i" "nat i < length (entries t')" "elems t' ! nat i = (k, the (dict_map t' k))"
    using r(4) by (auto simp: dict_index_def)
  ultimately show thesis using that r(2,3,6) by blast
qed

lemma lseg_links:
  "map nxt es = map nxt es' \<Longrightarrow> lseg es s xs e \<longleftrightarrow> lseg es' s xs e"
proof (induction xs arbitrary: s)
  case (Cons x xs)
  have len: "length es = length es'" using Cons.prems by (rule map_eq_imp_length_eq)
  show ?case
  proof (cases "x < length es")
    case True
    then have "nxt (es ! x) = nxt (es' ! x)"
      using arg_cong [OF Cons.prems, of "\<lambda>ns. ns ! x"] len by simp
    then show ?thesis using True len by (simp add: Cons.IH [OF Cons.prems])
  next
    case False
    then show ?thesis using len by simp
  qed
qed simp

lemma table_inv_same_keys:
  assumes "table_inv hash key t" "hashtable t' = hashtable t" "capacity t' = capacity t"
    "map nxt (entries t') = map nxt (entries t)" "map key (elems t') = map key (elems t)"
  shows "table_inv hash key t'"
proof -
  have l: "length (entries t') = length (entries t)" using assms(4) by (metis length_map)
  have "do_hash hash t' k = do_hash hash t k" for k by (rule do_hash_cong) (simp add: assms(2))
  moreover have "key (udata (entries t' ! i)) = key (udata (entries t ! i))" if "i < length (entries t)" for i
    using arg_cong [OF assms(5), of "\<lambda>xs. xs ! i"] that l by (simp add: elems_def)
  ultimately have "bucket hash key t' h = bucket hash key t h" for h
    using l by (auto simp: bucket_def)
  then have "chained hash key t'"
    using assms(1) lseg_links [OF assms(4)] by (simp add: table_inv_def chained_def assms(2))
  then show ?thesis using assms l by (auto simp: table_inv_def)
qed

lemma map_of_update:
  assumes "distinct (map fst xs)" "i < length xs" "fst (xs ! i) = k"
  shows "map_of (xs[i := (k, v)]) = (map_of xs)(k \<mapsto> v)"
  using assms
proof (induction xs arbitrary: i)
  case (Cons x xs)
  show ?case
  proof (cases i)
    case 0
    then show ?thesis using Cons.prems by (auto simp: fun_eq_iff)
  next
    case (Suc j)
    then have "k \<in> fst ` set xs" using Cons.prems by (metis Suc_less_eq image_eqI length_Cons nth_Cons_Suc nth_mem)
    moreover have "fst x \<notin> fst ` set xs" using Cons.prems(1) by simp
    ultimately have "fst x \<noteq> k" by metis
    moreover have "map_of (xs[j := (k, v)]) = (map_of xs)(k \<mapsto> v)"
      using Cons.prems Suc by (intro Cons.IH) auto
    ultimately show ?thesis using Suc by (auto simp: fun_eq_iff)
  qed
qed simp

lemma dict_store_ok:
  assumes "dict_inv hash t" "0 \<le> i" "nat i < length (entries t)" "fst (elems t ! nat i) = k"
  shows "dict_inv hash (dict_store t i v)" "dict_map (dict_store t i v) = (dict_map t)(k \<mapsto> v)"
    "fits n t \<Longrightarrow> fits n (dict_store t i v)" "map fst (elems (dict_store t i v)) = map fst (elems t)"
proof -
  let ?e = "entries t ! nat i"
  have k: "fst (udata ?e) = k" using assms(3,4) by (simp add: elems_nth)
  have st: "dict_store t i v = t\<lparr>entries := (entries t)[nat i := ?e\<lparr>udata := (k, v)\<rparr>]\<rparr>"
    by (simp add: dict_store_def k)
  have el: "elems (dict_store t i v) = (elems t)[nat i := (k, v)]"
    by (simp add: st elems_def map_update)
  have nx: "map nxt (entries (dict_store t i v)) = map nxt (entries t)"
    using assms(3) by (simp add: st map_update list_update_same_conv)
  show ke: "map fst (elems (dict_store t i v)) = map fst (elems t)"
    using assms(3,4) by (simp add: el map_update list_update_same_conv)
  show "dict_inv hash (dict_store t i v)"
    unfolding dict_inv_def
    by (rule table_inv_same_keys [OF assms(1) [unfolded dict_inv_def] _ _ nx ke]) (simp_all add: st)
  have "distinct (map fst (elems t))" using assms(1) by (simp add: dict_inv_def table_inv_def)
  then show "dict_map (dict_store t i v) = (dict_map t)(k \<mapsto> v)"
    unfolding dict_map_def el using assms(3,4) by (intro map_of_update) simp_all
  show "fits n t \<Longrightarrow> fits n (dict_store t i v)"
    by (rule fits_same [of n t]) (simp_all add: st)
qed

lemma dict_put_ok:
  assumes "dict_inv hash t" "fits (Suc n) t"
  shows "\<exists>t'. dict_put hash d t k v = Inr t' \<and> dict_inv hash t' \<and> fits n t' \<and>
    dict_map t' = (dict_map t)(k \<mapsto> v)"
proof -
  obtain i t' where r: "dict_ref hash d t k = Inr (i, t')" "dict_inv hash t'" "fits n t'"
    "dict_map t' = (if k \<in> dom (dict_map t) then dict_map t else (dict_map t)(k \<mapsto> d))"
    "0 \<le> i" "nat i < length (entries t')" "elems t' ! nat i = (k, the (dict_map t' k))"
    by (rule dict_ref_ok [OF assms])
  have "fst (elems t' ! nat i) = k" by (simp add: r(7))
  note s = dict_store_ok [OF r(2,5,6) this, where v = v]
  have "dict_map (dict_store t' i v) = (dict_map t)(k \<mapsto> v)"
    unfolding s(2) r(4) by (simp add: fun_eq_iff)
  then show ?thesis
    using s(1) s(3) [OF r(3)] r(1) by (auto simp: dict_put_def)
qed

section \<open>Equality and hashing\<close>

lemma dict_find_ok:
  assumes "dict_inv hash t" "room t"
  obtains i t' where "dict_find hash t k = Inr (i, t')" "dict_index t' k i" "dict_inv hash t'"
    "elems t' = elems t" "capacity t' = capacity t" "i \<ge> -1"
proof -
  obtain i h t' where l: "lookup hash fst t k = Inr ((i, h), t')" "dict_inv hash t'"
    "elems t' = elems t" "dict_index t' k i" "capacity t' = capacity t"
    "hashtable t' \<noteq> [] \<longrightarrow> h = do_hash hash t' k"
    by (rule dict_lookup_ok [OF assms])
  have "i = -1 \<or> 0 \<le> i" using l(4) by (auto simp: dict_index_def split: option.splits)
  then have "dict_find hash t k = Inr (i, t')" by (auto simp: dict_find_def l(1))
  then show thesis using that l \<open>i = -1 \<or> 0 \<le> i\<close> by auto
qed

lemma dict_equal_loop_ok:
  assumes "dict_inv hash other" "room other"
  shows "\<exists>other'. dict_equal_loop hash es other =
      Inr (\<forall>e\<in>set es. dict_map other (fst (udata e)) = Some (snd (udata e)), other') \<and>
    dict_inv hash other' \<and> elems other' = elems other"
  using assms
proof (induction es arbitrary: other)
  case (Cons e es)
  obtain i t where t: "dict_find hash other (fst (udata e)) = Inr (i, t)" "dict_index t (fst (udata e)) i"
    "dict_inv hash t" "elems t = elems other" "capacity t = capacity other" "i \<ge> -1"
    by (rule dict_find_ok [OF Cons.prems])
  have m: "dict_map t = dict_map other" using same_elems [OF t(4)] by simp
  have room: "room t" using Cons.prems(2) t(5) by (simp add: room_def)
  have c: "(i = -1 \<or> dict_deref t i \<noteq> snd (udata e)) \<longleftrightarrow>
      dict_map other (fst (udata e)) \<noteq> Some (snd (udata e))"
  proof (cases "dict_map other (fst (udata e))")
    case None
    then show ?thesis using t(2) by (simp add: dict_index_def m)
  next
    case (Some v)
    then have "0 \<le> i" "nat i < length (entries t)" "elems t ! nat i = (fst (udata e), v)"
      using t(2) by (simp_all add: dict_index_def m)
    then have "0 \<le> i" "dict_deref t i = v" by (simp_all add: dict_deref_def elems_nth)
    then show ?thesis using Some by auto
  qed
  show ?case
  proof (cases "dict_map other (fst (udata e)) = Some (snd (udata e))")
    case True
    obtain t' where "dict_equal_loop hash es t =
        Inr (\<forall>e\<in>set es. dict_map other (fst (udata e)) = Some (snd (udata e)), t')"
      "dict_inv hash t'" "elems t' = elems other"
      using Cons.IH [OF t(3) room] unfolding m t(4) by blast
    moreover have "dict_equal_loop hash (e # es) other = dict_equal_loop hash es t"
      using True c by (simp add: t(1))
    ultimately show ?thesis using True by auto
  next
    case False
    then have "dict_equal_loop hash (e # es) other = Inr (False, t)" using c by (simp add: t(1))
    then show ?thesis using False t(3,4) by auto
  qed
qed simp

lemma dict_distinct:
  assumes "dict_inv hash t"
  shows "distinct (map fst (elems t))" "distinct (elems t)"
  using assms by (simp_all add: dict_inv_def table_inv_def distinct_map)

lemma dict_map_mem:
  assumes "dict_inv hash t" shows "dict_map t k = Some v \<longleftrightarrow> (k, v) \<in> set (elems t)"
  using map_of_eq_Some_iff [OF dict_distinct(1) [OF assms]] by (simp add: dict_map_def)

lemma dict_map_eq_iff:
  assumes "dict_inv hash t" "dict_inv hash' t'"
  shows "dict_map t = dict_map t' \<longleftrightarrow> set (elems t) = set (elems t')"
proof
  assume e: "dict_map t = dict_map t'"
  have "(k, v) \<in> set (elems t) \<longleftrightarrow> (k, v) \<in> set (elems t')" for k v
    unfolding dict_map_mem [OF assms(1), symmetric] dict_map_mem [OF assms(2), symmetric] e ..
  then show "set (elems t) = set (elems t')" by auto
next
  assume e: "set (elems t) = set (elems t')"
  have "dict_map t k = dict_map t' k" for k
    by (metis dict_map_mem [OF assms(1)] dict_map_mem [OF assms(2)] e not_Some_eq)
  then show "dict_map t = dict_map t'" by (rule ext)
qed

lemma dict_equal_iff:
  assumes "dict_inv hash t" "dict_inv hash u"
  shows "length (entries t) = length (entries u) \<and>
      (\<forall>e\<in>set (entries t). dict_map u (fst (udata e)) = Some (snd (udata e))) \<longleftrightarrow>
    dict_map t = dict_map u"
proof -
  have "(\<forall>e\<in>set (entries t). dict_map u (fst (udata e)) = Some (snd (udata e))) \<longleftrightarrow>
      set (elems t) \<subseteq> set (elems u)"
    by (auto simp: dict_map_mem [OF assms(2)] elems_def)
  moreover have "card (set (elems t)) = length (entries t)" "card (set (elems u)) = length (entries u)"
    using dict_distinct(2) [OF assms(1)] dict_distinct(2) [OF assms(2)] by (simp_all add: distinct_card)
  ultimately show ?thesis
    unfolding dict_map_eq_iff [OF assms] by (metis card_subset_eq finite_set order_refl)
qed

lemma dict_hash_elems:
  "dict_hash hk hv t = fold (\<lambda>x h. (h XOR hk (fst x)) XOR hv (snd x)) (elems t) mkhash_init"
  by (simp add: dict_hash_def elems_def foldl_conv_fold fold_map comp_def)

lemma dict_hash_cong:
  assumes "mset (elems t) = mset (elems u)"
  shows "dict_hash hk hv t = dict_hash hk hv u"
proof -
  have "fold (\<lambda>x h. (h XOR hk (fst x)) XOR hv (snd x)) (elems t) =
      fold (\<lambda>x h. (h XOR hk (fst x)) XOR hv (snd x)) (elems u)"
    by (rule fold_multiset_equiv [OF _ assms]) (simp add: fun_eq_iff ac_simps)
  then show ?thesis by (simp add: dict_hash_elems)
qed

text \<open>C13: \<open>operator==\<close> decides equality of the two finite maps, whatever the order of insertion and the
  table sizes, and equal dictionaries have equal hashes.\<close>

theorem dict_equal_correct:
  assumes "dict_inv hash t" "dict_inv hash u" "room u"
  shows "(\<exists>u'. dict_equal hash t u = Inr (dict_map t = dict_map u, u') \<and> dict_inv hash u' \<and>
      elems u' = elems u) \<and>
    (dict_map t = dict_map u \<longrightarrow> dict_hash hk hv t = dict_hash hk hv u)"
proof
  show "\<exists>u'. dict_equal hash t u = Inr (dict_map t = dict_map u, u') \<and> dict_inv hash u' \<and>
      elems u' = elems u"
  proof (cases "length (entries t) = length (entries u)")
    case True
    then show ?thesis
      using dict_equal_loop_ok [OF assms(2,3), of "entries t"] dict_equal_iff [OF assms(1,2)]
      by (simp add: dict_equal_def)
  next
    case False
    then show ?thesis
      using dict_equal_iff [OF assms(1,2)] assms(2) by (auto simp: dict_equal_def)
  qed
  show "dict_map t = dict_map u \<longrightarrow> dict_hash hk hv t = dict_hash hk hv u"
    using dict_distinct(2) [OF assms(1)] dict_distinct(2) [OF assms(2)]
    by (auto simp: dict_map_eq_iff [OF assms(1,2)] set_eq_iff_mset_eq_distinct intro: dict_hash_cong)
qed

theorem dict_equal_correct_witness:
  "\<exists>u'. dict_equal (\<lambda>k. word_of_int k) (dict_one (3 :: int) ''c'') (dict_one 3 ''d'') = Inr (False, u')"
proof -
  have "dict_map (dict_one (3 :: int) ''c'') \<noteq> dict_map (dict_one 3 ''d'')"
    by (auto simp: dict_one_ok dest: map_upd_eqD1)
  then show ?thesis
    using dict_equal_correct [OF dict_one_ok(1) dict_one_ok(1,3), of "\<lambda>k. word_of_int k" 3 "''c''" 3 "''d''"]
    by auto
qed

section \<open>Copies\<close>

lemma table_assign_ok:
  assumes inv: "table_inv hash key other" and cap: "capacity this * 3 \<le> max_table" "length (entries other) * 3 \<le> max_table"
  obtains t' where "table_assign hash key this other = Inr t'" "table_inv hash key t'" "elems t' = elems other"
    "capacity t' = max (capacity this) (length (entries other))"
proof -
  let ?t = "this\<lparr>entries := entries other, capacity := max (capacity this) (length (entries other))\<rparr>"
  have el: "elems ?t = elems other" by (simp add: elems_def)
  have c: "capacity ?t * 3 \<le> max_table" "length (entries ?t) \<le> capacity ?t" using cap by simp_all
  have r: "-1 \<le> nxt e \<and> nxt e < int (length (entries ?t))" if "e \<in> set (entries ?t)" for e
    using table_inv_ranges [OF inv] that by simp
  have d: "distinct (map key (elems ?t))" using inv by (simp only: el table_inv_def)
  obtain t' where "do_rehash hash key ?t = Inr t'" "table_inv hash key t'" "elems t' = elems ?t"
    "capacity t' = capacity ?t"
    using do_rehash_ok [where hash = hash, OF c r d] by blast
  then show thesis using that by (simp add: table_assign_def el)
qed

text \<open>A copy of a dictionary stands for the same map, iterates in the same order and compares equal
  to it; the source is not touched.\<close>

lemma dict_copy_correct:
  assumes "dict_inv hash t" "fits 0 t"
  shows "\<exists>t'. dict_copy hash t = Inr t' \<and> dict_inv hash t' \<and> dict_items t' = dict_items t \<and>
    dict_map t' = dict_map t \<and> fits 0 t'"
proof -
  have "length (entries t) * 3 \<le> max_table" "capacity (dict_empty :: ('a, 'b) dict) * 3 \<le> max_table"
    using assms(2) by (simp_all add: fits_def dict_empty_def table_empty_def)
  then obtain t' where t': "table_assign hash fst dict_empty t = Inr t'" "table_inv hash fst t'"
    "elems t' = elems t" "capacity t' = max (capacity (dict_empty :: ('a, 'b) dict)) (length (entries t))"
    using table_assign_ok [OF assms(1) [unfolded dict_inv_def]] by blast
  have "length (entries t') = length (entries t)" using same_elems [OF t'(3)] by simp
  then have "fits 0 t'"
    using assms(2) t'(4) by (simp add: fits_def room_def dict_empty_def table_empty_def)
  moreover have "dict_items t' = dict_items t"
    using t'(3) by (simp add: dict_items_def elems_def rev_map [symmetric])
  ultimately show ?thesis
    using t'(1,2,3) by (simp add: dict_copy_def dict_assign_def dict_inv_def dict_map_def)
qed

section \<open>The interface of a finite map\<close>

text \<open>\<open>d[k].op()\<close>: the value at \<open>k\<close>, default-constructed if it is missing, is changed in place.\<close>

definition dict_modify ::
  "('k \<Rightarrow> 32 word) \<Rightarrow> 'v \<Rightarrow> ('k, 'v) dict \<Rightarrow> 'k \<Rightarrow> ('v \<Rightarrow> 'v) \<Rightarrow> ('k, 'v) dict res" where
  "dict_modify hash defval t k f =
     bindE (dict_ref hash defval t k) (\<lambda>(i, t). Inr (dict_store t i (f (dict_deref t i))))"

text \<open>What the clients of a dictionary rely on.  \<open>fits n\<close> says that \<open>n\<close> keys can still be added.\<close>

locale finite_map =
  fixes inv :: "'s \<Rightarrow> bool" and fit :: "nat \<Rightarrow> 's \<Rightarrow> bool" and abs :: "'s \<Rightarrow> 'k \<rightharpoonup> 'v" and d :: 'v
    and has :: "'s \<Rightarrow> 'k \<Rightarrow> (int \<times> 's) res"
    and modify :: "'s \<Rightarrow> 'k \<Rightarrow> ('v \<Rightarrow> 'v) \<Rightarrow> 's res"
    and erase :: "'s \<Rightarrow> 'k \<Rightarrow> (int \<times> 's) res"
  assumes has_law: "inv s \<Longrightarrow> fit n s \<Longrightarrow>
      \<exists>s'. has s k = Inr (if k \<in> dom (abs s) then 1 else 0, s') \<and> inv s' \<and> fit n s' \<and> abs s' = abs s"
    and modify_law: "inv s \<Longrightarrow> fit (Suc n) s \<Longrightarrow>
      \<exists>s'. modify s k f = Inr s' \<and> inv s' \<and> fit n s' \<and>
        abs s' = (abs s)(k \<mapsto> f (case abs s k of None \<Rightarrow> d | Some v \<Rightarrow> v))"
    and erase_law: "inv s \<Longrightarrow> fit n s \<Longrightarrow>
      \<exists>s'. erase s k = Inr (if k \<in> dom (abs s) then 1 else 0, s') \<and> inv s' \<and> fit n s' \<and>
        abs s' = (abs s)(k := None)"
begin

definition value_at :: "'s \<Rightarrow> 'k \<Rightarrow> 'v" where
  "value_at s k = (case abs s k of None \<Rightarrow> d | Some v \<Rightarrow> v)"

text \<open>Changing the values of a list of keys by an idempotent function changes each of them once.\<close>

lemma modify_all:
  assumes "\<And>v. f (f v) = f v"
  shows "inv s \<Longrightarrow> fit (length ks + n) s \<Longrightarrow>
    \<exists>s'. foldE (\<lambda>s k. modify s k f) s ks = Inr s' \<and> inv s' \<and> fit n s' \<and>
      abs s' = (\<lambda>k. if k \<in> set ks then Some (f (value_at s k)) else abs s k)"
proof (induction ks arbitrary: s)
  case (Cons k ks)
  obtain s1 where s1: "modify s k f = Inr s1" "inv s1" "fit (length ks + n) s1"
    "abs s1 = (abs s)(k \<mapsto> f (case abs s k of None \<Rightarrow> d | Some v \<Rightarrow> v))"
    using modify_law [of s "length ks + n" k f] Cons.prems by auto
  obtain s2 where s2: "foldE (\<lambda>s k. modify s k f) s1 ks = Inr s2" "inv s2" "fit n s2"
    "abs s2 = (\<lambda>k. if k \<in> set ks then Some (f (value_at s1 k)) else abs s1 k)"
    using Cons.IH [OF s1(2,3)] by blast
  have "abs s2 = (\<lambda>k'. if k' \<in> set (k # ks) then Some (f (value_at s k')) else abs s k')"
    unfolding s2(4) value_at_def s1(4) by (auto simp: fun_eq_iff assms)
  then show ?case using s1(1) s2(1-3) by auto
qed auto

end

lemma dict_modify_ok:
  assumes "dict_inv hash t" "fits (Suc n) t"
  shows "\<exists>t'. dict_modify hash d t k f = Inr t' \<and> dict_inv hash t' \<and> fits n t' \<and>
    dict_map t' = (dict_map t)(k \<mapsto> f (case dict_map t k of None \<Rightarrow> d | Some v \<Rightarrow> v))"
proof -
  obtain i t' where r: "dict_ref hash d t k = Inr (i, t')" "dict_inv hash t'" "fits n t'"
    "dict_map t' = (if k \<in> dom (dict_map t) then dict_map t else (dict_map t)(k \<mapsto> d))"
    "0 \<le> i" "nat i < length (entries t')" "elems t' ! nat i = (k, the (dict_map t' k))"
    by (rule dict_ref_ok [OF assms])
  let ?v = "f (dict_deref t' i)"
  have "fst (elems t' ! nat i) = k" by (simp add: r(7))
  note s = dict_store_ok [OF r(2,5,6) this, where v = ?v]
  have "the (dict_map t' k) = (case dict_map t k of None \<Rightarrow> d | Some v \<Rightarrow> v)"
    unfolding r(4) by (auto simp: dom_def split: option.splits)
  then have v: "?v = f (case dict_map t k of None \<Rightarrow> d | Some v \<Rightarrow> v)"
    using r(6,7) by (simp add: dict_deref_def elems_nth)
  have "dict_map (dict_store t' i ?v) = (dict_map t)(k \<mapsto> ?v)"
    unfolding s(2) r(4) by (simp add: fun_eq_iff)
  then show ?thesis
    using s(1) s(3) [OF r(3)] r(1) v by (auto simp: dict_modify_def)
qed

lemma dict_count_ok:
  assumes "dict_inv hash t" "fits n t"
  shows "\<exists>t'. dict_count hash t k = Inr (if k \<in> dom (dict_map t) then 1 else 0, t') \<and>
    dict_inv hash t' \<and> fits n t' \<and> dict_map t' = dict_map t"
proof -
  obtain i h t' where l: "lookup hash fst t k = Inr ((i, h), t')" "dict_inv hash t'"
    "elems t' = elems t" "dict_index t' k i" "capacity t' = capacity t"
    "hashtable t' \<noteq> [] \<longrightarrow> h = do_hash hash t' k"
    by (rule dict_lookup_ok [OF assms(1) fits_room [OF assms(2)]])
  have m: "dict_map t' = dict_map t" "length (entries t') = length (entries t)"
    using same_elems [OF l(3)] by simp_all
  have "i < 0 \<longleftrightarrow> k \<notin> dom (dict_map t)"
    using l(4) m by (auto simp: dict_index_def domIff split: option.splits)
  then have "dict_count hash t k = Inr (if k \<in> dom (dict_map t) then 1 else 0, t')"
    by (simp add: dict_count_def l(1))
  moreover have "fits n t'" by (rule fits_same [OF assms(2) l(5)]) (simp add: m)
  ultimately show ?thesis using l(2) m(1) by blast
qed

interpretation dict_fm: finite_map "dict_inv hash" fits dict_map d "dict_count hash" "dict_modify hash d"
    "dict_erase hash" for hash d
proof
  fix s :: "('a, 'b) dict" and n k f
  assume i: "dict_inv hash s"
  show "\<exists>s'. dict_count hash s k = Inr (if k \<in> dom (dict_map s) then 1 else 0, s') \<and> dict_inv hash s' \<and>
      fits n s' \<and> dict_map s' = dict_map s" if "fits n s"
    by (rule dict_count_ok [OF i that])
  show "\<exists>s'. dict_modify hash d s k f = Inr s' \<and> dict_inv hash s' \<and> fits n s' \<and>
      dict_map s' = (dict_map s)(k \<mapsto> f (case dict_map s k of None \<Rightarrow> d | Some v \<Rightarrow> v))" if "fits (Suc n) s"
    by (rule dict_modify_ok [OF i that])
  show "\<exists>s'. dict_erase hash s k = Inr (if k \<in> dom (dict_map s) then 1 else 0, s') \<and> dict_inv hash s' \<and>
      fits n s' \<and> dict_map s' = (dict_map s)(k := None)" if "fits n s"
    by (rule dict_erase_ok [OF i that])
qed

end
