(* ===== verification/Pool.thy ===== *)
theory Pool
  imports Dict
begin

text \<open>
  The classes \<open>pool\<close> and \<open>idict\<close> of \<open>kernel/hashlib.h\<close>: a set with a stable iteration order, and the
  numbering of its elements that \<open>idict\<close> gives.  The entry of a pool is its key.  \<open>pool\<close> does not
  assert that the head of a chain is an index before it follows it, so a bad head is undefined
  behaviour there.
\<close>

type_synonym 'k pool = "'k table"

abbreviation (input) pkey :: "'k \<Rightarrow> 'k" where
  "pkey \<equiv> \<lambda>x. x"

section \<open>Operations of \<open>pool\<close>\<close>

definition pool_empty :: "'k pool" where
  "pool_empty = table_empty"

definition pool_do_hash :: "('k \<Rightarrow> 32 word) \<Rightarrow> 'k pool \<Rightarrow> 'k \<Rightarrow> nat" where
  "pool_do_hash hash t k = do_hash hash t k"

definition pool_do_rehash :: "('k \<Rightarrow> 32 word) \<Rightarrow> 'k pool \<Rightarrow> 'k pool res" where
  "pool_do_rehash hash t = do_rehash hash pkey t"

definition pool_do_erase :: "('k \<Rightarrow> 32 word) \<Rightarrow> 'k pool \<Rightarrow> int \<Rightarrow> nat \<Rightarrow> (int \<times> 'k pool) res" where
  "pool_do_erase hash t index h = do_erase Undefined_behaviour hash pkey t index h"

definition pool_do_lookup :: "('k \<Rightarrow> 32 word) \<Rightarrow> 'k pool \<Rightarrow> 'k \<Rightarrow> nat \<Rightarrow> ((int \<times> nat) \<times> 'k pool) res" where
  "pool_do_lookup hash t k h = do_lookup hash pkey t k h"

definition pool_do_insert :: "('k \<Rightarrow> 32 word) \<Rightarrow> 'k pool \<Rightarrow> 'k \<Rightarrow> nat \<Rightarrow> (int \<times> 'k pool) res" where
  "pool_do_insert hash t k h = do_insert hash pkey t k h"

definition pool_assign :: "('k \<Rightarrow> 32 word) \<Rightarrow> 'k pool \<Rightarrow> 'k pool \<Rightarrow> 'k pool res" where
  "pool_assign hash this other =
     pool_do_rehash hash (this\<lparr>entries := entries other,
       capacity := max (capacity this) (length (entries other))\<rparr>)"

definition pool_copy :: "('k \<Rightarrow> 32 word) \<Rightarrow> 'k pool \<Rightarrow> 'k pool res" where
  "pool_copy hash other = pool_assign hash pool_empty other"

definition pool_swap :: "'k pool \<Rightarrow> 'k pool \<Rightarrow> 'k pool \<times> 'k pool" where
  "pool_swap this other = (other, this)"

definition pool_clear :: "'k pool \<Rightarrow> 'k pool" where
  "pool_clear t = t\<lparr>hashtable := [], entries := []\<rparr>"

definition pool_move_assign :: "'k pool \<Rightarrow> 'k pool \<Rightarrow> 'k pool \<times> 'k pool" where
  "pool_move_assign this other = pool_swap (pool_clear this) other"

definition pool_insert :: "('k \<Rightarrow> 32 word) \<Rightarrow> 'k pool \<Rightarrow> 'k \<Rightarrow> ((int \<times> bool) \<times> 'k pool) res" where
  "pool_insert hash t value =
     bindE (pool_do_lookup hash t value (pool_do_hash hash t value)) (\<lambda>((i, h), t).
     if i \<ge> 0 then Inr ((i, False), t)
     else bindE (pool_do_insert hash t value h) (\<lambda>(i, t). Inr ((i, True), t)))"

definition pool_insert_range :: "('k \<Rightarrow> 32 word) \<Rightarrow> 'k pool \<Rightarrow> 'k list \<Rightarrow> 'k pool res" where
  "pool_insert_range hash t xs = foldE (\<lambda>t x. bindE (pool_insert hash t x) (\<lambda>(_, t). Inr t)) t xs"

definition pool_of_list :: "('k \<Rightarrow> 32 word) \<Rightarrow> 'k list \<Rightarrow> 'k pool res" where
  "pool_of_list hash xs = pool_insert_range hash pool_empty xs"

definition pool_erase :: "('k \<Rightarrow> 32 word) \<Rightarrow> 'k pool \<Rightarrow> 'k \<Rightarrow> (int \<times> 'k pool) res" where
  "pool_erase hash t k =
     bindE (pool_do_lookup hash t k (pool_do_hash hash t k)) (\<lambda>((index, h), t). pool_do_erase hash t index h)"

definition pool_erase_it :: "('k \<Rightarrow> 32 word) \<Rightarrow> 'k pool \<Rightarrow> int \<Rightarrow> (int \<times> 'k pool) res" where
  "pool_erase_it hash t it =
     guardE (0 \<le> it \<and> it < int (length (entries t))) Undefined_behaviour (
     let h = pool_do_hash hash t (udata (entries t ! nat it))
     in bindE (pool_do_erase hash t it h) (\<lambda>(_, t). Inr (it - 1, t)))"

definition pool_count :: "('k \<Rightarrow> 32 word) \<Rightarrow> 'k pool \<Rightarrow> 'k \<Rightarrow> (int \<times> 'k pool) res" where
  "pool_count hash t k =
     bindE (pool_do_lookup hash t k (pool_do_hash hash t k)) (\<lambda>((i, h), t). Inr (if i < 0 then 0 else 1, t))"

definition pool_count_it :: "('k \<Rightarrow> 32 word) \<Rightarrow> 'k pool \<Rightarrow> 'k \<Rightarrow> int \<Rightarrow> (int \<times> 'k pool) res" where
  "pool_count_it hash t k it =
     bindE (pool_do_lookup hash t k (pool_do_hash hash t k)) (\<lambda>((i, h), t).
     Inr (if i < 0 \<or> i > it then 0 else 1, t))"

definition pool_find :: "('k \<Rightarrow> 32 word) \<Rightarrow> 'k pool \<Rightarrow> 'k \<Rightarrow> (int \<times> 'k pool) res" where
  "pool_find hash t k =
     bindE (pool_do_lookup hash t k (pool_do_hash hash t k)) (\<lambda>((i, h), t). Inr (if i < 0 then -1 else i, t))"

definition pool_has :: "('k \<Rightarrow> 32 word) \<Rightarrow> 'k pool \<Rightarrow> 'k \<Rightarrow> (bool \<times> 'k pool) res" where
  "pool_has hash t k =
     bindE (pool_do_lookup hash t k (pool_do_hash hash t k)) (\<lambda>((i, h), t). Inr (i \<ge> 0, t))"

definition pool_sort :: "('k :: linorder \<Rightarrow> 32 word) \<Rightarrow> 'k pool \<Rightarrow> 'k pool res" where
  "pool_sort hash t = pool_do_rehash hash (t\<lparr>entries := rev (sort_key udata (entries t))\<rparr>)"

definition pool_begin :: "'k pool \<Rightarrow> int" where
  "pool_begin t = int (length (entries t)) - 1"

definition pool_element :: "'k pool \<Rightarrow> int \<Rightarrow> int" where
  "pool_element t n = int (length (entries t)) - 1 - n"

definition pool_items :: "'k pool \<Rightarrow> 'k list" where
  "pool_items t = map udata (rev (entries t))"

definition pool_pop :: "('k \<Rightarrow> 32 word) \<Rightarrow> 'k pool \<Rightarrow> ('k \<times> 'k pool) res" where
  "pool_pop hash t =
     (let it = pool_begin t
      in guardE (0 \<le> it) Undefined_behaviour (
         let ret = udata (entries t ! nat it)
         in bindE (pool_erase_it hash t it) (\<lambda>(_, t). Inr (ret, t))))"

fun pool_equal_loop :: "('k \<Rightarrow> 32 word) \<Rightarrow> 'k entry_t list \<Rightarrow> 'k pool \<Rightarrow> (bool \<times> 'k pool) res" where
  "pool_equal_loop hash [] other = Inr (True, other)"
| "pool_equal_loop hash (it # es) other =
     bindE (pool_count hash other (udata it)) (\<lambda>(c, other).
     if c = 0 then Inr (False, other) else pool_equal_loop hash es other)"

definition pool_equal :: "('k \<Rightarrow> 32 word) \<Rightarrow> 'k pool \<Rightarrow> 'k pool \<Rightarrow> (bool \<times> 'k pool) res" where
  "pool_equal hash t other =
     (if length (entries t) \<noteq> length (entries other) then Inr (False, other)
      else pool_equal_loop hash (entries t) other)"

definition pool_not_equal :: "('k \<Rightarrow> 32 word) \<Rightarrow> 'k pool \<Rightarrow> 'k pool \<Rightarrow> (bool \<times> 'k pool) res" where
  "pool_not_equal hash t other = bindE (pool_equal hash t other) (\<lambda>(b, other). Inr (\<not> b, other))"

text \<open>The return type of \<open>pool::hash\<close> is \<open>bool\<close>: the accumulated value is narrowed to 0 or 1.\<close>

definition pool_hash :: "('k \<Rightarrow> 32 word) \<Rightarrow> 'k pool \<Rightarrow> bool" where
  "pool_hash hash t = (foldl (\<lambda>hashval e. hashval XOR hash (udata e)) mkhash_init (entries t) \<noteq> 0)"

definition pool_reserve :: "'k pool \<Rightarrow> nat \<Rightarrow> 'k pool" where
  "pool_reserve t n = t\<lparr>capacity := max (capacity t) n\<rparr>"

definition pool_size :: "'k pool \<Rightarrow> nat" where
  "pool_size t = length (entries t)"

definition pool_is_empty :: "'k pool \<Rightarrow> bool" where
  "pool_is_empty t \<longleftrightarrow> entries t = []"

section \<open>Operations of \<open>idict\<close>\<close>

text \<open>The template argument \<open>offset\<close> is an argument of the operations.\<close>

type_synonym 'k idict = "'k pool"

definition idict_call :: "('k \<Rightarrow> 32 word) \<Rightarrow> int \<Rightarrow> 'k idict \<Rightarrow> 'k \<Rightarrow> (int \<times> 'k idict) res" where
  "idict_call hash offset t k =
     bindE (pool_do_lookup hash t k (pool_do_hash hash t k)) (\<lambda>((i, h), t).
     bindE (if i < 0 then pool_do_insert hash t k h else Inr (i, t)) (\<lambda>(i, t). Inr (i + offset, t)))"

definition idict_at :: "('k \<Rightarrow> 32 word) \<Rightarrow> int \<Rightarrow> 'k idict \<Rightarrow> 'k \<Rightarrow> (int \<times> 'k idict) res" where
  "idict_at hash offset t k =
     bindE (pool_do_lookup hash t k (pool_do_hash hash t k)) (\<lambda>((i, h), t).
     if i < 0 then Inl Out_of_range else Inr (i + offset, t))"

definition idict_at_default :: "('k \<Rightarrow> 32 word) \<Rightarrow> int \<Rightarrow> 'k idict \<Rightarrow> 'k \<Rightarrow> int \<Rightarrow> (int \<times> 'k idict) res" where
  "idict_at_default hash offset t k defval =
     bindE (pool_do_lookup hash t k (pool_do_hash hash t k)) (\<lambda>((i, h), t).
     Inr (if i < 0 then defval else i + offset, t))"

definition idict_count :: "('k \<Rightarrow> 32 word) \<Rightarrow> 'k idict \<Rightarrow> 'k \<Rightarrow> (int \<times> 'k idict) res" where
  "idict_count hash t k =
     bindE (pool_do_lookup hash t k (pool_do_hash hash t k)) (\<lambda>((i, h), t). Inr (if i < 0 then 0 else 1, t))"

definition idict_expect :: "('k \<Rightarrow> 32 word) \<Rightarrow> int \<Rightarrow> 'k idict \<Rightarrow> 'k \<Rightarrow> int \<Rightarrow> 'k idict res" where
  "idict_expect hash offset t k i =
     bindE (idict_call hash offset t k) (\<lambda>(j, t). guardE (i = j) Out_of_range (Inr t))"

definition idict_index :: "int \<Rightarrow> 'k idict \<Rightarrow> int \<Rightarrow> 'k res" where
  "idict_index offset t index =
     guardE (0 \<le> index - offset \<and> index - offset < int (length (entries t))) Out_of_range
       (Inr (udata (entries t ! nat (index - offset))))"

definition idict_swap :: "'k idict \<Rightarrow> 'k idict \<Rightarrow> 'k idict \<times> 'k idict" where
  "idict_swap this other = pool_swap this other"

definition idict_reserve :: "'k idict \<Rightarrow> nat \<Rightarrow> 'k idict" where
  "idict_reserve t n = pool_reserve t n"

definition idict_size :: "'k idict \<Rightarrow> nat" where
  "idict_size t = pool_size t"

definition idict_is_empty :: "'k idict \<Rightarrow> bool" where
  "idict_is_empty t = pool_is_empty t"

definition idict_clear :: "'k idict \<Rightarrow> 'k idict" where
  "idict_clear t = pool_clear t"

text \<open>Iteration goes upwards from \<open>offset\<close>.\<close>

definition idict_items :: "'k idict \<Rightarrow> 'k list" where
  "idict_items t = map udata (entries t)"

section \<open>The set of a pool\<close>

definition pool_inv :: "('k \<Rightarrow> 32 word) \<Rightarrow> 'k pool \<Rightarrow> bool" where
  "pool_inv hash t \<longleftrightarrow> table_inv hash pkey t"

definition pool_set :: "'k pool \<Rightarrow> 'k set" where
  "pool_set t = set (elems t)"

lemma pool_distinct: "pool_inv hash t \<Longrightarrow> distinct (elems t)"
  by (simp add: pool_inv_def table_inv_def)

definition pool_index :: "'k pool \<Rightarrow> 'k \<Rightarrow> int \<Rightarrow> bool" where
  "pool_index t k i \<longleftrightarrow>
     (if k \<in> pool_set t then 0 \<le> i \<and> nat i < length (entries t) \<and> elems t ! nat i = k else i = -1)"

lemma pool_index_of: "index_of pkey t k i \<longleftrightarrow> pool_index t k i"
  by (simp add: index_of_def pool_index_def pool_set_def)

lemma pool_index_nonneg: "pool_index t k i \<Longrightarrow> 0 \<le> i \<longleftrightarrow> k \<in> pool_set t"
  by (auto simp: pool_index_def split: if_splits)

lemma pool_same_elems:
  "elems t' = elems t \<Longrightarrow> pool_set t' = pool_set t \<and> length (entries t') = length (entries t)"
  by (metis pool_set_def length_elems)

lemma pool_lookup_ok:
  assumes "pool_inv hash t" "room t"
  obtains i h t' where "pool_do_lookup hash t k (pool_do_hash hash t k) = Inr ((i, h), t')"
    "pool_inv hash t'" "elems t' = elems t" "pool_index t' k i" "capacity t' = capacity t"
    "hashtable t' \<noteq> [] \<longrightarrow> h = do_hash hash t' k"
proof -
  obtain i h t' where l: "lookup hash pkey t k = Inr ((i, h), t')" "table_inv hash pkey t'"
    "elems t' = elems t" "capacity t' = capacity t" "index_of pkey t k i"
    "hashtable t' \<noteq> [] \<longrightarrow> h = do_hash hash t' k" "hashtable t' = [] \<longleftrightarrow> hashtable t = []"
    by (rule lookup_ok [OF assms(1) [unfolded pool_inv_def] assms(2)])
  have "pool_index t' k i" using l(5) by (simp only: index_of_elems [OF l(3)] pool_index_of [symmetric])
  then show thesis
    using that l(1-4,6) by (simp add: pool_inv_def pool_do_lookup_def pool_do_hash_def lookup_def)
qed

lemma pool_insert_new: "pool_insert hash t x = insert_new hash pkey t x"
  unfolding pool_insert_def insert_new_def pool_do_lookup_def pool_do_hash_def pool_do_insert_def lookup_def ..

lemma pool_insert_ok:
  assumes "pool_inv hash t" "fits (Suc n) t"
  obtains i t' where "pool_insert hash t k = Inr ((i, k \<notin> pool_set t), t')" "pool_inv hash t'" "fits n t'"
    "pool_index t' k i" "elems t' = (if k \<in> pool_set t then elems t else elems t @ [k])"
    "pool_set t' = insert k (pool_set t)"
proof -
  obtain i b t' where r: "insert_new hash pkey t k = Inr ((i, b), t')" "table_inv hash pkey t'"
    "elems t' = (if k \<in> pkey ` set (elems t) then elems t else elems t @ [k])"
    "b \<longleftrightarrow> k \<notin> pkey ` set (elems t)" "index_of pkey t' k i"
    "capacity t' \<le> max (capacity t) (max 1 (2 * length (entries t)))"
    by (rule insert_new_ok [OF assms(1) [unfolded pool_inv_def] fits_room [OF assms(2)]])
  have el: "elems t' = (if k \<in> pool_set t then elems t else elems t @ [k])"
    using r(3) by (simp add: pool_set_def)
  then have "length (entries t') \<le> Suc (length (entries t))"
    by (metis length_append_singleton length_elems le_SucI order_refl)
  then have "fits n t'" by (rule fits_grow [OF assms(2) r(6)])
  moreover have "pool_set t' = insert k (pool_set t)"
    unfolding pool_set_def el by (auto simp: pool_set_def)
  moreover have "b \<longleftrightarrow> k \<notin> pool_set t" using r(4) by (simp add: pool_set_def)
  ultimately show thesis
    using that el r(1,2,5) by (simp add: pool_insert_new pool_inv_def pool_index_of)
qed

lemma pool_count_ok:
  assumes "pool_inv hash t" "fits n t"
  shows "\<exists>t'. pool_count hash t k = Inr (if k \<in> pool_set t then 1 else 0, t') \<and>
    pool_inv hash t' \<and> fits n t' \<and> elems t' = elems t"
proof -
  obtain i h t' where l: "pool_do_lookup hash t k (pool_do_hash hash t k) = Inr ((i, h), t')"
    "pool_inv hash t'" "elems t' = elems t" "pool_index t' k i" "capacity t' = capacity t"
    "hashtable t' \<noteq> [] \<longrightarrow> h = do_hash hash t' k"
    by (rule pool_lookup_ok [OF assms(1) fits_room [OF assms(2)]])
  have "i < 0 \<longleftrightarrow> k \<notin> pool_set t"
    using pool_index_nonneg [OF l(4)] pool_same_elems [OF l(3)] by (simp add: not_le [symmetric])
  then have "pool_count hash t k = Inr (if k \<in> pool_set t then 1 else 0, t')"
    by (simp add: pool_count_def l(1))
  moreover have "fits n t'" by (rule fits_same [OF assms(2) l(5)]) (simp add: pool_same_elems [OF l(3)])
  ultimately show ?thesis using l(2,3) by blast
qed

lemma pool_erase_index:
  assumes inv: "pool_inv hash t" and i: "i < length (entries t)"
  obtains t' where "pool_do_erase hash t (int i) (do_hash hash t (elems t ! i)) = Inr (1, t')"
    "pool_inv hash t'" "elems t' = butlast ((elems t)[i := last (elems t)])" "capacity t' = capacity t"
    "pool_set t' = pool_set t - {elems t ! i}"
proof -
  obtain t' where t': "do_erase Undefined_behaviour hash pkey t (int i) (do_hash hash t (elems t ! i)) = Inr (1, t')"
    "table_inv hash pkey t'" "elems t' = butlast ((elems t)[i := last (elems t)])"
    "capacity t' = capacity t"
    by (rule do_erase_ok [OF inv [unfolded pool_inv_def] i refl])
  have "pool_set t' = pool_set t - {elems t ! i}"
    unfolding pool_set_def t'(3) using distinct_move_last(2) [OF pool_distinct [OF inv]] i by simp
  then show thesis using that t' by (simp add: pool_do_erase_def pool_inv_def)
qed

lemma pool_erase_ok:
  assumes "pool_inv hash t" "fits n t"
  shows "\<exists>t'. pool_erase hash t k = Inr (if k \<in> pool_set t then 1 else 0, t') \<and>
    pool_inv hash t' \<and> fits n t' \<and> pool_set t' = pool_set t - {k}"
proof -
  obtain i h t1 where l: "pool_do_lookup hash t k (pool_do_hash hash t k) = Inr ((i, h), t1)"
    "pool_inv hash t1" "elems t1 = elems t" "pool_index t1 k i" "capacity t1 = capacity t"
    "hashtable t1 \<noteq> [] \<longrightarrow> h = do_hash hash t1 k"
    by (rule pool_lookup_ok [OF assms(1) fits_room [OF assms(2)]])
  note m = pool_same_elems [OF l(3)]
  have f: "fits n t1" by (rule fits_same [OF assms(2) l(5)]) (simp add: m)
  show ?thesis
  proof (cases "k \<in> pool_set t")
    case False
    then have "i = -1" using l(4) m by (simp add: pool_index_def)
    then have "pool_erase hash t k = Inr (0, t1)"
      using l(1) by (simp add: pool_erase_def pool_do_erase_def do_erase_def)
    then show ?thesis using False l(2) m f by auto
  next
    case True
    then have i: "0 \<le> i" "nat i < length (entries t1)" "elems t1 ! nat i = k"
      using l(4) m by (simp_all add: pool_index_def)
    have ne: "hashtable t1 \<noteq> []" using i(2) l(2) by (auto simp: pool_inv_def table_inv_def)
    obtain t' where t': "pool_do_erase hash t1 (int (nat i)) (do_hash hash t1 (elems t1 ! nat i)) = Inr (1, t')"
      "pool_inv hash t'" "elems t' = butlast ((elems t1)[nat i := last (elems t1)])" "capacity t' = capacity t1"
      "pool_set t' = pool_set t1 - {elems t1 ! nat i}"
      by (rule pool_erase_index [OF l(2) i(2)])
    have "pool_erase hash t k = Inr (1, t')"
      using t'(1) i l(1,6) ne by (simp add: pool_erase_def)
    moreover have "length (entries t') \<le> length (entries t1)"
      using t'(3) by (metis diff_le_self length_butlast length_elems length_list_update)
    then have "fits n t'" by (intro fits_same [OF f t'(4)])
    ultimately show ?thesis using True t'(2,5) i(3) m by auto
  qed
qed

section \<open>The interface of a finite set\<close>

text \<open>What the clients of a pool rely on: membership, insertion and removal on a set, with room for
  \<open>n\<close> more elements.\<close>

locale finite_set =
  fixes inv :: "'s \<Rightarrow> bool" and fit :: "nat \<Rightarrow> 's \<Rightarrow> bool" and abs :: "'s \<Rightarrow> 'k set"
    and has :: "'s \<Rightarrow> 'k \<Rightarrow> (int \<times> 's) res"
    and ins :: "'s \<Rightarrow> 'k \<Rightarrow> ((int \<times> bool) \<times> 's) res"
    and del :: "'s \<Rightarrow> 'k \<Rightarrow> (int \<times> 's) res"
  assumes has_law: "inv s \<Longrightarrow> fit n s \<Longrightarrow>
      \<exists>s'. has s k = Inr (if k \<in> abs s then 1 else 0, s') \<and> inv s' \<and> fit n s' \<and> abs s' = abs s"
    and ins_law: "inv s \<Longrightarrow> fit (Suc n) s \<Longrightarrow>
      \<exists>i s'. ins s k = Inr ((i, k \<notin> abs s), s') \<and> inv s' \<and> fit n s' \<and> abs s' = insert k (abs s)"
    and del_law: "inv s \<Longrightarrow> fit n s \<Longrightarrow>
      \<exists>s'. del s k = Inr (if k \<in> abs s then 1 else 0, s') \<and> inv s' \<and> fit n s' \<and> abs s' = abs s - {k}"
begin

lemma ins_all:
  "inv s \<Longrightarrow> fit (length ks + n) s \<Longrightarrow>
    \<exists>s'. foldE (\<lambda>s k. bindE (ins s k) (\<lambda>(_, s). Inr s)) s ks = Inr s' \<and> inv s' \<and> fit n s' \<and>
      abs s' = abs s \<union> set ks"
proof (induction ks arbitrary: s)
  case (Cons k ks)
  obtain i s1 where s1: "ins s k = Inr ((i, k \<notin> abs s), s1)" "inv s1" "fit (length ks + n) s1"
    "abs s1 = insert k (abs s)"
    using ins_law [of s "length ks + n" k] Cons.prems by auto
  obtain s2 where "foldE (\<lambda>s k. bindE (ins s k) (\<lambda>(_, s). Inr s)) s1 ks = Inr s2" "inv s2" "fit n s2"
    "abs s2 = abs s1 \<union> set ks"
    using Cons.IH [OF s1(2,3)] by blast
  then show ?case using s1(1,4) by auto
qed auto

lemma del_all:
  "inv s \<Longrightarrow> fit n s \<Longrightarrow>
    \<exists>s'. foldE (\<lambda>s k. bindE (del s k) (\<lambda>(_, s). Inr s)) s ks = Inr s' \<and> inv s' \<and> fit n s' \<and>
      abs s' = abs s - set ks"
proof (induction ks arbitrary: s)
  case (Cons k ks)
  obtain c s1 where s1: "del s k = Inr (c, s1)" "inv s1" "fit n s1" "abs s1 = abs s - {k}"
    using del_law [OF Cons.prems, of k] by auto
  obtain s2 where "foldE (\<lambda>s k. bindE (del s k) (\<lambda>(_, s). Inr s)) s1 ks = Inr s2" "inv s2" "fit n s2"
    "abs s2 = abs s1 - set ks"
    using Cons.IH [OF s1(2,3)] by blast
  then show ?case using s1(1,4) by auto
qed auto

end

interpretation pool_fs: finite_set "pool_inv hash" fits pool_set "pool_count hash" "pool_insert hash"
    "pool_erase hash" for hash
proof
  fix s :: "'a pool" and n k
  assume i: "pool_inv hash s"
  show "\<exists>s'. pool_count hash s k = Inr (if k \<in> pool_set s then 1 else 0, s') \<and> pool_inv hash s' \<and>
      fits n s' \<and> pool_set s' = pool_set s" if "fits n s"
    using pool_count_ok [OF i that, of k] by (metis pool_set_def)
  show "\<exists>i s'. pool_insert hash s k = Inr ((i, k \<notin> pool_set s), s') \<and> pool_inv hash s' \<and> fits n s' \<and>
      pool_set s' = insert k (pool_set s)" if "fits (Suc n) s"
    by (rule pool_insert_ok [OF i that, of k]) blast
  show "\<exists>s'. pool_erase hash s k = Inr (if k \<in> pool_set s then 1 else 0, s') \<and> pool_inv hash s' \<and>
      fits n s' \<and> pool_set s' = pool_set s - {k}" if "fits n s"
    by (rule pool_erase_ok [OF i that])
qed

lemma table_empty_ok: "table_inv hash key table_empty" "fits n table_empty \<longleftrightarrow> 6 * n \<le> max_table" "elems table_empty = []"
  by (simp_all add: table_inv_def table_empty_def elems_def chained_def fits_def room_def)

lemma pool_empty_ok: "pool_inv hash pool_empty" "fits n pool_empty \<longleftrightarrow> 6 * n \<le> max_table" "pool_set pool_empty = {}"
  by (simp_all add: pool_inv_def pool_empty_def table_empty_ok pool_set_def)

text \<open>C14: a pool built from a list, then filled and emptied element by element, is the set of the elements;
  \<open>insert\<close>, \<open>erase\<close> and \<open>count\<close> never fail while six times the number of elements is below the
  largest table size.\<close>

theorem pool_history_correct:
  assumes "6 * (length xs + length ys) \<le> max_table"
  shows "\<exists>t. bindE (pool_of_list hash xs) (\<lambda>t. bindE (pool_insert_range hash t ys)
      (\<lambda>t. foldE (\<lambda>t k. bindE (pool_erase hash t k) (\<lambda>(_, t). Inr t)) t zs)) = Inr t \<and>
    pool_inv hash t \<and> pool_set t = (set xs \<union> set ys) - set zs \<and>
    (\<exists>t'. pool_count hash t k = Inr (if k \<in> (set xs \<union> set ys) - set zs then 1 else 0, t'))"
proof -
  have f: "fits (length xs + length ys) (pool_empty :: 'a pool)" using assms by (simp add: pool_empty_ok)
  obtain t1 where t1: "pool_of_list hash xs = Inr t1" "pool_inv hash t1" "fits (length ys) t1" "pool_set t1 = set xs"
    using pool_fs.ins_all [OF pool_empty_ok(1) f, of hash]
    by (auto simp: pool_of_list_def pool_insert_range_def pool_empty_ok)
  have f1: "fits (length ys + 0) t1" using t1(3) by simp
  obtain t2 where t2: "pool_insert_range hash t1 ys = Inr t2" "pool_inv hash t2" "fits 0 t2"
    "pool_set t2 = set xs \<union> set ys"
    using pool_fs.ins_all [OF t1(2) f1] t1(4) by (auto simp: pool_insert_range_def)
  obtain t3 where t3: "foldE (\<lambda>t k. bindE (pool_erase hash t k) (\<lambda>(_, t). Inr t)) t2 zs = Inr t3"
    "pool_inv hash t3" "fits 0 t3" "pool_set t3 = (set xs \<union> set ys) - set zs"
    using pool_fs.del_all [OF t2(2,3), of zs] t2(4) by auto
  obtain t' where "pool_count hash t3 k = Inr (if k \<in> pool_set t3 then 1 else 0, t')"
    using pool_fs.has_law [OF t3(2,3)] by blast
  then show ?thesis
    using t1(1) t2(1) t3 by (intro exI [of _ t3]) (auto split: if_splits)
qed

theorem pool_history_correct_witness:
  "\<exists>t. bindE (pool_of_list (\<lambda>k. word_of_int k) [1, 2, 3 :: int]) (\<lambda>t. bindE (pool_insert_range (\<lambda>k. word_of_int k) t [3, 4])
      (\<lambda>t. foldE (\<lambda>t k. bindE (pool_erase (\<lambda>k. word_of_int k) t k) (\<lambda>(_, t). Inr t)) t [2])) = Inr t \<and> pool_set t = {1, 3, 4}"
  using pool_history_correct [of "[1, 2, 3 :: int]" "[3, 4]" "\<lambda>k. word_of_int k" "[2]" 1]
  by (auto simp: max_table_def)

lemma pool_equal_loop_ok:
  assumes "pool_inv hash u" "fits n u"
  shows "\<exists>u'. pool_equal_loop hash es u = Inr (\<forall>e\<in>set es. udata e \<in> pool_set u, u') \<and>
    pool_inv hash u' \<and> elems u' = elems u"
  using assms
proof (induction es arbitrary: u)
  case (Cons e es)
  obtain t where t: "pool_count hash u (udata e) = Inr (if udata e \<in> pool_set u then 1 else 0, t)"
    "pool_inv hash t" "fits n t" "elems t = elems u"
    using pool_count_ok [OF Cons.prems] by blast
  have m: "pool_set t = pool_set u" using pool_same_elems [OF t(4)] by simp
  obtain t' where "pool_equal_loop hash es t = Inr (\<forall>e\<in>set es. udata e \<in> pool_set u, t')"
    "pool_inv hash t'" "elems t' = elems u"
    using Cons.IH [OF t(2,3)] unfolding m t(4) by blast
  then show ?case using t by (cases "udata e \<in> pool_set u") auto
qed simp

text \<open>C6: \<open>operator==\<close> on pools is set equality; equal pools have equal hashes, of which there are only
  two because the function returns a \<open>bool\<close>.\<close>

theorem pool_equal_correct:
  assumes "pool_inv hash t" "pool_inv hash u" "fits n u"
  shows "(\<exists>u'. pool_equal hash t u = Inr (pool_set t = pool_set u, u') \<and> pool_inv hash u' \<and> elems u' = elems u) \<and>
    (pool_set t = pool_set u \<longrightarrow> pool_hash h t = pool_hash h u)"
proof
  have c: "card (pool_set t) = length (entries t)" "card (pool_set u) = length (entries u)"
    using pool_distinct [OF assms(1)] pool_distinct [OF assms(2)] by (simp_all add: pool_set_def distinct_card)
  have s: "(\<forall>e\<in>set (entries t). udata e \<in> pool_set u) \<longleftrightarrow> pool_set t \<subseteq> pool_set u"
    by (auto simp: pool_set_def elems_def)
  have f: "finite (pool_set u)" by (simp add: pool_set_def)
  show "\<exists>u'. pool_equal hash t u = Inr (pool_set t = pool_set u, u') \<and> pool_inv hash u' \<and> elems u' = elems u"
  proof (cases "length (entries t) = length (entries u)")
    case True
    then have "pool_set t \<subseteq> pool_set u \<longleftrightarrow> pool_set t = pool_set u"
      using c f by (metis card_subset_eq order_refl)
    then show ?thesis
      using pool_equal_loop_ok [OF assms(2,3), of "entries t"] True s by (simp add: pool_equal_def)
  next
    case False
    then have "pool_set t \<noteq> pool_set u" using c by metis
    then show ?thesis using False assms(2) by (auto simp: pool_equal_def)
  qed
  show "pool_set t = pool_set u \<longrightarrow> pool_hash h t = pool_hash h u"
  proof
    assume "pool_set t = pool_set u"
    then have m: "mset (elems t) = mset (elems u)"
      using pool_distinct [OF assms(1)] pool_distinct [OF assms(2)]
      by (simp add: pool_set_def set_eq_iff_mset_eq_distinct)
    have "fold (\<lambda>x v. v XOR h x) (elems t) = fold (\<lambda>x v. v XOR h x) (elems u)"
      by (rule fold_multiset_equiv [OF _ m]) (simp add: fun_eq_iff ac_simps)
    then show "pool_hash h t = pool_hash h u"
      by (simp add: pool_hash_def elems_def foldl_conv_fold fold_map comp_def)
  qed
qed

theorem pool_equal_correct_witness:
  "\<exists>u'. pool_equal (\<lambda>k. word_of_int k) (pool_empty :: int pool) pool_empty = Inr (True, u')"
proof -
  have f: "fits 1 (pool_empty :: int pool)" by (simp add: pool_empty_ok max_table_def)
  show ?thesis
    using pool_equal_correct [OF pool_empty_ok(1) pool_empty_ok(1) f, of "\<lambda>k. word_of_int k"] by auto
qed

section \<open>Numbering by \<open>idict\<close>\<close>

lemma idict_call_ok:
  assumes "pool_inv hash t" "fits (Suc n) t"
  obtains i t' where "idict_call hash offset t k = Inr (int i + offset, t')" "pool_inv hash t'" "fits n t'"
    "i < length (entries t')" "elems t' ! i = k"
    "elems t' = (if k \<in> set (elems t) then elems t else elems t @ [k])"
proof -
  obtain i t' where r: "pool_insert hash t k = Inr ((i, k \<notin> pool_set t), t')" "pool_inv hash t'" "fits n t'"
    "pool_index t' k i" "elems t' = (if k \<in> pool_set t then elems t else elems t @ [k])"
    "pool_set t' = insert k (pool_set t)"
    by (rule pool_insert_ok [OF assms])
  have i: "0 \<le> i" "nat i < length (entries t')" "elems t' ! nat i = k"
    using r(4,6) by (simp_all add: pool_index_def)
  have "idict_call hash offset t k = Inr (i + offset, t')"
    using r(1) by (auto simp: pool_insert_def idict_call_def not_le split: if_splits prod.splits)
  then show thesis
    using that [of "nat i" t'] r(2,3,5) i by (simp add: pool_set_def)
qed

lemma idict_at_default_ok:
  assumes "pool_inv hash t" "fits n t"
  obtains t' where "idict_at_default hash offset t k d = Inr (if k \<in> set (elems t)
      then int (THE i. i < length (entries t) \<and> elems t ! i = k) + offset else d, t')"
    "pool_inv hash t'" "fits n t'" "elems t' = elems t"
proof -
  obtain i h t' where l: "pool_do_lookup hash t k (pool_do_hash hash t k) = Inr ((i, h), t')"
    "pool_inv hash t'" "elems t' = elems t" "pool_index t' k i" "capacity t' = capacity t"
    "hashtable t' \<noteq> [] \<longrightarrow> h = do_hash hash t' k"
    by (rule pool_lookup_ok [OF assms(1) fits_room [OF assms(2)]])
  note m = pool_same_elems [OF l(3)]
  have f: "fits n t'" by (rule fits_same [OF assms(2) l(5)]) (simp add: m)
  have "i < 0 \<longleftrightarrow> k \<notin> set (elems t)"
    using pool_index_nonneg [OF l(4)] m by (simp add: not_le [symmetric] pool_set_def)
  moreover have "(THE i. i < length (entries t) \<and> elems t ! i = k) = nat i" if "k \<in> set (elems t)"
  proof (rule the_equality)
    show i: "nat i < length (entries t) \<and> elems t ! nat i = k"
      using l(4) m that l(3) by (simp add: pool_index_def pool_set_def)
    show "j = nat i" if "j < length (entries t) \<and> elems t ! j = k" for j
      using that i pool_distinct [OF assms(1)] by (auto simp: nth_eq_iff_index_eq)
  qed
  ultimately have "idict_at_default hash offset t k d = Inr (if k \<in> set (elems t)
      then int (THE i. i < length (entries t) \<and> elems t ! i = k) + offset else d, t')"
    by (auto simp: idict_at_default_def l(1))
  then show thesis by (rule that [OF _ l(2) f l(3)])
qed

text \<open>C15: \<open>idict\<close> numbers keys: the call returns the number of the key, assigning the next one to a new
  key, \<open>operator[]\<close> maps the number back to the key, asking again gives the same number, and a number
  that was given before still denotes its key.\<close>

theorem idict_numbering:
  assumes "pool_inv hash t" "fits (Suc (Suc n)) t"
  shows "\<exists>i t' t''. idict_call hash offset t k = Inr (i, t') \<and> pool_inv hash t' \<and> fits (Suc n) t' \<and>
    idict_index offset t' i = Inr k \<and> idict_call hash offset t' k = Inr (i, t'') \<and>
    idict_items t'' = idict_items t' \<and>
    (k \<notin> set (idict_items t) \<longrightarrow> i = int (idict_size t) + offset) \<and>
    (\<forall>j x. idict_index offset t j = Inr x \<longrightarrow> idict_index offset t' j = Inr x)"
proof -
  obtain i t' where r: "idict_call hash offset t k = Inr (int i + offset, t')" "pool_inv hash t'" "fits (Suc n) t'"
    "i < length (entries t')" "elems t' ! i = k"
    "elems t' = (if k \<in> set (elems t) then elems t else elems t @ [k])"
    by (rule idict_call_ok [OF assms])
  obtain j t'' where r2: "idict_call hash offset t' k = Inr (int j + offset, t'')" "pool_inv hash t''" "fits n t''"
    "j < length (entries t'')" "elems t'' ! j = k"
    "elems t'' = (if k \<in> set (elems t') then elems t' else elems t' @ [k])"
    by (rule idict_call_ok [OF r(2,3)])
  have k: "k \<in> set (elems t')" using r(4,5) by (metis length_elems nth_mem)
  then have e: "elems t'' = elems t'" using r2(6) by simp
  have l: "length (entries t'') = length (entries t')" using pool_same_elems [OF e] by simp
  have "i = j"
    using r(4,5) r2(4,5) e l pool_distinct [OF r(2)] by (metis length_elems nth_eq_iff_index_eq)
  moreover have "idict_index offset t' (int i + offset) = Inr k"
    using r(4,5) by (simp add: idict_index_def elems_nth)
  moreover have "i = length (entries t)" if "k \<notin> set (elems t)"
  proof -
    have "elems t' = elems t @ [k]" using r(6) that by simp
    moreover from this have "length (entries t') = Suc (length (entries t))"
      by (metis length_append_singleton length_elems)
    ultimately show ?thesis
      using r(4,5) that by (metis length_elems less_Suc_eq nth_append nth_mem)
  qed
  moreover have "idict_index offset t' j = Inr x" if "idict_index offset t j = Inr x" for j x
  proof -
    have b: "0 \<le> j - offset" "nat (j - offset) < length (entries t)" "x = elems t ! nat (j - offset)"
      using that by (auto simp: idict_index_def elems_nth)
    have "length (entries t) \<le> length (entries t')" using r(6) by (metis length_append_singleton length_elems le_SucI order_refl)
    moreover have "elems t' ! nat (j - offset) = elems t ! nat (j - offset)"
      unfolding r(6) using b(2) by (simp add: nth_append)
    ultimately show ?thesis using b by (simp add: idict_index_def elems_nth)
  qed
  ultimately show ?thesis
    using r(1-3) r2(1) e by (auto simp: idict_items_def elems_def idict_size_def pool_size_def)
qed

theorem idict_numbering_witness:
  "\<exists>i t'. idict_call (\<lambda>k. word_of_int k) 7 (pool_empty :: int idict) 42 = Inr (i, t') \<and> idict_index 7 t' i = Inr 42"
proof -
  have f: "fits (Suc (Suc 1)) (pool_empty :: int pool)" by (simp add: pool_empty_ok max_table_def)
  show ?thesis
    using idict_numbering [OF pool_empty_ok(1) f, of "\<lambda>k. word_of_int k" 7 42] by blast
qed

end
