(* ===== verification/SigSpec.thy ===== *)
theory SigSpec
  imports RtlilConst Pool
begin

text \<open>
  Signals, \<open>kernel/rtlil.h\<close> and \<open>kernel/rtlil.cc\<close>: bits (\<open>SigBit\<close>), chunks (\<open>SigChunk\<close>) and signals
  (\<open>SigSpec\<close>).  A signal keeps its bits either as a list of chunks or as a list of bits and converts
  between the two on demand, also inside \<open>const\<close> methods, and caches a hash; the operations
  therefore return the signal as well.  Of an argument passed by reference to \<open>const\<close> the
  conversion is not returned: its bits stay the same.  A wire is a record with the identity of the object, the
  index of its name and its width; the null pointer is \<open>None\<close>.
\<close>

section \<open>Wires, bits and chunks\<close>

record wire_t =
  wire_ptr :: nat
  wire_name :: int
  wire_width :: int

datatype sigbit = Bit_state state | Bit_wire wire_t int

fun bit_wire :: "sigbit \<Rightarrow> wire_t option" where
  "bit_wire (Bit_state _) = None"
| "bit_wire (Bit_wire w _) = Some w"

record sigchunk =
  cwire :: "wire_t option"
  cdata :: "state list"
  cwidth :: int
  coffset :: int

definition SigBit_bool :: "bool \<Rightarrow> sigbit" where
  "SigBit_bool b = Bit_state (if b then S1 else S0)"

definition SigBit_wire :: "wire_t \<Rightarrow> sigbit res" where
  "SigBit_wire w = guardE (wire_width w = 1) Assert_failed (Inr (Bit_wire w 0))"

definition SigBit_chunk_at :: "sigchunk \<Rightarrow> int \<Rightarrow> sigbit" where
  "SigBit_chunk_at c index =
     (case cwire c of Some w \<Rightarrow> Bit_wire w (coffset c + index) | None \<Rightarrow> Bit_state (cdata c ! nat index))"

definition SigBit_chunk :: "sigchunk \<Rightarrow> sigbit res" where
  "SigBit_chunk c = guardE (cwidth c = 1) Assert_failed (
     case cwire c of Some w \<Rightarrow> Inr (Bit_wire w (coffset c))
     | None \<Rightarrow> guardE (cdata c \<noteq> []) Undefined_behaviour (Inr (Bit_state (cdata c ! 0))))"

fun bit_less :: "sigbit \<Rightarrow> sigbit \<Rightarrow> bool" where
  "bit_less (Bit_state a) (Bit_state b) \<longleftrightarrow> a < b"
| "bit_less (Bit_wire v i) (Bit_wire w j) \<longleftrightarrow> (if v = w then i < j else wire_name v < wire_name w)"
| "bit_less (Bit_state _) (Bit_wire _ _) \<longleftrightarrow> True"
| "bit_less (Bit_wire _ _) (Bit_state _) \<longleftrightarrow> False"

fun bit_hash :: "sigbit \<Rightarrow> 32 word" where
  "bit_hash (Bit_wire w i) = mkhash_add (word_of_int (wire_name w)) (word_of_int i)"
| "bit_hash (Bit_state s) = of_nat (state_code s)"

definition SigChunk_empty :: sigchunk where
  "SigChunk_empty = \<lparr>cwire = None, cdata = [], cwidth = 0, coffset = 0\<rparr>"

definition SigChunk_const :: "const_t \<Rightarrow> sigchunk" where
  "SigChunk_const v = \<lparr>cwire = None, cdata = bits v, cwidth = int (length (bits v)), coffset = 0\<rparr>"

definition SigChunk_wire :: "wire_t \<Rightarrow> sigchunk" where
  "SigChunk_wire w = \<lparr>cwire = Some w, cdata = [], cwidth = wire_width w, coffset = 0\<rparr>"

definition SigChunk_part :: "wire_t \<Rightarrow> int \<Rightarrow> int \<Rightarrow> sigchunk" where
  "SigChunk_part w offset width = \<lparr>cwire = Some w, cdata = [], cwidth = width, coffset = offset\<rparr>"

definition SigChunk_string :: "string \<Rightarrow> sigchunk" where
  "SigChunk_string str = SigChunk_const (Const_string str)"

definition SigChunk_int :: "int \<Rightarrow> int \<Rightarrow> sigchunk res" where
  "SigChunk_int val width = bindE (Const_int val width) (\<lambda>c. Inr (SigChunk_const c))"

definition SigChunk_state :: "state \<Rightarrow> int \<Rightarrow> sigchunk res" where
  "SigChunk_state b width = bindE (Const_state b width) (\<lambda>c. Inr (SigChunk_const c))"

fun SigChunk_bit :: "sigbit \<Rightarrow> sigchunk" where
  "SigChunk_bit (Bit_state s) = \<lparr>cwire = None, cdata = [s], cwidth = 1, coffset = 0\<rparr>"
| "SigChunk_bit (Bit_wire w i) = \<lparr>cwire = Some w, cdata = [], cwidth = 1, coffset = i\<rparr>"

definition chunk_extract :: "sigchunk \<Rightarrow> int \<Rightarrow> int \<Rightarrow> sigchunk res" where
  "chunk_extract c offset len =
     (case cwire c of
        Some w \<Rightarrow> Inr \<lparr>cwire = Some w, cdata = [], cwidth = len, coffset = coffset c + offset\<rparr>
      | None \<Rightarrow>
          guardE (len \<le> 0 \<or> 0 \<le> offset \<and> offset + len \<le> int (length (cdata c))) Undefined_behaviour
            (Inr \<lparr>cwire = None, cdata = take (nat len) (drop (nat offset) (cdata c)),
               cwidth = len, coffset = 0\<rparr>))"

text \<open>\<open>std::vector\<close> compares lexicographically.\<close>

fun data_less :: "state list \<Rightarrow> state list \<Rightarrow> bool" where
  "data_less _ [] = False"
| "data_less [] (_ # _) = True"
| "data_less (a # as) (b # bs) = (if a < b then True else if b < a then False else data_less as bs)"

text \<open>\<open>wire < other.wire\<close> compares addresses; the null pointer is the least.\<close>

definition ptr_of :: "wire_t option \<Rightarrow> nat" where
  "ptr_of w = (case w of None \<Rightarrow> 0 | Some w \<Rightarrow> Suc (wire_ptr w))"

definition chunk_less :: "sigchunk \<Rightarrow> sigchunk \<Rightarrow> bool" where
  "chunk_less a b =
     (case (cwire a, cwire b) of
        (Some v, Some w) \<Rightarrow>
          if wire_name v \<noteq> wire_name w then wire_name v < wire_name w
          else if v \<noteq> w then wire_ptr v < wire_ptr w
          else if coffset a \<noteq> coffset b then coffset a < coffset b
          else if cwidth a \<noteq> cwidth b then cwidth a < cwidth b
          else data_less (cdata a) (cdata b)
      | _ \<Rightarrow>
          if cwire a \<noteq> cwire b then ptr_of (cwire a) < ptr_of (cwire b)
          else if coffset a \<noteq> coffset b then coffset a < coffset b
          else if cwidth a \<noteq> cwidth b then cwidth a < cwidth b
          else data_less (cdata a) (cdata b))"

definition chunk_eq :: "sigchunk \<Rightarrow> sigchunk \<Rightarrow> bool" where
  "chunk_eq a b \<longleftrightarrow>
     cwire a = cwire b \<and> cwidth a = cwidth b \<and> coffset a = coffset b \<and> cdata a = cdata b"

definition chunk_neq :: "sigchunk \<Rightarrow> sigchunk \<Rightarrow> bool" where
  "chunk_neq a b = (if chunk_eq a b then False else True)"

section \<open>Signals\<close>

record sigspec =
  swidth :: int
  shash :: "32 word"
  schunks :: "sigchunk list"
  sbits :: "sigbit list"

definition sig_empty :: sigspec where
  "sig_empty = \<lparr>swidth = 0, shash = 0, schunks = [], sbits = []\<rparr>"

definition packed :: "sigspec \<Rightarrow> bool" where
  "packed s \<longleftrightarrow> sbits s = []"

text \<open>\<open>check()\<close>, compiled in when \<open>NDEBUG\<close> is not defined; it skips signals wider than 64 bits.\<close>

definition chunk_ok :: "sigchunk \<Rightarrow> bool" where
  "chunk_ok c \<longleftrightarrow> cwidth c \<noteq> 0 \<and>
     (case cwire c of
        None \<Rightarrow> coffset c = 0 \<and> int (length (cdata c)) = cwidth c
      | Some w \<Rightarrow> coffset c \<ge> 0 \<and> cwidth c \<ge> 0 \<and> coffset c + cwidth c \<le> wire_width w \<and> cdata c = [])"

text \<open>The condition on two neighbours.\<close>

definition chunk_break :: "sigchunk \<Rightarrow> sigchunk \<Rightarrow> bool" where
  "chunk_break p c \<longleftrightarrow>
     (case cwire c of
        None \<Rightarrow> cwire p \<noteq> None
      | Some w \<Rightarrow> cwire p = Some w \<longrightarrow> coffset c \<noteq> coffset p + cwidth p)"

fun breaks :: "sigchunk list \<Rightarrow> bool" where
  "breaks (p # c # cs) \<longleftrightarrow> chunk_break p c \<and> breaks (c # cs)"
| "breaks _ \<longleftrightarrow> True"

definition sig_check :: "sigspec \<Rightarrow> sigspec res" where
  "sig_check s =
     guardE (swidth s > 64 \<or>
       (if packed s then
          list_all chunk_ok (schunks s) \<and> breaks (schunks s) \<and>
          sum_list (map cwidth (schunks s)) = swidth s
        else swidth s = int (length (sbits s)) \<and> schunks s = [])) Assert_failed (Inr s)"

definition sig_of_chunk :: "sigchunk \<Rightarrow> sigspec" where
  "sig_of_chunk c = \<lparr>swidth = cwidth c, shash = 0, schunks = [c], sbits = []\<rparr>"

definition SigSpec_const :: "const_t \<Rightarrow> sigspec res" where
  "SigSpec_const v = sig_check (if length (bits v) \<noteq> 0 then sig_of_chunk (SigChunk_const v) else sig_empty)"

definition SigSpec_chunk :: "sigchunk \<Rightarrow> sigspec res" where
  "SigSpec_chunk c = sig_check (if cwidth c \<noteq> 0 then sig_of_chunk c else sig_empty)"

definition SigSpec_wire :: "wire_t \<Rightarrow> sigspec res" where
  "SigSpec_wire w = sig_check (if wire_width w \<noteq> 0 then sig_of_chunk (SigChunk_wire w) else sig_empty)"

definition SigSpec_part :: "wire_t \<Rightarrow> int \<Rightarrow> int \<Rightarrow> sigspec res" where
  "SigSpec_part w offset width =
     sig_check (if width \<noteq> 0 then sig_of_chunk (SigChunk_part w offset width) else sig_empty)"

definition SigSpec_string :: "string \<Rightarrow> sigspec res" where
  "SigSpec_string str = sig_check (if str \<noteq> [] then sig_of_chunk (SigChunk_string str) else sig_empty)"

definition SigSpec_int :: "int \<Rightarrow> int \<Rightarrow> sigspec res" where
  "SigSpec_int val width =
     (if width \<noteq> 0 then bindE (SigChunk_int val width) (\<lambda>c. sig_check ((sig_of_chunk c)\<lparr>swidth := width\<rparr>))
      else sig_check sig_empty)"

definition SigSpec_state :: "state \<Rightarrow> int \<Rightarrow> sigspec res" where
  "SigSpec_state b width =
     (if width \<noteq> 0 then bindE (SigChunk_state b width) (\<lambda>c. sig_check ((sig_of_chunk c)\<lparr>swidth := width\<rparr>))
      else sig_check sig_empty)"

definition SigSpec_bit :: "sigbit \<Rightarrow> int \<Rightarrow> sigspec res" where
  "SigSpec_bit b width =
     (if width \<noteq> 0 then
        bindE (case b of
            Bit_state s \<Rightarrow> bindE (SigChunk_state s width) (\<lambda>c. Inr [c])
          | Bit_wire _ _ \<Rightarrow> Inr (replicate (nat width) (SigChunk_bit b)))
          (\<lambda>cs. sig_check \<lparr>swidth = width, shash = 0, schunks = cs, sbits = []\<rparr>)
      else sig_check sig_empty)"

text \<open>One iteration of the loop of \<open>pack\<close>: the chunks so far and \<open>last_end_offset\<close>.  For a constant bit
  \<open>bit.offset\<close> reads the other member of the union; the value is not used.\<close>

fun bit_offset :: "sigbit \<Rightarrow> int" where
  "bit_offset (Bit_wire _ i) = i"
| "bit_offset (Bit_state s) = int (state_code s)"

definition pack_step :: "sigchunk list \<times> int \<Rightarrow> sigbit \<Rightarrow> sigchunk list \<times> int" where
  "pack_step acc b =
     (let (cs, last_end_offset) = acc; push = (cs @ [SigChunk_bit b], bit_offset b + 1)
      in if cs \<noteq> [] \<and> bit_wire b = cwire (last cs) then
           (let l = last cs in
            case b of
              Bit_state s \<Rightarrow> (butlast cs @ [l\<lparr>cdata := cdata l @ [s], cwidth := cwidth l + 1\<rparr>], last_end_offset)
            | Bit_wire w i \<Rightarrow>
                if last_end_offset = i
                then (butlast cs @ [l\<lparr>cwidth := cwidth l + 1\<rparr>], last_end_offset + 1) else push)
         else push)"

definition sig_pack :: "sigspec \<Rightarrow> sigspec res" where
  "sig_pack s =
     (if sbits s = [] then Inr s
      else guardE (schunks s = []) Assert_failed
        (sig_check (s\<lparr>schunks := fst (foldl pack_step ([], 0) (sbits s)), sbits := []\<rparr>)))"

definition chunk_bits :: "sigchunk \<Rightarrow> sigbit list" where
  "chunk_bits c = map (\<lambda>i. SigBit_chunk_at c (int i)) [0..<nat (cwidth c)]"

definition sig_unpack :: "sigspec \<Rightarrow> sigspec res" where
  "sig_unpack s =
     (if schunks s = [] then Inr s
      else guardE (sbits s = []) Assert_failed (
        guardE (list_all (\<lambda>c. cwire c = None \<longrightarrow> cwidth c \<le> int (length (cdata c))) (schunks s))
          Undefined_behaviour
          (Inr (s\<lparr>sbits := concat (map chunk_bits (schunks s)), schunks := [], shash := 0\<rparr>))))"

definition chunk_hash :: "32 word \<Rightarrow> sigchunk \<Rightarrow> 32 word" where
  "chunk_hash h c =
     (case cwire c of
        None \<Rightarrow> foldl (\<lambda>h v. mkhash h (of_nat (state_code v))) h (cdata c)
      | Some w \<Rightarrow> mkhash (mkhash (mkhash h (word_of_int (wire_name w))) (word_of_int (coffset c)))
                    (word_of_int (cwidth c)))"

definition chunks_hash :: "sigchunk list \<Rightarrow> 32 word" where
  "chunks_hash cs = (let h = foldl chunk_hash mkhash_init cs in if h = 0 then 1 else h)"

definition sig_updhash :: "sigspec \<Rightarrow> sigspec res" where
  "sig_updhash s =
     (if shash s \<noteq> 0 then Inr s
      else bindE (sig_pack s) (\<lambda>s. Inr (s\<lparr>shash := chunks_hash (schunks s)\<rparr>)))"

definition sig_hash :: "sigspec \<Rightarrow> (32 word \<times> sigspec) res" where
  "sig_hash s = bindE (if shash s = 0 then sig_updhash s else Inr s) (\<lambda>s. Inr (shash s, s))"

text \<open>Appending one chunk to a packed signal, the body of the loop of \<open>append(const SigSpec&)\<close>.\<close>

definition append_chunk :: "sigchunk list \<Rightarrow> sigchunk \<Rightarrow> sigchunk list" where
  "append_chunk cs c =
     (let l = last cs
      in if cwire l = None \<and> cwire c = None then
           butlast cs @ [l\<lparr>cdata := cdata l @ cdata c, cwidth := cwidth l + cwidth c\<rparr>]
         else if cwire l = cwire c \<and> coffset l + cwidth l = coffset c then
           butlast cs @ [l\<lparr>cwidth := cwidth l + cwidth c\<rparr>]
         else cs @ [c])"

definition sig_append :: "sigspec \<Rightarrow> sigspec \<Rightarrow> sigspec res" where
  "sig_append s signal =
     (if swidth signal = 0 then Inr s
      else if swidth s = 0 then Inr signal
      else
        bindE (if packed s \<noteq> packed signal then sig_pack s else Inr s) (\<lambda>s'.
        bindE (if packed s \<noteq> packed signal then sig_pack signal else Inr signal) (\<lambda>signal'.
        if packed s' then
          guardE (schunks signal' = [] \<or> schunks s' \<noteq> []) Undefined_behaviour
            (sig_check (s'\<lparr>schunks := foldl append_chunk (schunks s') (schunks signal'),
                           swidth := swidth s' + swidth signal'\<rparr>))
        else sig_check (s'\<lparr>sbits := sbits s' @ sbits signal', swidth := swidth s' + swidth signal'\<rparr>))))"

definition append_bit_chunks :: "sigchunk list \<Rightarrow> sigbit \<Rightarrow> sigchunk list" where
  "append_bit_chunks cs b =
     (if cs = [] then [SigChunk_bit b]
      else let l = last cs in
        case b of
          Bit_state s \<Rightarrow>
            if cwire l = None then butlast cs @ [l\<lparr>cdata := cdata l @ [s], cwidth := cwidth l + 1\<rparr>]
            else cs @ [SigChunk_bit b]
        | Bit_wire w i \<Rightarrow>
            if cwire l = Some w \<and> coffset l + cwidth l = i then butlast cs @ [l\<lparr>cwidth := cwidth l + 1\<rparr>]
            else cs @ [SigChunk_bit b])"

definition sig_append_bit :: "sigspec \<Rightarrow> sigbit \<Rightarrow> sigspec res" where
  "sig_append_bit s b =
     (let s = (if packed s then s\<lparr>schunks := append_bit_chunks (schunks s) b\<rparr>
               else s\<lparr>sbits := sbits s @ [b]\<rparr>)
      in sig_check (s\<lparr>swidth := swidth s + 1\<rparr>))"

definition SigSpec_chunks :: "sigchunk list \<Rightarrow> sigspec res" where
  "SigSpec_chunks cs =
     bindE (foldE (\<lambda>s c. bindE (SigSpec_chunk c) (sig_append s)) sig_empty cs) sig_check"

definition SigSpec_bits :: "sigbit list \<Rightarrow> sigspec res" where
  "SigSpec_bits bs = bindE (foldE sig_append_bit sig_empty bs) sig_check"

text \<open>From a pool the bits are appended in its iteration order.\<close>

definition SigSpec_pool :: "sigbit pool \<Rightarrow> sigspec res" where
  "SigSpec_pool p = bindE (foldE sig_append_bit sig_empty (pool_items p)) sig_check"

definition SigSpec_bool :: "bool \<Rightarrow> sigspec res" where
  "SigSpec_bool b = bindE (sig_append_bit sig_empty (SigBit_bool b)) sig_check"

definition SigSpec_list :: "sigspec list \<Rightarrow> sigspec res" where
  "SigSpec_list parts = guardE (parts \<noteq> []) Assert_failed (foldE sig_append sig_empty (rev parts))"

text \<open>From a \<open>std::set\<close> the bits come in ascending order.\<close>

definition SigSpec_set :: "sigbit list \<Rightarrow> sigspec res" where
  "SigSpec_set bs = bindE (foldE sig_append_bit sig_empty bs) sig_check"

section \<open>The bits of a signal and its invariant\<close>

definition sig_bits :: "sigspec \<Rightarrow> sigbit list" where
  "sig_bits s = sbits s @ concat (map chunk_bits (schunks s))"

fun bit_ok :: "sigbit \<Rightarrow> bool" where
  "bit_ok (Bit_state _) \<longleftrightarrow> True"
| "bit_ok (Bit_wire w i) \<longleftrightarrow> 0 \<le> i \<and> i < wire_width w"

text \<open>What \<open>check()\<close> asserts, at every width, and that every bit lies inside its wire.\<close>

definition sig_inv :: "sigspec \<Rightarrow> bool" where
  "sig_inv s \<longleftrightarrow>
     (if packed s then
        list_all chunk_ok (schunks s) \<and> breaks (schunks s) \<and> sum_list (map cwidth (schunks s)) = swidth s
      else swidth s = int (length (sbits s)) \<and> schunks s = [] \<and> list_all bit_ok (sbits s))"

text \<open>The cached hash is absent or right.\<close>

definition hash_ok :: "sigspec \<Rightarrow> bool" where
  "hash_ok s \<longleftrightarrow> shash s = 0 \<or> packed s \<and> shash s = chunks_hash (schunks s)"

text \<open>The canonical chunks of a list of bits.\<close>

definition canon :: "sigbit list \<Rightarrow> sigchunk list" where
  "canon bs = foldl append_bit_chunks [] bs"

definition chunk_end :: "sigchunk \<Rightarrow> int" where
  "chunk_end c = coffset c + cwidth c"

section \<open>Packing\<close>

lemma chunk_bits_bit [simp]: "chunk_bits (SigChunk_bit b) = [b]"
  by (cases b) (simp_all add: chunk_bits_def SigBit_chunk_at_def)

lemma chunk_ok_bit [simp]: "chunk_ok (SigChunk_bit b) \<longleftrightarrow> bit_ok b"
  by (cases b) (auto simp: chunk_ok_def)

lemma cwire_bit [simp]: "cwire (SigChunk_bit b) = bit_wire b"
  by (cases b) simp_all

lemma chunk_bits_const:
  "cwire c = None \<Longrightarrow> int (length (cdata c)) = cwidth c \<Longrightarrow> chunk_bits c = map Bit_state (cdata c)"
  by (rule nth_equalityI) (auto simp: chunk_bits_def SigBit_chunk_at_def)

lemma chunk_bits_wire:
  "cwire c = Some w \<Longrightarrow> chunk_bits c = map (\<lambda>i. Bit_wire w (coffset c + int i)) [0..<nat (cwidth c)]"
  by (simp add: chunk_bits_def SigBit_chunk_at_def)

lemma breaks_snoc: "breaks (cs @ [c]) \<longleftrightarrow> breaks cs \<and> (cs \<noteq> [] \<longrightarrow> chunk_break (last cs) c)"
  by (induction cs rule: breaks.induct) auto

lemma chunk_break_same_end:
  "cwire c = cwire c' \<Longrightarrow> coffset c = coffset c' \<Longrightarrow> chunk_break p c \<longleftrightarrow> chunk_break p c'"
  by (auto simp: chunk_break_def split: option.split)

text \<open>The chunks of a list of bits that satisfy the conditions of \<open>check()\<close> are unique;
  \<open>append_bit_chunks\<close> computes them bit by bit.  It opens a chunk or extends the last one.\<close>

lemma append_bit_cases:
  assumes "list_all chunk_ok cs"
  obtains (fresh) "append_bit_chunks cs b = cs @ [SigChunk_bit b]"
      "cs \<noteq> [] \<Longrightarrow> bit_ok b \<Longrightarrow> chunk_break (last cs) (SigChunk_bit b)"
  | (grow) ds l l' where "cs = ds @ [l]" "append_bit_chunks cs b = ds @ [l']"
      "chunk_bits l' = chunk_bits l @ [b]" "cwire l' = cwire l" "coffset l' = coffset l"
      "cwidth l' = cwidth l + 1" "bit_ok b \<Longrightarrow> chunk_ok l'"
proof (cases cs rule: rev_cases)
  case Nil
  then show ?thesis by (intro fresh) (simp_all add: append_bit_chunks_def)
next
  case (snoc ds l)
  then have ok: "chunk_ok l" using assms by simp
  show ?thesis
  proof (cases b)
    case (Bit_state s)
    show ?thesis
    proof (cases "cwire l")
      case None
      let ?l' = "l\<lparr>cdata := cdata l @ [s], cwidth := cwidth l + 1\<rparr>"
      have "chunk_bits ?l' = chunk_bits l @ [b]"
        using ok None Bit_state by (subst (1 2) chunk_bits_const) (auto simp: chunk_ok_def)
      moreover have "chunk_ok ?l'"
        using ok None by (auto simp: chunk_ok_def)
      ultimately show ?thesis
        using snoc None Bit_state by (intro grow [of ds l ?l']) (simp_all add: append_bit_chunks_def)
    next
      case (Some w)
      then show ?thesis
        using snoc Bit_state by (intro fresh) (simp_all add: append_bit_chunks_def chunk_break_def)
    qed
  next
    case (Bit_wire w i)
    show ?thesis
    proof (cases "cwire l = Some w \<and> coffset l + cwidth l = i")
      case True
      let ?l' = "l\<lparr>cwidth := cwidth l + 1\<rparr>"
      have nat: "nat (cwidth l + 1) = Suc (nat (cwidth l))" "0 \<le> cwidth l"
        using ok True by (auto simp: chunk_ok_def)
      have "chunk_bits ?l' = chunk_bits l @ [b]"
        using True Bit_wire nat by (simp add: chunk_bits_wire)
      moreover have "bit_ok b \<Longrightarrow> chunk_ok ?l'"
        using ok True Bit_wire by (auto simp: chunk_ok_def)
      ultimately show ?thesis
        using snoc True Bit_wire by (intro grow [of ds l ?l']) (simp_all add: append_bit_chunks_def)
    next
      case False
      then show ?thesis
        using snoc Bit_wire by (intro fresh) (auto simp: append_bit_chunks_def chunk_break_def)
    qed
  qed
qed

lemma append_bit_chunks_ok:
  assumes "list_all chunk_ok cs" "breaks cs" "bit_ok b"
  shows "list_all chunk_ok (append_bit_chunks cs b) \<and> breaks (append_bit_chunks cs b) \<and>
    sum_list (map cwidth (append_bit_chunks cs b)) = sum_list (map cwidth cs) + 1 \<and>
    concat (map chunk_bits (append_bit_chunks cs b)) = concat (map chunk_bits cs) @ [b]"
proof (cases rule: append_bit_cases [OF assms(1), of b])
  case 1
  have "cwidth (SigChunk_bit b) = 1"
    by (cases b) simp_all
  then show ?thesis
    using 1 assms by (simp add: breaks_snoc)
next
  case (2 ds l l')
  have "chunk_break p l' = chunk_break p l" for p
    by (rule chunk_break_same_end) (use 2 in simp_all)
  then show ?thesis
    using 2 assms by (simp add: breaks_snoc)
qed

lemma canon_Nil [simp]: "canon [] = []"
  by (simp add: canon_def)

lemma canon_snoc: "canon (bs @ [b]) = append_bit_chunks (canon bs) b"
  by (simp add: canon_def)

lemma canon_append: "canon (xs @ ys) = foldl append_bit_chunks (canon xs) ys"
  by (simp add: canon_def)

lemma canon_ok:
  assumes "list_all bit_ok bs"
  shows "list_all chunk_ok (canon bs)" "breaks (canon bs)"
    "sum_list (map cwidth (canon bs)) = int (length bs)" "concat (map chunk_bits (canon bs)) = bs"
  using assms by (induction bs rule: rev_induct) (simp_all add: canon_snoc append_bit_chunks_ok)

lemma grow_const:
  "cwire l = None \<Longrightarrow> foldl append_bit_chunks (ds @ [l]) (map Bit_state xs)
     = ds @ [l\<lparr>cdata := cdata l @ xs, cwidth := cwidth l + int (length xs)\<rparr>]"
  by (induction xs arbitrary: l) (simp_all add: append_bit_chunks_def algebra_simps)

lemma grow_wire:
  "cwire l = Some w \<Longrightarrow> coffset l + cwidth l = e \<Longrightarrow>
     foldl append_bit_chunks (ds @ [l]) (map (\<lambda>i. Bit_wire w (e + int i)) [0..<n])
       = ds @ [l\<lparr>cwidth := cwidth l + int n\<rparr>]"
  by (induction n) (simp_all add: append_bit_chunks_def algebra_simps)

lemma append_fresh:
  assumes "cs = [] \<or> chunk_break (last cs) (SigChunk_bit b)"
  shows "append_bit_chunks cs b = cs @ [SigChunk_bit b]"
  using assms by (cases b) (auto simp: append_bit_chunks_def chunk_break_def)

lemma const_chunk_split:
  assumes "chunk_ok c" "cwire c = None"
  obtains s xs where "chunk_bits c = Bit_state s # map Bit_state xs"
    "c = (SigChunk_bit (Bit_state s))\<lparr>cdata := s # xs, cwidth := 1 + int (length xs)\<rparr>"
proof -
  obtain s xs where d: "cdata c = s # xs"
    using assms by (cases "cdata c") (auto simp: chunk_ok_def)
  then show ?thesis
    using assms by (intro that [of s xs]) (auto simp: chunk_ok_def chunk_bits_const)
qed

lemma wire_chunk_split:
  assumes "chunk_ok c" "cwire c = Some w"
  obtains n where
    "chunk_bits c = Bit_wire w (coffset c) # map (\<lambda>i. Bit_wire w (coffset c + 1 + int i)) [0..<n]"
    "c = (SigChunk_bit (Bit_wire w (coffset c)))\<lparr>cwidth := 1 + int n\<rparr>"
proof
  let ?n = "nat (cwidth c) - 1"
  have n: "nat (cwidth c) = Suc ?n" "cwidth c = 1 + int ?n"
    using assms by (auto simp: chunk_ok_def)
  show "chunk_bits c = Bit_wire w (coffset c) # map (\<lambda>i. Bit_wire w (coffset c + 1 + int i)) [0..<?n]"
    unfolding chunk_bits_wire [OF assms(2)]
    by (rule nth_equalityI) (use n in \<open>auto simp: nth_Cons' algebra_simps\<close>)
  show "c = (SigChunk_bit (Bit_wire w (coffset c)))\<lparr>cwidth := 1 + int ?n\<rparr>"
    using assms n by (auto simp: chunk_ok_def)
qed

lemma append_bits_fresh:
  assumes "chunk_ok c" "cs = [] \<or> chunk_break (last cs) c"
  shows "foldl append_bit_chunks cs (chunk_bits c) = cs @ [c]"
proof (cases "cwire c")
  case None
  obtain s xs where c: "chunk_bits c = Bit_state s # map Bit_state xs"
    "c = (SigChunk_bit (Bit_state s))\<lparr>cdata := s # xs, cwidth := 1 + int (length xs)\<rparr>"
    using assms(1) None by (rule const_chunk_split)
  have "append_bit_chunks cs (Bit_state s) = cs @ [SigChunk_bit (Bit_state s)]"
    by (rule append_fresh) (use assms(2) None in \<open>auto simp: chunk_break_def\<close>)
  then show ?thesis
    using c by (simp add: grow_const)
next
  case (Some w)
  obtain n where c: "chunk_bits c = Bit_wire w (coffset c) # map (\<lambda>i. Bit_wire w (coffset c + 1 + int i)) [0..<n]"
    "c = (SigChunk_bit (Bit_wire w (coffset c)))\<lparr>cwidth := 1 + int n\<rparr>"
    using assms(1) Some by (rule wire_chunk_split)
  have a: "append_bit_chunks cs (Bit_wire w (coffset c)) = cs @ [SigChunk_bit (Bit_wire w (coffset c))]"
    by (rule append_fresh) (use assms(2) Some in \<open>auto simp: chunk_break_def\<close>)
  have "foldl append_bit_chunks cs (chunk_bits c) = cs @ [(SigChunk_bit (Bit_wire w (coffset c)))\<lparr>cwidth := 1 + int n\<rparr>]"
    unfolding c(1) foldl_Cons a by (subst grow_wire) simp_all
  then show ?thesis
    by (simp only: c(2) [symmetric])
qed

lemma append_bits_chunk:
  assumes "chunk_ok c" "list_all chunk_ok cs" "cs \<noteq> []"
  shows "foldl append_bit_chunks cs (chunk_bits c) = append_chunk cs c"
proof (cases "chunk_break (last cs) c")
  case True
  then show ?thesis
    using assms append_bits_fresh [of c cs]
    by (auto simp: append_chunk_def chunk_break_def split: option.splits)
next
  case False
  obtain ds l where cs: "cs = ds @ [l]"
    using assms(3) by (cases cs rule: rev_cases) auto
  show ?thesis
  proof (cases "cwire c")
    case None
    then show ?thesis
      using False cs assms(1)
      by (simp add: append_chunk_def chunk_break_def chunk_bits_const grow_const chunk_ok_def)
  next
    case (Some w)
    moreover have "int (nat (cwidth c)) = cwidth c"
      using Some assms(1) by (simp add: chunk_ok_def)
    ultimately show ?thesis
      using False cs
      by (auto simp: append_chunk_def chunk_break_def chunk_bits_wire grow_wire)
  qed
qed

lemma append_bits_chunks:
  assumes "list_all chunk_ok cs" "breaks cs" "list_all chunk_ok ds" "breaks ds"
    "ds = [] \<or> cs = [] \<or> chunk_break (last ds) (hd cs)"
  shows "foldl append_bit_chunks ds (concat (map chunk_bits cs)) = ds @ cs"
  using assms
proof (induction cs arbitrary: ds)
  case (Cons c cs)
  have "foldl append_bit_chunks ds (chunk_bits c) = ds @ [c]"
    by (rule append_bits_fresh) (use Cons.prems in auto)
  moreover have "foldl append_bit_chunks (ds @ [c]) (concat (map chunk_bits cs)) = (ds @ [c]) @ cs"
    by (rule Cons.IH) (use Cons.prems in \<open>cases cs; auto simp: breaks_snoc\<close>)+
  ultimately show ?case
    by simp
qed simp

lemma canon_unique:
  assumes "list_all chunk_ok cs" "breaks cs"
  shows "canon (concat (map chunk_bits cs)) = cs"
  using append_bits_chunks [of cs "[]"] assms by (simp add: canon_def)

lemma chunk_ok_bits: "chunk_ok c \<Longrightarrow> list_all bit_ok (chunk_bits c)"
  by (cases "cwire c") (auto simp: chunk_bits_const chunk_bits_wire chunk_ok_def list_all_iff)

lemma chunks_ok_bits: "list_all chunk_ok cs \<Longrightarrow> list_all bit_ok (concat (map chunk_bits cs))"
  by (induction cs) (simp_all add: chunk_ok_bits)

lemma append_chunk_canon:
  assumes "list_all chunk_ok cs" "list_all bit_ok bs" "bs \<noteq> []"
  shows "foldl append_chunk (canon bs) cs = canon (bs @ concat (map chunk_bits cs))"
  using assms
proof (induction cs arbitrary: bs)
  case (Cons c cs)
  have "canon bs \<noteq> []"
    using canon_ok(4) [OF Cons.prems(2)] Cons.prems(3) by auto
  then have "append_chunk (canon bs) c = canon (bs @ chunk_bits c)"
    using Cons.prems by (simp add: canon_append append_bits_chunk canon_ok(1))
  moreover have "foldl append_chunk (canon (bs @ chunk_bits c)) cs
      = canon ((bs @ chunk_bits c) @ concat (map chunk_bits cs))"
    by (rule Cons.IH) (use Cons.prems in \<open>auto simp: chunk_ok_bits\<close>)
  ultimately show ?case
    by simp
qed simp

text \<open>The loop of \<open>pack\<close> builds the same chunks.\<close>

lemma pack_step_canon:
  assumes "cs \<noteq> [] \<longrightarrow> cwire (last cs) \<noteq> None \<longrightarrow> e = chunk_end (last cs)"
  shows "fst (pack_step (cs, e) b) = append_bit_chunks cs b"
    "append_bit_chunks cs b \<noteq> []"
    "cwire (last (append_bit_chunks cs b)) \<noteq> None \<longrightarrow>
       snd (pack_step (cs, e) b) = chunk_end (last (append_bit_chunks cs b))"
  using assms
  by (cases cs rule: rev_cases; cases b; auto simp: pack_step_def append_bit_chunks_def chunk_end_def Let_def)+

lemma pack_canon:
  assumes "cs \<noteq> [] \<longrightarrow> cwire (last cs) \<noteq> None \<longrightarrow> e = chunk_end (last cs)"
  shows "fst (foldl pack_step (cs, e) bs) = foldl append_bit_chunks cs bs"
  using assms
proof (induction bs arbitrary: cs e)
  case (Cons b bs)
  obtain e' where e': "pack_step (cs, e) b = (append_bit_chunks cs b, e')"
    using pack_step_canon(1) [OF Cons.prems, of b] by (metis prod.collapse)
  moreover have "fst (foldl pack_step (append_bit_chunks cs b, e') bs)
      = foldl append_bit_chunks (append_bit_chunks cs b) bs"
    by (rule Cons.IH) (use pack_step_canon(3) [OF Cons.prems, of b] e' in auto)
  ultimately show ?case
    by simp
qed simp

section \<open>Representations of a list of bits\<close>

lemma sig_inv_iff:
  "sig_inv s \<longleftrightarrow> swidth s = int (length (sig_bits s)) \<and> list_all bit_ok (sig_bits s) \<and>
     (sbits s = [] \<and> schunks s = canon (sig_bits s) \<or> sbits s \<noteq> [] \<and> schunks s = [])"
proof (cases "sbits s = []")
  case True
  have "list_all chunk_ok (schunks s) \<and> breaks (schunks s) \<and> sum_list (map cwidth (schunks s)) = swidth s \<longleftrightarrow>
      swidth s = int (length (sig_bits s)) \<and> list_all bit_ok (sig_bits s) \<and> schunks s = canon (sig_bits s)"
  proof (intro iffI)
    assume l: "list_all chunk_ok (schunks s) \<and> breaks (schunks s) \<and> sum_list (map cwidth (schunks s)) = swidth s"
    then have b: "list_all bit_ok (sig_bits s)" "schunks s = canon (sig_bits s)"
      using True by (simp_all add: sig_bits_def canon_unique chunks_ok_bits)
    then show "swidth s = int (length (sig_bits s)) \<and> list_all bit_ok (sig_bits s) \<and> schunks s = canon (sig_bits s)"
      using l canon_ok(3) [OF b(1)] by simp
  next
    assume "swidth s = int (length (sig_bits s)) \<and> list_all bit_ok (sig_bits s) \<and> schunks s = canon (sig_bits s)"
    then show "list_all chunk_ok (schunks s) \<and> breaks (schunks s) \<and> sum_list (map cwidth (schunks s)) = swidth s"
      using canon_ok [of "sig_bits s"] by simp
  qed
  then show ?thesis
    using True by (simp add: sig_inv_def packed_def)
next
  case False
  then show ?thesis
    by (auto simp: sig_inv_def packed_def sig_bits_def)
qed

lemma sig_inv_width: "sig_inv s \<Longrightarrow> swidth s = int (length (sig_bits s))"
  and sig_inv_bit_ok: "sig_inv s \<Longrightarrow> list_all bit_ok (sig_bits s)"
  by (simp_all add: sig_inv_iff)

lemma sig_width_0: "sig_inv s \<Longrightarrow> swidth s = 0 \<longleftrightarrow> sig_bits s = []"
  by (simp add: sig_inv_iff)

lemma sig_unpacked_rep:
  assumes "sbits s = bs" "schunks s = []" "swidth s = int (length bs)" "list_all bit_ok bs"
  shows "sig_inv s" "sig_bits s = bs"
  using assms by (auto simp: sig_inv_iff sig_bits_def)

lemma sig_packed_rep:
  assumes "schunks s = canon bs" "sbits s = []" "swidth s = int (length bs)" "list_all bit_ok bs"
  shows "sig_inv s" "sig_bits s = bs"
  using assms by (auto simp: sig_inv_iff sig_bits_def canon_ok(4))

lemma sig_check_ok: "sig_inv s \<Longrightarrow> sig_check s = Inr s"
  by (simp add: sig_check_def sig_inv_def split: if_splits)

lemma sig_empty_ok [simp]: "sig_inv sig_empty" "sig_bits sig_empty = []" "hash_ok sig_empty" "shash sig_empty = 0"
  by (simp_all add: sig_inv_def sig_bits_def sig_empty_def hash_ok_def packed_def)

lemma sig_pack_ok:
  assumes "sig_inv s"
  obtains s' where "sig_pack s = Inr s'" "sig_inv s'" "sig_bits s' = sig_bits s"
    "schunks s' = canon (sig_bits s)" "sbits s' = []" "swidth s' = swidth s" "shash s' = shash s"
    "hash_ok s \<Longrightarrow> hash_ok s'"
proof (cases "sbits s = []")
  case True
  then show ?thesis
    using assms by (intro that [of s]) (simp_all add: sig_pack_def sig_inv_iff)
next
  case False
  let ?s = "s\<lparr>schunks := canon (sig_bits s), sbits := []\<rparr>"
  have bs: "schunks s = []" "sig_bits s = sbits s"
    using assms False by (auto simp: sig_inv_iff sig_bits_def)
  have inv: "sig_inv ?s" "sig_bits ?s = sig_bits s"
    using assms by (auto intro!: sig_packed_rep simp: sig_inv_width sig_inv_bit_ok)
  have "sig_pack s = sig_check ?s"
    using False bs pack_canon [of "[]" 0 "sbits s"] by (simp add: sig_pack_def canon_def)
  then show ?thesis
    using inv False by (intro that [of ?s]) (auto simp: sig_check_ok hash_ok_def packed_def)
qed

lemma sig_unpack_ok:
  assumes "sig_inv s"
  obtains s' where "sig_unpack s = Inr s'" "sig_inv s'" "sig_bits s' = sig_bits s"
    "sbits s' = sig_bits s" "schunks s' = []" "swidth s' = swidth s" "hash_ok s \<Longrightarrow> hash_ok s'"
    "hash_ok s \<Longrightarrow> sig_bits s \<noteq> [] \<Longrightarrow> shash s' = 0"
proof (cases "schunks s = []")
  case True
  then show ?thesis
    using assms by (intro that [of s]) (auto simp: sig_unpack_def sig_bits_def hash_ok_def packed_def)
next
  case False
  let ?s = "s\<lparr>sbits := sig_bits s, schunks := [], shash := 0\<rparr>"
  have bs: "sbits s = []" "sig_bits s = concat (map chunk_bits (schunks s))"
    using assms False by (auto simp: sig_inv_iff sig_bits_def)
  have "list_all chunk_ok (schunks s)"
    using assms bs by (simp add: sig_inv_def packed_def)
  then have "list_all (\<lambda>c. cwire c = None \<longrightarrow> cwidth c \<le> int (length (cdata c))) (schunks s)"
    by (auto simp: list_all_iff chunk_ok_def)
  then have u: "sig_unpack s = Inr ?s"
    using bs False by (simp add: sig_unpack_def)
  have "sig_inv ?s" "sig_bits ?s = sig_bits s"
    using assms by (auto intro!: sig_unpacked_rep simp: sig_inv_width sig_inv_bit_ok)
  then show ?thesis
    using u by (intro that [of ?s]) (simp_all add: hash_ok_def)
qed

lemma sig_updhash_ok:
  assumes "sig_inv s" "hash_ok s"
  obtains s' where "sig_updhash s = Inr s'" "sig_inv s'" "sig_bits s' = sig_bits s" "hash_ok s'"
    "shash s' = chunks_hash (canon (sig_bits s))" "schunks s' = canon (sig_bits s)" "sbits s' = []"
    "swidth s' = swidth s"
proof (cases "shash s = 0")
  case True
  obtain p where p: "sig_pack s = Inr p" "sig_inv p" "sig_bits p = sig_bits s"
    "schunks p = canon (sig_bits s)" "sbits p = []" "swidth p = swidth s"
    using assms(1) by (rule sig_pack_ok)
  let ?s = "p\<lparr>shash := chunks_hash (schunks p)\<rparr>"
  have "sig_inv ?s" "sig_bits ?s = sig_bits s"
    using p assms by (auto intro!: sig_packed_rep simp: sig_inv_width sig_inv_bit_ok)
  then show ?thesis
    using p True by (intro that [of ?s]) (simp_all add: sig_updhash_def hash_ok_def packed_def)
next
  case False
  then show ?thesis
    using assms by (intro that [of s]) (auto simp: sig_updhash_def hash_ok_def packed_def sig_inv_iff)
qed

section \<open>Appending\<close>

lemma sig_append_ok:
  assumes "sig_inv s" "sig_inv t"
  obtains r where "sig_append s t = Inr r" "sig_inv r" "sig_bits r = sig_bits s @ sig_bits t"
    "shash s = 0 \<Longrightarrow> shash t = 0 \<Longrightarrow> shash r = 0" "sig_bits s \<noteq> [] \<Longrightarrow> shash r = shash s"
proof (cases "sig_bits s = [] \<or> sig_bits t = []")
  case True
  show ?thesis
  proof (cases "sig_bits t = []")
    case t: True
    then show ?thesis
      using assms by (intro that [of s]) (simp_all add: sig_append_def sig_width_0)
  next
    case False
    with True show ?thesis
      using assms by (intro that [of t]) (simp_all add: sig_append_def sig_width_0)
  qed
next
  case False
  then have w: "swidth t \<noteq> 0" "swidth s \<noteq> 0"
    using assms by (simp_all add: sig_width_0)
  have ok: "list_all bit_ok (sig_bits s @ sig_bits t)"
    using assms by (simp add: sig_inv_bit_ok)
  have app: "\<exists>r. sig_append s t = Inr r \<and> sig_inv r \<and> sig_bits r = sig_bits s @ sig_bits t \<and> shash r = shash s"
    if "sig_append s t = sig_check r" "sig_inv r \<and> sig_bits r = sig_bits s @ sig_bits t" "shash r = shash s" for r
    using that by (auto simp: sig_check_ok)
  have chunked: "sig_inv r \<and> sig_bits r = sig_bits s @ sig_bits t"
    if "r = s'\<lparr>schunks := foldl append_chunk (schunks s') (schunks t'), swidth := swidth s' + swidth t'\<rparr>"
      "schunks s' = canon (sig_bits s)" "schunks t' = canon (sig_bits t)" "sbits s' = []"
      "swidth s' = swidth s" "swidth t' = swidth t" for r s' t'
  proof -
    have "foldl append_chunk (canon (sig_bits s)) (canon (sig_bits t)) = canon (sig_bits s @ sig_bits t)"
      using append_chunk_canon [of "canon (sig_bits t)" "sig_bits s"] canon_ok [OF sig_inv_bit_ok [OF assms(2)]]
        False assms by (simp add: sig_inv_bit_ok)
    then show ?thesis
      using that assms ok by (intro conjI sig_packed_rep [of _ "sig_bits s @ sig_bits t"]) (auto simp: sig_inv_width)
  qed
  have ne: "canon (sig_bits s) \<noteq> []"
    using False canon_ok(4) [OF sig_inv_bit_ok [OF assms(1)]] by auto
  obtain s' where s': "sig_pack s = Inr s'" "schunks s' = canon (sig_bits s)" "sbits s' = []"
    "swidth s' = swidth s" "shash s' = shash s"
    using assms(1) by (rule sig_pack_ok)
  obtain t' where t': "sig_pack t = Inr t'" "schunks t' = canon (sig_bits t)" "sbits t' = []"
    "swidth t' = swidth t"
    using assms(2) by (rule sig_pack_ok)
  have "\<exists>r. sig_append s t = Inr r \<and> sig_inv r \<and> sig_bits r = sig_bits s @ sig_bits t \<and> shash r = shash s"
  proof (cases "sbits s = [] \<or> sbits t = []")
    case True
    have ident: "sbits s = [] \<Longrightarrow> sbits t = [] \<Longrightarrow> s' = s \<and> t' = t"
      using s'(1) t'(1) by (simp add: sig_pack_def)
    show ?thesis
    proof (rule app [OF _ chunked [OF refl s'(2) t'(2) s'(3,4) t'(4)]])
      show "sig_append s t = sig_check (s'\<lparr>schunks := foldl append_chunk (schunks s') (schunks t'),
          swidth := swidth s' + swidth t'\<rparr>)"
        using w True s' t' ne ident by (cases "sbits s = []"; cases "sbits t = []") (auto simp: sig_append_def packed_def)
    qed (simp add: s')
  next
    case False
    then have bs: "sig_bits s = sbits s" "sig_bits t = sbits t" "schunks s = []"
      using assms by (auto simp: sig_inv_iff sig_bits_def)
    let ?r = "s\<lparr>sbits := sbits s @ sbits t, swidth := swidth s + swidth t\<rparr>"
    have "sig_inv ?r \<and> sig_bits ?r = sig_bits s @ sig_bits t"
      using bs assms ok by (intro conjI sig_unpacked_rep [of _ "sig_bits s @ sig_bits t"]) (auto simp: sig_inv_width)
    then show ?thesis
      using w False by (intro app [of ?r]) (simp_all add: sig_append_def packed_def)
  qed
  then show ?thesis
    using that by auto
qed

lemma sig_append_bit_ok:
  assumes "sig_inv s" "bit_ok b"
  obtains r where "sig_append_bit s b = Inr r" "sig_inv r" "sig_bits r = sig_bits s @ [b]" "shash r = shash s"
proof (cases "sbits s = []")
  case True
  let ?r = "s\<lparr>schunks := append_bit_chunks (schunks s) b, swidth := swidth s + 1\<rparr>"
  have s: "schunks s = canon (sig_bits s)" "swidth s = int (length (sig_bits s))" "list_all bit_ok (sig_bits s)"
    using assms True by (auto simp: sig_inv_iff)
  have "sig_inv ?r" "sig_bits ?r = sig_bits s @ [b]"
    by (rule sig_packed_rep [of _ "sig_bits s @ [b]"]; use s True assms in \<open>simp add: canon_snoc\<close>)+
  then show ?thesis
    using True by (intro that [of ?r]) (simp_all add: sig_append_bit_def packed_def sig_check_ok Let_def)
next
  case False
  let ?r = "s\<lparr>sbits := sbits s @ [b], swidth := swidth s + 1\<rparr>"
  have s: "schunks s = []" "sig_bits s = sbits s" "swidth s = int (length (sig_bits s))" "list_all bit_ok (sig_bits s)"
    using assms False by (auto simp: sig_inv_iff sig_bits_def)
  have "sig_inv ?r" "sig_bits ?r = sig_bits s @ [b]"
    by (rule sig_unpacked_rep [of _ "sig_bits s @ [b]"]; use s assms in simp)+
  then show ?thesis
    using False by (intro that [of ?r]) (simp_all add: sig_append_bit_def packed_def sig_check_ok Let_def)
qed

lemma sig_append_bits_ok:
  assumes "sig_inv s" "list_all bit_ok bs"
  obtains r where "foldE sig_append_bit s bs = Inr r" "sig_inv r" "sig_bits r = sig_bits s @ bs" "shash r = shash s"
  using assms
proof (induction bs arbitrary: s thesis)
  case Nil
  then show ?case by simp
next
  case (Cons b bs)
  obtain r where r: "sig_append_bit s b = Inr r" "sig_inv r" "sig_bits r = sig_bits s @ [b]" "shash r = shash s"
    by (rule sig_append_bit_ok [OF Cons.prems(2), of b]) (use Cons.prems in auto)
  obtain q where "foldE sig_append_bit r bs = Inr q" "sig_inv q" "sig_bits q = sig_bits r @ bs" "shash q = shash r"
    by (rule Cons.IH [OF _ r(2)]) (use Cons.prems in auto)
  then show ?case
    using r by (intro Cons.prems(1) [of q]) simp_all
qed

lemma SigSpec_bits_ok:
  assumes "list_all bit_ok bs"
  obtains r where "SigSpec_bits bs = Inr r" "sig_inv r" "sig_bits r = bs" "shash r = 0"
proof -
  obtain r where "foldE sig_append_bit sig_empty bs = Inr r" "sig_inv r" "sig_bits r = sig_bits sig_empty @ bs"
    "shash r = shash sig_empty"
    by (rule sig_append_bits_ok [of sig_empty bs]) (use assms in simp_all)
  then show ?thesis
    by (intro that [of r]) (simp_all add: SigSpec_bits_def sig_check_ok)
qed

end
