(* ===== verification/SigOps.thy ===== *)
theory SigOps
  imports SigSpec
begin

text \<open>
  The operations of \<open>SigSpec\<close> (\<open>kernel/rtlil.h\<close> and \<open>kernel/rtlil.cc\<close>) beyond its representation:
  access, comparison, slices, substitution, removal, padding, the predicates and the conversions,
  and their meaning on the list of bits a signal stands for.
\<close>

section \<open>Access and comparison\<close>

definition sig_chunks :: "sigspec \<Rightarrow> (sigchunk list \<times> sigspec) res" where
  "sig_chunks s = bindE (sig_pack s) (\<lambda>s. Inr (schunks s, s))"

definition inline_unpack :: "sigspec \<Rightarrow> sigspec res" where
  "inline_unpack s = (if schunks s \<noteq> [] then sig_unpack s else Inr s)"

definition to_sigbit_vector :: "sigspec \<Rightarrow> (sigbit list \<times> sigspec) res" where
  "to_sigbit_vector s = bindE (sig_unpack s) (\<lambda>s. Inr (sbits s, s))"

definition sig_index :: "sigspec \<Rightarrow> int \<Rightarrow> (sigbit \<times> sigspec) res" where
  "sig_index s index = bindE (inline_unpack s) (\<lambda>s.
     guardE (0 \<le> index \<and> index < int (length (sbits s))) Out_of_range (Inr (sbits s ! nat index, s)))"

text \<open>\<open>sig[index] = b\<close> through the reference \<open>operator[]\<close> returns.\<close>

definition sig_assign_index :: "sigspec \<Rightarrow> int \<Rightarrow> sigbit \<Rightarrow> sigspec res" where
  "sig_assign_index s index b = bindE (inline_unpack s) (\<lambda>s.
     guardE (0 \<le> index \<and> index < int (length (sbits s))) Out_of_range
       (Inr (s\<lparr>sbits := (sbits s)[nat index := b]\<rparr>)))"

definition sig_at :: "sigspec \<Rightarrow> int \<Rightarrow> sigbit \<Rightarrow> (sigbit \<times> sigspec) res" where
  "sig_at s offset defval = (if offset < swidth s then sig_index s offset else Inr (defval, s))"

text \<open>Comparison of two different objects.\<close>

definition sig_eq :: "sigspec \<Rightarrow> sigspec \<Rightarrow> (bool \<times> sigspec) res" where
  "sig_eq s other =
     (if swidth s \<noteq> swidth other then Inr (False, s)
      else if swidth s = 0 then Inr (True, s)
      else bindE (sig_pack s) (\<lambda>s. bindE (sig_pack other) (\<lambda>other.
        if length (schunks s) \<noteq> length (schunks other) then Inr (False, s)
        else bindE (sig_updhash s) (\<lambda>s. bindE (sig_updhash other) (\<lambda>other.
          if shash s \<noteq> shash other then Inr (False, s)
          else Inr (list_all2 (\<lambda>a b. \<not> chunk_neq a b) (schunks s) (schunks other), s))))))"

definition sig_neq :: "sigspec \<Rightarrow> sigspec \<Rightarrow> (bool \<times> sigspec) res" where
  "sig_neq s other = bindE (sig_eq s other) (\<lambda>(b, s). Inr (\<not> b, s))"

fun chunks_less :: "sigchunk list \<Rightarrow> sigchunk list \<Rightarrow> bool" where
  "chunks_less (a # as) (b # bs) = (if chunk_neq a b then chunk_less a b else chunks_less as bs)"
| "chunks_less _ _ = False"

definition sig_less :: "sigspec \<Rightarrow> sigspec \<Rightarrow> (bool \<times> sigspec) res" where
  "sig_less s other =
     (if swidth s \<noteq> swidth other then Inr (swidth s < swidth other, s)
      else bindE (sig_pack s) (\<lambda>s. bindE (sig_pack other) (\<lambda>other.
        if length (schunks s) \<noteq> length (schunks other)
        then Inr (length (schunks s) < length (schunks other), s)
        else bindE (sig_updhash s) (\<lambda>s. bindE (sig_updhash other) (\<lambda>other.
          if shash s \<noteq> shash other then Inr (shash s < shash other, s)
          else Inr (chunks_less (schunks s) (schunks other), s))))))"

section \<open>Slices, removal and padding\<close>

definition sig_extract :: "sigspec \<Rightarrow> int \<Rightarrow> int \<Rightarrow> (sigspec \<times> sigspec) res" where
  "sig_extract s offset len = bindE (sig_unpack s) (\<lambda>s.
     guardE (0 \<le> offset \<and> 0 \<le> len \<and> offset + len \<le> int (length (sbits s))) Undefined_behaviour
       (bindE (SigSpec_bits (take (nat len) (drop (nat offset) (sbits s)))) (\<lambda>r. Inr (r, s))))"

definition sig_extract_end :: "sigspec \<Rightarrow> int \<Rightarrow> (sigspec \<times> sigspec) res" where
  "sig_extract_end s offset = sig_extract s offset (swidth s - offset)"

text \<open>A sum of two \<open>int\<close>s above \<open>INT_MAX\<close> is undefined.  The width it is compared with is an \<open>int\<close> itself, so a sum up to the
  width never is.\<close>

definition int_sum_ok :: "int \<Rightarrow> int \<Rightarrow> bool" where
  "int_sum_ok v width \<longleftrightarrow> v < 2 ^ 31 \<or> v \<le> width"

definition sig_replace_pos :: "sigspec \<Rightarrow> int \<Rightarrow> sigspec \<Rightarrow> sigspec res" where
  "sig_replace_pos s offset w =
     bindE (sig_unpack s) (\<lambda>s. bindE (sig_unpack w) (\<lambda>w.
     guardE (offset \<ge> 0) Assert_failed (
     guardE (swidth w \<ge> 0) Assert_failed (
     guardE (int_sum_ok (offset + swidth w) (swidth s)) Undefined_behaviour (
     guardE (offset + swidth w \<le> swidth s) Assert_failed (
     bindE (foldE (\<lambda>bs i. guardE (nat offset + i < length bs \<and> i < length (sbits w)) Out_of_range
                    (Inr (bs[nat offset + i := sbits w ! i]))) (sbits s) [0..<nat (swidth w)])
       (\<lambda>bs. sig_check (s\<lparr>sbits := bs\<rparr>))))))))"

definition remove_const_step :: "sigchunk list \<times> int \<Rightarrow> sigchunk \<Rightarrow> sigchunk list \<times> int" where
  "remove_const_step acc chunk =
     (let (new_chunks, width) = acc
      in if cwire chunk \<noteq> None then
           (if new_chunks \<noteq> [] \<and> cwire (last new_chunks) = cwire chunk \<and>
               coffset (last new_chunks) + cwidth (last new_chunks) = coffset chunk
            then butlast new_chunks @ [(last new_chunks)\<lparr>cwidth := cwidth (last new_chunks) + cwidth chunk\<rparr>]
            else new_chunks @ [chunk], width + cwidth chunk)
         else acc)"

definition sig_remove_const :: "sigspec \<Rightarrow> sigspec res" where
  "sig_remove_const s =
     sig_check
       (if packed s then
          let (new_chunks, width) = foldl remove_const_step ([], 0) (schunks s)
          in s\<lparr>schunks := new_chunks, swidth := width\<rparr>
        else
          let new_bits = filter (\<lambda>b. bit_wire b \<noteq> None) (sbits s)
          in s\<lparr>sbits := new_bits, swidth := int (length new_bits)\<rparr>)"

definition sig_remove_pos :: "sigspec \<Rightarrow> int \<Rightarrow> int \<Rightarrow> sigspec res" where
  "sig_remove_pos s offset len = bindE (sig_unpack s) (\<lambda>s.
     guardE (offset \<ge> 0) Assert_failed (
     guardE (len \<ge> 0) Assert_failed (
     guardE (int_sum_ok (offset + len) (swidth s)) Undefined_behaviour (
     guardE (offset + len \<le> swidth s) Assert_failed (
     guardE (offset + len \<le> int (length (sbits s))) Undefined_behaviour (
       let bs = take (nat offset) (sbits s) @ drop (nat (offset + len)) (sbits s)
       in sig_check (s\<lparr>sbits := bs, swidth := int (length bs)\<rparr>)))))))"

definition sig_extend_u0 :: "sigspec \<Rightarrow> int \<Rightarrow> bool \<Rightarrow> sigspec res" where
  "sig_extend_u0 s width is_signed =
     bindE (sig_pack s) (\<lambda>s.
     bindE (if swidth s > width then sig_remove_pos s width (swidth s - width) else Inr s) (\<lambda>s.
     if swidth s < width then
       bindE (if swidth s > 0 then sig_index s (swidth s - 1) else Inr (Bit_state Sx, s)) (\<lambda>(padding, s).
       let padding = (if \<not> is_signed then Bit_state S0 else padding)
       in foldE sig_append_bit s (replicate (nat (width - swidth s)) padding))
     else Inr s))"

definition sig_repeat :: "sigspec \<Rightarrow> int \<Rightarrow> sigspec res" where
  "sig_repeat s num = foldE sig_append sig_empty (replicate (nat num) s)"

definition sig_reverse :: "sigspec \<Rightarrow> sigspec res" where
  "sig_reverse s = bindE (inline_unpack s) (\<lambda>s. Inr (s\<lparr>sbits := rev (sbits s)\<rparr>))"

text \<open>\<open>std::sort\<close>: when the names of the wires tell them apart, \<open>operator<\<close> is a strict total order and
  the sorted list is unique.\<close>

fun insert_by :: "('a \<Rightarrow> 'a \<Rightarrow> bool) \<Rightarrow> 'a \<Rightarrow> 'a list \<Rightarrow> 'a list" where
  "insert_by lt x [] = [x]"
| "insert_by lt x (y # ys) = (if lt y x then y # insert_by lt x ys else x # y # ys)"

definition sort_by :: "('a \<Rightarrow> 'a \<Rightarrow> bool) \<Rightarrow> 'a list \<Rightarrow> 'a list" where
  "sort_by lt xs = foldr (insert_by lt) xs []"

definition sig_sort :: "sigspec \<Rightarrow> sigspec res" where
  "sig_sort s = bindE (sig_unpack s) (\<lambda>s. Inr (s\<lparr>sbits := sort_by bit_less (sbits s)\<rparr>))"

definition sig_sort_and_unify :: "sigspec \<Rightarrow> sigspec res" where
  "sig_sort_and_unify s =
     bindE (sig_unpack s) (\<lambda>s. SigSpec_bits (remdups_adj (sort_by bit_less (sbits s))))"

section \<open>Substitution\<close>

text \<open>\<open>replace(pattern, with, other)\<close> reads the bits of the signal and writes \<open>other\<close>;
  \<open>replace(pattern, with)\<close> passes the signal itself, so each rule sees what the earlier ones wrote.\<close>

definition sig_replace_other :: "sigspec \<Rightarrow> sigspec \<Rightarrow> sigspec \<Rightarrow> sigspec \<Rightarrow> (sigspec \<times> sigspec) res" where
  "sig_replace_other s pattern w other =
     guardE (swidth s = swidth other) Assert_failed (
     guardE (swidth pattern = swidth w) Assert_failed (
     bindE (sig_unpack pattern) (\<lambda>pattern. bindE (sig_unpack w) (\<lambda>w.
     bindE (sig_unpack s) (\<lambda>s. bindE (sig_unpack other) (\<lambda>other.
     bindE (sig_check (other\<lparr>sbits :=
         foldl (\<lambda>obs (p, v). if bit_wire p \<noteq> None then map2 (\<lambda>b ob. if b = p then v else ob) (sbits s) obs else obs)
           (sbits other) (zip (sbits pattern) (sbits w))\<rparr>)) (\<lambda>other.
     Inr (other, s))))))))"

definition sig_replace :: "sigspec \<Rightarrow> sigspec \<Rightarrow> sigspec \<Rightarrow> sigspec res" where
  "sig_replace s pattern w =
     guardE (swidth pattern = swidth w) Assert_failed (
     bindE (sig_unpack pattern) (\<lambda>pattern. bindE (sig_unpack w) (\<lambda>w.
     bindE (sig_unpack s) (\<lambda>s.
     sig_check (s\<lparr>sbits :=
         foldl (\<lambda>bs (p, v). if bit_wire p \<noteq> None then map (\<lambda>b. if b = p then v else b) bs else bs)
           (sbits s) (zip (sbits pattern) (sbits w))\<rparr>)))))"

text \<open>The rules are a \<open>dict\<close>; a lookup may rehash it, so it is passed on.\<close>

fun replace_dict_loop ::
  "sigbit list \<Rightarrow> sigbit list \<Rightarrow> (sigbit, sigbit) dict \<Rightarrow> (sigbit list \<times> (sigbit, sigbit) dict) res" where
  "replace_dict_loop (b # bs) (ob # obs) rules =
     bindE (dict_find bit_hash rules b) (\<lambda>(it, rules).
     bindE (replace_dict_loop bs obs rules) (\<lambda>(rest, rules'').
     Inr ((if it \<noteq> -1 then dict_deref rules it else ob) # rest, rules'')))"
| "replace_dict_loop _ _ rules = Inr ([], rules)"

definition sig_replace_dict_other ::
  "sigspec \<Rightarrow> (sigbit, sigbit) dict \<Rightarrow> sigspec \<Rightarrow> (sigspec \<times> sigspec \<times> (sigbit, sigbit) dict) res" where
  "sig_replace_dict_other s rules other =
     guardE (swidth s = swidth other) Assert_failed (
     if dict_is_empty rules then Inr (other, s, rules)
     else bindE (sig_unpack s) (\<lambda>s. bindE (sig_unpack other) (\<lambda>other.
       bindE (replace_dict_loop (sbits s) (sbits other) rules) (\<lambda>(bs, rules).
       bindE (sig_check (other\<lparr>sbits := bs\<rparr>)) (\<lambda>other. Inr (other, s, rules))))))"

text \<open>With the signal itself as \<open>other\<close> each position is read before it is written.\<close>

definition sig_replace_dict ::
  "sigspec \<Rightarrow> (sigbit, sigbit) dict \<Rightarrow> (sigspec \<times> (sigbit, sigbit) dict) res" where
  "sig_replace_dict s rules =
     (if dict_is_empty rules then Inr (s, rules)
      else bindE (sig_unpack s) (\<lambda>s.
        bindE (replace_dict_loop (sbits s) (sbits s) rules) (\<lambda>(bs, rules).
        bindE (sig_check (s\<lparr>sbits := bs\<rparr>)) (\<lambda>s. Inr (s, rules)))))"

text \<open>A \<open>std::map\<close> and a \<open>std::set\<close> keep their elements in ascending order; keys are the same when
  neither is less.\<close>

type_synonym ('k, 'v) std_map = "('k \<times> 'v) list"

definition std_same :: "('k \<Rightarrow> 'k \<Rightarrow> bool) \<Rightarrow> 'k \<Rightarrow> 'k \<Rightarrow> bool" where
  "std_same lt a b \<longleftrightarrow> \<not> lt a b \<and> \<not> lt b a"

fun std_find :: "('k \<Rightarrow> 'k \<Rightarrow> bool) \<Rightarrow> ('k, 'v) std_map \<Rightarrow> 'k \<Rightarrow> 'v option" where
  "std_find lt [] k = None"
| "std_find lt ((k', v) # m) k = (if std_same lt k k' then Some v else std_find lt m k)"

fun std_put :: "('k \<Rightarrow> 'k \<Rightarrow> bool) \<Rightarrow> ('k, 'v) std_map \<Rightarrow> 'k \<Rightarrow> 'v \<Rightarrow> ('k, 'v) std_map" where
  "std_put lt [] k v = [(k, v)]"
| "std_put lt ((k', v') # m) k v =
     (if lt k k' then (k, v) # (k', v') # m
      else if lt k' k then (k', v') # std_put lt m k v
      else (k', v) # m)"

fun std_insert :: "('k \<Rightarrow> 'k \<Rightarrow> bool) \<Rightarrow> 'k list \<Rightarrow> 'k \<Rightarrow> 'k list" where
  "std_insert lt [] k = [k]"
| "std_insert lt (k' # m) k =
     (if lt k k' then k # k' # m else if lt k' k then k' # std_insert lt m k else k' # m)"

definition sig_replace_map_other ::
  "sigspec \<Rightarrow> (sigbit, sigbit) std_map \<Rightarrow> sigspec \<Rightarrow> (sigspec \<times> sigspec) res" where
  "sig_replace_map_other s rules other =
     guardE (swidth s = swidth other) Assert_failed (
     if rules = [] then Inr (other, s)
     else bindE (sig_unpack s) (\<lambda>s. bindE (sig_unpack other) (\<lambda>other.
       bindE (sig_check (other\<lparr>sbits :=
           map2 (\<lambda>b ob. case std_find bit_less rules b of Some v \<Rightarrow> v | None \<Rightarrow> ob) (sbits s) (sbits other)\<rparr>))
         (\<lambda>other. Inr (other, s)))))"

definition sig_replace_map :: "sigspec \<Rightarrow> (sigbit, sigbit) std_map \<Rightarrow> sigspec res" where
  "sig_replace_map s rules =
     (if rules = [] then Inr s
      else bindE (sig_unpack s) (\<lambda>s.
        sig_check (s\<lparr>sbits :=
          map (\<lambda>b. case std_find bit_less rules b of Some v \<Rightarrow> v | None \<Rightarrow> b) (sbits s)\<rparr>)))"

section \<open>Removing and extracting matching bits\<close>

definition chunk_covers :: "sigchunk \<Rightarrow> sigbit \<Rightarrow> bool" where
  "chunk_covers c b =
     (case b of Bit_state _ \<Rightarrow> False
      | Bit_wire w i \<Rightarrow> Some w = cwire c \<and> i \<ge> coffset c \<and> i < coffset c + cwidth c)"

text \<open>The loops of \<open>remove2\<close> go down and erase the positions that match in both signals.\<close>

definition keep :: "bool list \<Rightarrow> 'a list \<Rightarrow> 'a list" where
  "keep hits xs = map snd (filter (\<lambda>(hit, x). \<not> hit) (zip hits xs))"

definition erase_hits :: "bool list \<Rightarrow> sigspec \<Rightarrow> sigspec" where
  "erase_hits hits s =
     s\<lparr>sbits := keep hits (sbits s), swidth := swidth s - int (length (filter id hits))\<rparr>"

definition other_unpack :: "sigspec \<Rightarrow> sigspec option \<Rightarrow> sigspec option res" where
  "other_unpack s other =
     (case other of None \<Rightarrow> Inr None
      | Some t \<Rightarrow> guardE (swidth s = swidth t) Assert_failed (bindE (sig_unpack t) (\<lambda>t. Inr (Some t))))"

definition sig_remove2 :: "sigspec \<Rightarrow> sigspec \<Rightarrow> sigspec option \<Rightarrow> (sigspec \<times> sigspec option) res" where
  "sig_remove2 s pattern other =
     bindE (sig_unpack s) (\<lambda>s. bindE (other_unpack s other) (\<lambda>other.
     bindE (sig_pack pattern) (\<lambda>pattern.
     let hits = map (\<lambda>b. list_ex (\<lambda>c. chunk_covers c b) (schunks pattern)) (sbits s)
     in bindE (sig_check (erase_hits hits s)) (\<lambda>s. Inr (s, map_option (erase_hits hits) other)))))"

definition sig_remove :: "sigspec \<Rightarrow> sigspec \<Rightarrow> sigspec res" where
  "sig_remove s pattern = bindE (sig_remove2 s pattern None) (\<lambda>(s, _). Inr s)"

text \<open>\<open>remove(pattern, other) const\<close> works on a copy.\<close>

definition sig_remove_other :: "sigspec \<Rightarrow> sigspec \<Rightarrow> sigspec option \<Rightarrow> sigspec option res" where
  "sig_remove_other s pattern other = bindE (sig_remove2 s pattern other) (\<lambda>(_, other). Inr other)"

text \<open>With a pool; the loop runs from the last bit to the first and may rehash it.\<close>

fun pool_hits :: "sigbit list \<Rightarrow> sigbit pool \<Rightarrow> (bool list \<times> sigbit pool) res" where
  "pool_hits [] p = Inr ([], p)"
| "pool_hits (b # bs) p =
     bindE (if bit_wire b \<noteq> None then pool_count bit_hash p b else Inr (0, p)) (\<lambda>(n, p).
     bindE (pool_hits bs p) (\<lambda>(hs, p). Inr ((n \<noteq> 0) # hs, p)))"

definition sig_remove2_pool ::
  "sigspec \<Rightarrow> sigbit pool \<Rightarrow> sigspec option \<Rightarrow> (sigspec \<times> sigspec option \<times> sigbit pool) res" where
  "sig_remove2_pool s pattern other =
     bindE (sig_unpack s) (\<lambda>s. bindE (other_unpack s other) (\<lambda>other.
     bindE (pool_hits (rev (sbits s)) pattern) (\<lambda>(hits, pattern).
     bindE (sig_check (erase_hits (rev hits) s)) (\<lambda>s.
     Inr (s, map_option (erase_hits (rev hits)) other, pattern)))))"

definition sig_remove_pool :: "sigspec \<Rightarrow> sigbit pool \<Rightarrow> (sigspec \<times> sigbit pool) res" where
  "sig_remove_pool s pattern = bindE (sig_remove2_pool s pattern None) (\<lambda>(s, _, p). Inr (s, p))"

definition sig_remove_pool_other ::
  "sigspec \<Rightarrow> sigbit pool \<Rightarrow> sigspec option \<Rightarrow> (sigspec option \<times> sigbit pool) res" where
  "sig_remove_pool_other s pattern other =
     bindE (sig_remove2_pool s pattern other) (\<lambda>(_, other, p). Inr (other, p))"

definition sig_remove2_set :: "sigspec \<Rightarrow> sigbit list \<Rightarrow> sigspec option \<Rightarrow> (sigspec \<times> sigspec option) res" where
  "sig_remove2_set s pattern other =
     bindE (sig_unpack s) (\<lambda>s. bindE (other_unpack s other) (\<lambda>other.
     let hits = map (\<lambda>b. bit_wire b \<noteq> None \<and> list_ex (std_same bit_less b) pattern) (sbits s)
     in bindE (sig_check (erase_hits hits s)) (\<lambda>s. Inr (s, map_option (erase_hits hits) other))))"

definition sig_extract_pattern :: "sigspec \<Rightarrow> sigspec \<Rightarrow> sigspec option \<Rightarrow> (sigspec \<times> sigspec) res" where
  "sig_extract_pattern s pattern other =
     guardE (case other of None \<Rightarrow> True | Some t \<Rightarrow> swidth s = swidth t) Assert_failed (
     bindE (to_sigbit_vector s) (\<lambda>(bits_match, s).
     bindE (sig_pack pattern) (\<lambda>pattern.
     bindE (case other of None \<Rightarrow> Inr bits_match
            | Some t \<Rightarrow> bindE (to_sigbit_vector t) (\<lambda>(bs, _). Inr bs)) (\<lambda>bits_other.
     bindE (foldE (\<lambda>ret c. foldE (\<lambda>ret (b, ob). if chunk_covers c b then sig_append_bit ret ob else Inr ret)
              ret (zip bits_match bits_other)) sig_empty (schunks pattern)) (\<lambda>ret.
     bindE (sig_check ret) (\<lambda>ret. Inr (ret, s)))))))"

definition sig_extract_pool ::
  "sigspec \<Rightarrow> sigbit pool \<Rightarrow> sigspec option \<Rightarrow> (sigspec \<times> sigspec \<times> sigbit pool) res" where
  "sig_extract_pool s pattern other =
     guardE (case other of None \<Rightarrow> True | Some t \<Rightarrow> swidth s = swidth t) Assert_failed (
     bindE (to_sigbit_vector s) (\<lambda>(bits_match, s).
     bindE (case other of None \<Rightarrow> Inr bits_match
            | Some t \<Rightarrow> bindE (to_sigbit_vector t) (\<lambda>(bs, _). Inr bs)) (\<lambda>bits_other.
     bindE (pool_hits bits_match pattern) (\<lambda>(hits, pattern).
     bindE (foldE (\<lambda>ret (hit, ob). if hit then sig_append_bit ret ob else Inr ret) sig_empty
              (zip hits bits_other)) (\<lambda>ret.
     bindE (sig_check ret) (\<lambda>ret. Inr (ret, s, pattern)))))))"

section \<open>Predicates and conversions\<close>

definition sig_is_wire :: "sigspec \<Rightarrow> (bool \<times> sigspec) res" where
  "sig_is_wire s = bindE (sig_pack s) (\<lambda>s. Inr
     (length (schunks s) = 1 \<and>
      (case cwire (schunks s ! 0) of None \<Rightarrow> False | Some w \<Rightarrow> wire_width w = swidth s), s))"

definition sig_is_chunk :: "sigspec \<Rightarrow> (bool \<times> sigspec) res" where
  "sig_is_chunk s = bindE (sig_pack s) (\<lambda>s. Inr (length (schunks s) = 1, s))"

definition sig_is_fully_const :: "sigspec \<Rightarrow> (bool \<times> sigspec) res" where
  "sig_is_fully_const s = bindE (sig_pack s) (\<lambda>s. Inr
     (\<not> list_ex (\<lambda>c. cwidth c > 0 \<and> cwire c \<noteq> None) (schunks s), s))"

definition sig_is_fully_zero :: "sigspec \<Rightarrow> (bool \<times> sigspec) res" where
  "sig_is_fully_zero s = bindE (sig_pack s) (\<lambda>s. Inr
     (list_all (\<lambda>c. \<not> (cwidth c > 0 \<and> cwire c \<noteq> None) \<and> list_all (\<lambda>v. v = S0) (cdata c)) (schunks s), s))"

definition sig_is_fully_ones :: "sigspec \<Rightarrow> (bool \<times> sigspec) res" where
  "sig_is_fully_ones s = bindE (sig_pack s) (\<lambda>s. Inr
     (list_all (\<lambda>c. \<not> (cwidth c > 0 \<and> cwire c \<noteq> None) \<and> list_all (\<lambda>v. v = S1) (cdata c)) (schunks s), s))"

definition sig_is_fully_def :: "sigspec \<Rightarrow> (bool \<times> sigspec) res" where
  "sig_is_fully_def s = bindE (sig_pack s) (\<lambda>s. Inr
     (list_all (\<lambda>c. \<not> (cwidth c > 0 \<and> cwire c \<noteq> None) \<and>
        list_all (\<lambda>v. \<not> (v \<noteq> S0 \<and> v \<noteq> S1)) (cdata c)) (schunks s), s))"

definition sig_is_fully_undef :: "sigspec \<Rightarrow> (bool \<times> sigspec) res" where
  "sig_is_fully_undef s = bindE (sig_pack s) (\<lambda>s. Inr
     (list_all (\<lambda>c. \<not> (cwidth c > 0 \<and> cwire c \<noteq> None) \<and>
        list_all (\<lambda>v. \<not> (v \<noteq> Sx \<and> v \<noteq> Sz)) (cdata c)) (schunks s), s))"

definition sig_has_const :: "sigspec \<Rightarrow> (bool \<times> sigspec) res" where
  "sig_has_const s = bindE (sig_pack s) (\<lambda>s. Inr
     (list_ex (\<lambda>c. cwidth c > 0 \<and> cwire c = None) (schunks s), s))"

definition sig_has_marked_bits :: "sigspec \<Rightarrow> (bool \<times> sigspec) res" where
  "sig_has_marked_bits s = bindE (sig_pack s) (\<lambda>s. Inr
     (list_ex (\<lambda>c. cwidth c > 0 \<and> cwire c = None \<and> list_ex (\<lambda>v. v = Sm) (cdata c)) (schunks s), s))"

text \<open>\<open>chunks_[0].data\<close>.\<close>

definition front_data :: "sigspec \<Rightarrow> state list res" where
  "front_data s = (case schunks s of [] \<Rightarrow> Inl Undefined_behaviour | c # _ \<Rightarrow> Inr (cdata c))"

definition sig_is_onehot :: "sigspec \<Rightarrow> ((bool \<times> nat option) \<times> sigspec) res" where
  "sig_is_onehot s =
     bindE (sig_pack s) (\<lambda>s. bindE (sig_is_fully_const s) (\<lambda>(c, s).
     if \<not> c then Inr ((False, None), s)
     else guardE (length (schunks s) \<le> 1) Assert_failed (
       if swidth s \<noteq> 0 then bindE (front_data s) (\<lambda>d. Inr (is_onehot (Const_bits d), s))
       else Inr ((False, None), s))))"

text \<open>\<open>log_assert(is_fully_const() && GetSize(chunks_) <= 1)\<close> after \<open>pack()\<close>.\<close>

definition const_packed :: "sigspec \<Rightarrow> sigspec res" where
  "const_packed s =
     bindE (sig_pack s) (\<lambda>s. bindE (sig_is_fully_const s) (\<lambda>(c, s).
     guardE (c \<and> length (schunks s) \<le> 1) Assert_failed (Inr s)))"

definition sig_as_bool :: "sigspec \<Rightarrow> (bool \<times> sigspec) res" where
  "sig_as_bool s = bindE (const_packed s) (\<lambda>s.
     if swidth s \<noteq> 0 then bindE (front_data s) (\<lambda>d. Inr (as_bool (Const_bits d), s)) else Inr (False, s))"

definition sig_as_int :: "sigspec \<Rightarrow> bool \<Rightarrow> (int \<times> sigspec) res" where
  "sig_as_int s is_signed = bindE (const_packed s) (\<lambda>s.
     if swidth s \<noteq> 0 then
       bindE (front_data s) (\<lambda>d. bindE (as_int (Const_bits d) is_signed) (\<lambda>i. Inr (i, s)))
     else Inr (0, s))"

definition sig_as_const :: "sigspec \<Rightarrow> (const_t \<times> sigspec) res" where
  "sig_as_const s = bindE (const_packed s) (\<lambda>s.
     if swidth s \<noteq> 0 then bindE (front_data s) (\<lambda>d. Inr (Const_bits d, s)) else Inr (Const_empty, s))"

definition sig_as_string :: "sigspec \<Rightarrow> (string \<times> sigspec) res" where
  "sig_as_string s = bindE (sig_pack s) (\<lambda>s. Inr
     (foldl (\<lambda>str c. str @ (if cwire c \<noteq> None then replicate (nat (cwidth c)) CHR ''?''
                            else as_string (Const_bits (cdata c)))) [] (rev (schunks s)), s))"

definition sig_as_wire :: "sigspec \<Rightarrow> (wire_t option \<times> sigspec) res" where
  "sig_as_wire s = bindE (sig_pack s) (\<lambda>s. bindE (sig_is_wire s) (\<lambda>(b, s).
     guardE b Assert_failed (Inr (cwire (schunks s ! 0), s))))"

definition sig_as_chunk :: "sigspec \<Rightarrow> (sigchunk \<times> sigspec) res" where
  "sig_as_chunk s = bindE (sig_pack s) (\<lambda>s. bindE (sig_is_chunk s) (\<lambda>(b, s).
     guardE b Assert_failed (Inr (schunks s ! 0, s))))"

definition sig_as_bit :: "sigspec \<Rightarrow> sigbit res" where
  "sig_as_bit s = guardE (swidth s = 1) Assert_failed (
     if packed s then (case schunks s of [] \<Rightarrow> Inl Undefined_behaviour | c # _ \<Rightarrow> SigBit_chunk c)
     else Inr (sbits s ! 0))"

definition SigBit_sig :: "sigspec \<Rightarrow> sigbit res" where
  "SigBit_sig sig = guardE (swidth sig = 1) Assert_failed (
     bindE (sig_pack sig) (\<lambda>sig. guardE (length (schunks sig) = 1) Assert_failed (SigBit_chunk (hd (schunks sig)))))"

text \<open>\<open>log_abort()\<close> ends the program like a failed assertion.\<close>

fun match_loop :: "sigbit list \<Rightarrow> string \<Rightarrow> bool res" where
  "match_loop (b # bs) (p # ps) =
     (if p = CHR '' '' then match_loop bs ps
      else if p = CHR ''*'' then
        (if b \<noteq> Bit_state Sz \<and> b \<noteq> Bit_state Sx then Inr False else match_loop bs ps)
      else if p = CHR ''0'' then (if b \<noteq> Bit_state S0 then Inr False else match_loop bs ps)
      else if p = CHR ''1'' then (if b \<noteq> Bit_state S1 then Inr False else match_loop bs ps)
      else Inl Assert_failed)"
| "match_loop _ _ = Inr True"

definition sig_match :: "sigspec \<Rightarrow> string \<Rightarrow> (bool \<times> sigspec) res" where
  "sig_match s pattern = bindE (sig_unpack s) (\<lambda>s.
     guardE (length pattern = length (sbits s)) Assert_failed (
     bindE (match_loop (rev (sbits s)) pattern) (\<lambda>b. Inr (b, s))))"

text \<open>\<open>SigBit(c, i)\<close> for every \<open>i\<close> below the width of every chunk.\<close>

definition packed_bits :: "sigspec \<Rightarrow> sigbit list" where
  "packed_bits s = concat (map chunk_bits (schunks s))"

definition to_sigbit_set :: "sigspec \<Rightarrow> (sigbit list \<times> sigspec) res" where
  "to_sigbit_set s = bindE (sig_pack s) (\<lambda>s. Inr (foldl (std_insert bit_less) [] (packed_bits s), s))"

definition to_sigbit_pool :: "sigspec \<Rightarrow> (sigbit pool \<times> sigspec) res" where
  "to_sigbit_pool s = bindE (sig_pack s) (\<lambda>s.
     guardE (swidth s \<ge> 0) Length_error (
     bindE (pool_insert_range bit_hash (pool_reserve pool_empty (nat (swidth s))) (packed_bits s)) (\<lambda>p. Inr (p, s))))"

definition to_sigbit_map :: "sigspec \<Rightarrow> sigspec \<Rightarrow> ((sigbit, sigbit) std_map \<times> sigspec) res" where
  "to_sigbit_map s other = bindE (sig_unpack s) (\<lambda>s. bindE (sig_unpack other) (\<lambda>other.
     guardE (swidth s = swidth other) Assert_failed (
     Inr (foldl (\<lambda>m (k, v). std_put bit_less m k v) [] (zip (sbits s) (sbits other)), s))))"

definition to_sigbit_dict :: "sigspec \<Rightarrow> sigspec \<Rightarrow> ((sigbit, sigbit) dict \<times> sigspec) res" where
  "to_sigbit_dict s other = bindE (sig_unpack s) (\<lambda>s. bindE (sig_unpack other) (\<lambda>other.
     guardE (swidth s = swidth other) Assert_failed (
     guardE (swidth s \<ge> 0) Length_error (
     bindE (foldE (\<lambda>m (k, v). dict_put bit_hash (Bit_state S0) m k v)
              (dict_reserve dict_empty (nat (swidth s))) (zip (sbits s) (sbits other)))
       (\<lambda>m. Inr (m, s))))))"

text \<open>The bit a signal is padded with.\<close>

definition sig_padding :: "sigbit list \<Rightarrow> bool \<Rightarrow> sigbit" where
  "sig_padding bs is_signed = (if is_signed then (if bs = [] then Bit_state Sx else last bs) else Bit_state S0)"

text \<open>A substitution at one position, with the value that stays where there is no rule.\<close>

definition subst_bit :: "(sigbit \<rightharpoonup> sigbit) \<Rightarrow> sigbit \<Rightarrow> sigbit \<Rightarrow> sigbit" where
  "subst_bit m b d = (case m b of Some v \<Rightarrow> v | None \<Rightarrow> d)"

text \<open>Different wires have different names, as inside a module.\<close>

definition names_distinct :: "sigbit list \<Rightarrow> bool" where
  "names_distinct bs \<longleftrightarrow>
     (\<forall>v i w j. Bit_wire v i \<in> set bs \<and> Bit_wire w j \<in> set bs \<and> wire_name v = wire_name w \<longrightarrow> v = w)"

section \<open>Representation\<close>

text \<open>C20: A signal is a list of bits with two representations.  Converting a packed signal to bits and back
  gives the same chunks, and converting an unpacked signal to chunks and back gives the same bits.\<close>

theorem sig_pack_unpack:
  assumes "sig_inv s"
  shows "\<exists>u r. schunks r = schunks s \<and> sbits r = sbits s \<and> swidth r = swidth s \<and>
     (if packed s then sig_unpack s = Inr u \<and> sig_pack u = Inr r
      else sig_pack s = Inr u \<and> packed u \<and> sig_check u = Inr u \<and> sig_unpack u = Inr r)"
proof (cases "packed s")
  case p: True
  obtain u where u: "sig_unpack s = Inr u" "sig_inv u" "sig_bits u = sig_bits s" "swidth u = swidth s"
    using assms by (rule sig_unpack_ok)
  obtain r where "sig_pack u = Inr r" "schunks r = canon (sig_bits u)" "sbits r = []" "swidth r = swidth u"
    using u(2) by (rule sig_pack_ok)
  then show ?thesis
    using u assms p by (auto simp: sig_inv_iff packed_def)
next
  case p: False
  obtain u where u: "sig_pack s = Inr u" "sig_inv u" "sig_bits u = sig_bits s" "swidth u = swidth s" "sbits u = []"
    using assms by (rule sig_pack_ok)
  obtain r where "sig_unpack u = Inr r" "sbits r = sig_bits u" "schunks r = []" "swidth r = swidth u"
    using u(2) by (rule sig_unpack_ok)
  then show ?thesis
    using u assms p sig_check_ok [OF u(2)] by (auto simp: sig_inv_iff packed_def sig_bits_def)
qed

theorem sig_pack_unpack_witness:
  "\<exists>u r. sig_unpack \<lparr>swidth = 2, shash = 0, schunks = [\<lparr>cwire = None, cdata = [S0, S1], cwidth = 2, coffset = 0\<rparr>], sbits = []\<rparr>
     = Inr u \<and> sig_pack u = Inr r \<and> schunks r = [\<lparr>cwire = None, cdata = [S0, S1], cwidth = 2, coffset = 0\<rparr>]"
proof -
  let ?s = "\<lparr>swidth = 2, shash = 0, schunks = [\<lparr>cwire = None, cdata = [S0, S1], cwidth = 2, coffset = 0\<rparr>], sbits = []\<rparr>"
  have "sig_inv ?s" "packed ?s"
    by (simp_all add: sig_inv_def packed_def chunk_ok_def)
  then show ?thesis
    using sig_pack_unpack [of ?s] by auto
qed

text \<open>C19: Appending a signal concatenates the bits and keeps the invariant \<open>check()\<close> asserts, whatever the
  representations of the two signals are.\<close>

theorem sig_append_correct:
  assumes "sig_inv s" "sig_inv t"
  shows "\<exists>r. sig_append s t = Inr r \<and> sig_inv r \<and> sig_check r = Inr r \<and> sig_bits r = sig_bits s @ sig_bits t"
proof -
  obtain r where "sig_append s t = Inr r" "sig_inv r" "sig_bits r = sig_bits s @ sig_bits t"
    using assms by (rule sig_append_ok)
  then show ?thesis
    by (intro exI [of _ r]) (simp add: sig_check_ok)
qed

theorem sig_append_correct_witness:
  "\<exists>r. sig_append \<lparr>swidth = 1, shash = 0, schunks = [], sbits = [Bit_state S0]\<rparr>
      \<lparr>swidth = 1, shash = 0, schunks = [\<lparr>cwire = None, cdata = [S1], cwidth = 1, coffset = 0\<rparr>], sbits = []\<rparr>
    = Inr r \<and> sig_bits r = [Bit_state S0, Bit_state S1]"
proof -
  let ?s = "\<lparr>swidth = 1, shash = 0, schunks = [], sbits = [Bit_state S0]\<rparr>"
  let ?t = "\<lparr>swidth = 1, shash = 0, schunks = [\<lparr>cwire = None, cdata = [S1], cwidth = 1, coffset = 0\<rparr>], sbits = []\<rparr>"
  have "sig_inv ?s" "sig_inv ?t"
    by (simp_all add: sig_inv_def packed_def chunk_ok_def)
  moreover have "sig_bits ?s = [Bit_state S0]" "sig_bits ?t = [Bit_state S1]"
    by (simp_all add: sig_bits_def chunk_bits_def SigBit_chunk_at_def)
  ultimately show ?thesis
    using sig_append_correct [of ?s ?t] by auto
qed

lemma chunk_neq_iff [simp]: "chunk_neq a b \<longleftrightarrow> a \<noteq> b"
  by (cases a, cases b) (auto simp: chunk_neq_def chunk_eq_def)

lemma sig_eq_ok:
  assumes s: "sig_inv s" "hash_ok s" and t: "sig_inv t" "hash_ok t"
  obtains r where "sig_eq s t = Inr (sig_bits s = sig_bits t, r)" "sig_inv r" "hash_ok r" "sig_bits r = sig_bits s"
proof (cases "length (sig_bits s) = length (sig_bits t) \<and> sig_bits s \<noteq> []")
  case False
  then show ?thesis
    using assms by (intro that [of s]) (auto simp: sig_eq_def sig_inv_width)
next
  case True
  obtain s1 where s1: "sig_pack s = Inr s1" "sig_inv s1" "sig_bits s1 = sig_bits s"
    "schunks s1 = canon (sig_bits s)" "hash_ok s1"
    by (rule sig_pack_ok [OF s(1)]) (use s(2) in blast)
  obtain t1 where t1: "sig_pack t = Inr t1" "sig_inv t1" "sig_bits t1 = sig_bits t"
    "schunks t1 = canon (sig_bits t)" "hash_ok t1"
    by (rule sig_pack_ok [OF t(1)]) (use t(2) in blast)
  obtain s2 where s2: "sig_updhash s1 = Inr s2" "sig_inv s2" "sig_bits s2 = sig_bits s1" "hash_ok s2"
    "shash s2 = chunks_hash (canon (sig_bits s1))" "schunks s2 = canon (sig_bits s1)"
    by (rule sig_updhash_ok [OF s1(2,5)])
  obtain t2 where t2: "sig_updhash t1 = Inr t2"
    "shash t2 = chunks_hash (canon (sig_bits t1))" "schunks t2 = canon (sig_bits t1)"
    by (rule sig_updhash_ok [OF t1(2,5)])
  have inj: "canon (sig_bits s) = canon (sig_bits t) \<longleftrightarrow> sig_bits s = sig_bits t"
    using canon_ok(4) [OF sig_inv_bit_ok [OF s(1)]] canon_ok(4) [OF sig_inv_bit_ok [OF t(1)]] by metis
  have w: "swidth s = swidth t" "swidth s \<noteq> 0"
    using True s t by (auto simp: sig_inv_width)
  define v where "v \<longleftrightarrow> sig_bits s = sig_bits t"
  consider "length (canon (sig_bits s)) \<noteq> length (canon (sig_bits t))" "\<not> v"
    | "length (canon (sig_bits s)) = length (canon (sig_bits t))"
      "chunks_hash (canon (sig_bits s)) \<noteq> chunks_hash (canon (sig_bits t))" "\<not> v"
    | "length (canon (sig_bits s)) = length (canon (sig_bits t))"
      "chunks_hash (canon (sig_bits s)) = chunks_hash (canon (sig_bits t))"
    unfolding v_def inj [symmetric] by metis
  then have "\<exists>r. sig_eq s t = Inr (v, r) \<and> sig_inv r \<and> hash_ok r \<and> sig_bits r = sig_bits s"
  proof cases
    case 1
    then show ?thesis
      using w s1 t1 by (intro exI [of _ s1]) (simp add: sig_eq_def)
  next
    case 2
    then show ?thesis
      using w s1 t1 s2 t2 by (intro exI [of _ s2]) (simp add: sig_eq_def)
  next
    case 3
    then have "sig_eq s t = Inr (canon (sig_bits s) = canon (sig_bits t), s2)"
      using w s1 t1 s2 t2 by (simp add: sig_eq_def list.rel_eq)
    then show ?thesis
      using s1 s2 by (simp add: inj v_def)
  qed
  then show ?thesis
    using that v_def by blast
qed

text \<open>C21: While the cached hashes are right, \<open>operator==\<close> decides equality of the bits, for every pair of
  representations; it leaves the signal well formed and its cached hash right.\<close>

theorem sig_eq_correct:
  assumes "sig_inv s" "hash_ok s" "sig_inv t" "hash_ok t"
  shows "\<exists>r. sig_eq s t = Inr (sig_bits s = sig_bits t, r) \<and> sig_inv r \<and> hash_ok r \<and> sig_bits r = sig_bits s"
proof -
  obtain r where "sig_eq s t = Inr (sig_bits s = sig_bits t, r)" "sig_inv r" "hash_ok r" "sig_bits r = sig_bits s"
    using assms by (rule sig_eq_ok)
  then show ?thesis by blast
qed

theorem sig_eq_correct_witness:
  "\<exists>r. sig_eq \<lparr>swidth = 1, shash = 0, schunks = [], sbits = [Bit_state S0]\<rparr>
      \<lparr>swidth = 1, shash = 0, schunks = [\<lparr>cwire = None, cdata = [S0], cwidth = 1, coffset = 0\<rparr>], sbits = []\<rparr>
    = Inr (True, r)"
proof -
  let ?s = "\<lparr>swidth = 1, shash = 0, schunks = [], sbits = [Bit_state S0]\<rparr>"
  let ?t = "\<lparr>swidth = 1, shash = 0, schunks = [\<lparr>cwire = None, cdata = [S0], cwidth = 1, coffset = 0\<rparr>], sbits = []\<rparr>"
  have "sig_inv ?s" "sig_inv ?t" "hash_ok ?s" "hash_ok ?t"
    by (simp_all add: sig_inv_def packed_def chunk_ok_def hash_ok_def)
  moreover have "sig_bits ?s = sig_bits ?t"
    by (simp_all add: sig_bits_def chunk_bits_def SigBit_chunk_at_def)
  ultimately show ?thesis
    using sig_eq_correct [of ?s ?t] by auto
qed

text \<open>\<open>remove_const\<close> keeps the wire bits.\<close>

lemma remove_const_canon:
  assumes "list_all chunk_ok cs"
  shows "foldl remove_const_step ([], 0) cs =
    (let bs = filter (\<lambda>b. bit_wire b \<noteq> None) (concat (map chunk_bits cs)) in (canon bs, int (length bs)))"
  using assms
proof (induction cs rule: rev_induct)
  case (snoc c cs)
  let ?bs = "filter (\<lambda>b. bit_wire b \<noteq> None) (concat (map chunk_bits cs))"
  have c: "chunk_ok c" and cs: "list_all chunk_ok cs" using snoc.prems by simp_all
  have ok: "list_all bit_ok ?bs"
    using chunks_ok_bits [OF cs] by (auto simp: list_all_iff)
  have IH: "foldl remove_const_step ([], 0) cs = (canon ?bs, int (length ?bs))"
    using snoc.IH [OF cs] by (simp add: Let_def)
  show ?case
  proof (cases "cwire c")
    case None
    then have "filter (\<lambda>b. bit_wire b \<noteq> None) (chunk_bits c) = []"
      using c by (simp add: chunk_bits_const chunk_ok_def)
    moreover have "remove_const_step acc c = acc" for acc
      using None by (simp add: remove_const_step_def split: prod.splits)
    ultimately show ?thesis by (simp add: IH Let_def)
  next
    case (Some w)
    then have f: "filter (\<lambda>b. bit_wire b \<noteq> None) (chunk_bits c) = chunk_bits c" and l: "int (length (chunk_bits c)) = cwidth c"
      using c by (auto simp: chunk_bits_wire chunk_ok_def)
    have "fst (remove_const_step (canon ?bs, k) c) = canon (?bs @ chunk_bits c)" for k
    proof (cases "?bs = []")
      case True
      then show ?thesis
        using canon_unique [of "[c]"] c Some unfolding True by (simp add: remove_const_step_def)
    next
      case False
      then have ne: "canon ?bs \<noteq> []" using canon_ok(4) [OF ok] by auto
      have "append_chunk (canon ?bs) c = canon (?bs @ chunk_bits c)"
        using append_chunk_canon [of "[c]" ?bs] c ok False by simp
      moreover have "fst (remove_const_step (canon ?bs, k) c) = append_chunk (canon ?bs) c"
        using Some ne by (simp add: remove_const_step_def append_chunk_def Let_def)
      ultimately show ?thesis by simp
    qed
    moreover have "snd (remove_const_step (canon ?bs, k) c) = k + cwidth c" for k
      using Some by (simp add: remove_const_step_def)
    ultimately show ?thesis
      using f l by (simp add: IH Let_def prod_eq_iff)
  qed
qed simp

lemma sig_remove_const_ok:
  assumes "sig_inv s"
  obtains r where "sig_remove_const s = Inr r" "sig_inv r" "sig_bits r = filter (\<lambda>b. bit_wire b \<noteq> None) (sig_bits s)"
    "shash r = shash s"
proof -
  let ?bs = "filter (\<lambda>b. bit_wire b \<noteq> None) (sig_bits s)"
  have ok: "list_all bit_ok ?bs" using sig_inv_bit_ok [OF assms] by (auto simp: list_all_iff)
  show ?thesis
  proof (cases "sbits s = []")
    case True
    let ?r = "s\<lparr>schunks := canon ?bs, swidth := int (length ?bs)\<rparr>"
    have "foldl remove_const_step ([], 0) (schunks s) = (canon ?bs, int (length ?bs))"
      using remove_const_canon [of "schunks s"] assms True by (simp add: sig_inv_def packed_def sig_bits_def Let_def)
    moreover have "sig_inv ?r" "sig_bits ?r = ?bs"
      using sig_packed_rep [of ?r ?bs] True ok by simp_all
    ultimately show ?thesis
      using True by (intro that [of ?r]) (simp_all add: sig_remove_const_def packed_def sig_check_ok)
  next
    case False
    let ?r = "s\<lparr>sbits := ?bs, swidth := int (length ?bs)\<rparr>"
    have b: "sig_bits s = sbits s" "schunks s = []" using assms False by (auto simp: sig_inv_def packed_def sig_bits_def)
    have "sig_inv ?r" "sig_bits ?r = ?bs"
      using sig_unpacked_rep [of ?r ?bs] b ok by simp_all
    then show ?thesis
      using False b by (intro that [of ?r]) (simp_all add: sig_remove_const_def packed_def sig_check_ok Let_def)
  qed
qed

text \<open>A signal left with the cached hash of other bits: \<open>operator==\<close> against a signal with the same bits and a right hash compares the
  hashes only.\<close>

definition hash_left :: "32 word \<Rightarrow> sigspec \<Rightarrow> sigbit list \<Rightarrow> bool" where
  "hash_left h r bs \<longleftrightarrow> sig_inv r \<and> sig_bits r = bs \<and> shash r = h \<and>
     (\<forall>t. sig_inv t \<and> hash_ok t \<and> sig_bits t = bs \<longrightarrow> (\<exists>r'. sig_eq r t = Inr (h = chunks_hash (canon bs), r')))"

lemma hash_leftI:
  assumes r: "sig_inv r" "sig_bits r = bs" "shash r = h" and "h \<noteq> 0" "bs \<noteq> []"
  shows "hash_left h r bs"
  unfolding hash_left_def
proof (intro conjI allI impI r)
  fix t assume "sig_inv t \<and> hash_ok t \<and> sig_bits t = bs"
  then have t: "sig_inv t" "hash_ok t" "sig_bits t = bs" by simp_all
  obtain r1 where r1: "sig_pack r = Inr r1" "schunks r1 = canon bs" "shash r1 = h"
    by (rule sig_pack_ok [OF r(1)]) (use r in auto)
  obtain t1 where t1: "sig_pack t = Inr t1" "sig_inv t1" "sig_bits t1 = bs" "schunks t1 = canon bs" "hash_ok t1"
    by (rule sig_pack_ok [OF t(1)]) (use t in auto)
  obtain t2 where t2: "sig_updhash t1 = Inr t2" "shash t2 = chunks_hash (canon bs)" "schunks t2 = canon bs"
    by (rule sig_updhash_ok [OF t1(2,5)]) (use t1 in auto)
  have "swidth r = swidth t" "swidth r \<noteq> 0" "sig_updhash r1 = Inr r1"
    using r t assms(4,5) r1(3) by (auto simp: sig_inv_width sig_updhash_def)
  then show "\<exists>r'. sig_eq r t = Inr (h = chunks_hash (canon bs), r')"
    using r1 t1 t2 by (auto simp: sig_eq_def list.rel_eq)
qed

text \<open>C22: neither \<open>append\<close> nor \<open>remove_const\<close> drops a cached hash.  Whatever is appended to a non-empty signal whose hash
  has been asked for, and whatever constants are removed from it while a wire bit remains, the result has the right bits and the hash of the old ones;
  \<open>operator==\<close> then says that it differs from every well-formed signal with the same bits and a right hash, unless the hashes of the old and of the new bits
  happen to agree.\<close>

theorem sig_append_stale_hash:
  assumes "sig_inv s" "sig_bits s \<noteq> []" "shash s \<noteq> 0"
  shows "(bit_ok b \<longrightarrow> (\<exists>r. sig_append_bit s b = Inr r \<and> hash_left (shash s) r (sig_bits s @ [b]))) \<and>
    (sig_inv u \<longrightarrow> (\<exists>r. sig_append s u = Inr r \<and> hash_left (shash s) r (sig_bits s @ sig_bits u))) \<and>
    (\<not> list_all (\<lambda>b. bit_wire b = None) (sig_bits s) \<longrightarrow>
       (\<exists>r. sig_remove_const s = Inr r \<and> hash_left (shash s) r (filter (\<lambda>b. bit_wire b \<noteq> None) (sig_bits s))))"
proof (intro conjI impI)
  assume "bit_ok b"
  then obtain r where "sig_append_bit s b = Inr r" "sig_inv r" "sig_bits r = sig_bits s @ [b]" "shash r = shash s"
    using sig_append_bit_ok [OF assms(1)] by blast
  then show "\<exists>r. sig_append_bit s b = Inr r \<and> hash_left (shash s) r (sig_bits s @ [b])"
    using hash_leftI assms(3) by blast
next
  assume "sig_inv u"
  then obtain r where "sig_append s u = Inr r" "sig_inv r" "sig_bits r = sig_bits s @ sig_bits u" "shash r = shash s"
    using sig_append_ok [OF assms(1)] assms(2) by blast
  then show "\<exists>r. sig_append s u = Inr r \<and> hash_left (shash s) r (sig_bits s @ sig_bits u)"
    using hash_leftI assms(2,3) by blast
next
  assume "\<not> list_all (\<lambda>b. bit_wire b = None) (sig_bits s)"
  then have "filter (\<lambda>b. bit_wire b \<noteq> None) (sig_bits s) \<noteq> []" by (auto simp: list_all_iff filter_empty_conv)
  moreover obtain r where "sig_remove_const s = Inr r" "sig_inv r" "sig_bits r = filter (\<lambda>b. bit_wire b \<noteq> None) (sig_bits s)"
    "shash r = shash s" by (rule sig_remove_const_ok [OF assms(1)])
  ultimately show "\<exists>r. sig_remove_const s = Inr r \<and> hash_left (shash s) r (filter (\<lambda>b. bit_wire b \<noteq> None) (sig_bits s))"
    using hash_leftI assms(3) by blast
qed

text \<open>The hash of \<open>1'0\<close> is asked for and a bit appended.\<close>

definition stale_sig :: sigspec where
  "stale_sig = \<lparr>swidth = 1, shash = chunks_hash (canon [Bit_state S0]), schunks = canon [Bit_state S0], sbits = []\<rparr>"

theorem sig_append_stale_hash_witness:
  "\<exists>r fresh r'. sig_append_bit stale_sig (Bit_state S1) = Inr r \<and> SigSpec_bits [Bit_state S0, Bit_state S1] = Inr fresh \<and>
     sig_bits r = sig_bits fresh \<and> sig_eq r fresh = Inr (False, r')"
proof -
  have s: "sig_inv stale_sig" "sig_bits stale_sig = [Bit_state S0]"
    by (rule sig_packed_rep [of _ "[Bit_state S0]"]; simp add: stale_sig_def)+
  have h: "shash stale_sig \<noteq> 0" "shash stale_sig \<noteq> chunks_hash (canon [Bit_state S0, Bit_state S1])" by code_simp+
  obtain fresh where f: "SigSpec_bits [Bit_state S0, Bit_state S1] = Inr fresh" "sig_inv fresh"
    "sig_bits fresh = [Bit_state S0, Bit_state S1]" "shash fresh = 0"
    by (rule SigSpec_bits_ok [of "[Bit_state S0, Bit_state S1]"]) simp_all
  obtain r where r: "sig_append_bit stale_sig (Bit_state S1) = Inr r" "hash_left (shash stale_sig) r [Bit_state S0, Bit_state S1]"
    using sig_append_stale_hash [OF s(1) _ h(1), of "Bit_state S1"] s(2) by auto
  have "hash_ok fresh" using f(4) by (simp add: hash_ok_def)
  then obtain r' where "sig_eq r fresh = Inr (False, r')" "sig_bits r = sig_bits fresh"
    using r(2) f(2,3) h(2) unfolding hash_left_def by auto
  then show ?thesis using r(1) f(1) by blast
qed

section \<open>Slices\<close>

lemma list_all_take_drop: "list_all P xs \<Longrightarrow> list_all P (take n (drop m xs))"
  by (auto simp: list_all_iff dest: in_set_takeD in_set_dropD)

text \<open>C24: \<open>extract(offset, length)\<close> is the slice of the bits, freshly built and without cached hash, for
  every range inside the signal; any other range reads outside the vector.\<close>

theorem sig_extract_correct:
  assumes "sig_inv s"
  shows "if 0 \<le> offset \<and> 0 \<le> len \<and> offset + len \<le> int (length (sig_bits s))
     then \<exists>r s'. sig_extract s offset len = Inr (r, s') \<and> sig_inv r \<and> shash r = 0 \<and> hash_ok r \<and>
            sig_bits r = take (nat len) (drop (nat offset) (sig_bits s)) \<and>
            sig_inv s' \<and> sig_bits s' = sig_bits s
     else sig_extract s offset len = Inl Undefined_behaviour"
proof -
  obtain u where u: "sig_unpack s = Inr u" "sig_inv u" "sig_bits u = sig_bits s" "sbits u = sig_bits s"
    using assms by (rule sig_unpack_ok)
  have "list_all bit_ok (take (nat len) (drop (nat offset) (sig_bits s)))"
    using assms by (intro list_all_take_drop sig_inv_bit_ok)
  then obtain r where "SigSpec_bits (take (nat len) (drop (nat offset) (sig_bits s))) = Inr r"
    "sig_inv r" "sig_bits r = take (nat len) (drop (nat offset) (sig_bits s))" "shash r = 0"
    by (rule SigSpec_bits_ok)
  then show ?thesis
    using u by (auto simp: sig_extract_def hash_ok_def guardE_def)
qed

theorem sig_extract_correct_witness:
  "\<exists>r s'. sig_extract \<lparr>swidth = 3, shash = 0, schunks = [\<lparr>cwire = None, cdata = [S0, S1, Sx], cwidth = 3, coffset = 0\<rparr>], sbits = []\<rparr> 1 2
     = Inr (r, s') \<and> sig_bits r = [Bit_state S1, Bit_state Sx]"
proof -
  let ?s = "\<lparr>swidth = 3, shash = 0, schunks = [\<lparr>cwire = None, cdata = [S0, S1, Sx], cwidth = 3, coffset = 0\<rparr>], sbits = []\<rparr>"
  have "sig_inv ?s" "sig_bits ?s = [Bit_state S0, Bit_state S1, Bit_state Sx]"
    by (simp_all add: sig_inv_def packed_def chunk_ok_def sig_bits_def chunk_bits_const)
  then show ?thesis
    using sig_extract_correct [of ?s 1 2] by auto
qed

lemma sig_remove_pos_ok:
  assumes "sig_inv s" "0 \<le> offset" "0 \<le> len" "offset + len \<le> swidth s"
  obtains r where "sig_remove_pos s offset len = Inr r" "sig_inv r"
    "sig_bits r = take (nat offset) (sig_bits s) @ drop (nat (offset + len)) (sig_bits s)"
    "hash_ok s \<Longrightarrow> hash_ok r"
proof -
  obtain u where u: "sig_unpack s = Inr u" "sig_bits u = sig_bits s" "sbits u = sig_bits s" "schunks u = []"
    "swidth u = swidth s" "hash_ok s \<Longrightarrow> hash_ok u"
    by (rule sig_unpack_ok [OF assms(1)]) blast
  let ?bs = "take (nat offset) (sig_bits s) @ drop (nat (offset + len)) (sig_bits s)"
  let ?r = "u\<lparr>sbits := ?bs, swidth := int (length ?bs)\<rparr>"
  have "list_all bit_ok ?bs"
    using sig_inv_bit_ok [OF assms(1)] by (auto simp: list_all_iff dest: in_set_takeD in_set_dropD)
  then have r: "sig_inv ?r" "sig_bits ?r = ?bs"
    using u by (auto intro!: sig_unpacked_rep)
  have "hash_ok s \<Longrightarrow> hash_ok ?r"
    using u by (cases "sig_bits s") (auto simp: hash_ok_def packed_def)
  then show ?thesis
    using assms r u by (intro that [of ?r]) (simp_all add: sig_remove_pos_def int_sum_ok_def sig_inv_width Let_def sig_check_ok)
qed

lemma splice_loop:
  assumes "off + length ws \<le> length bs" "n \<le> length ws"
  shows "foldE (\<lambda>bs i. guardE (off + i < length bs \<and> i < length ws) e (Inr (bs[off + i := ws ! i]))) bs [0..<n]
    = Inr (take off bs @ take n ws @ drop (off + n) bs)"
  using assms(2)
proof (induction n)
  case (Suc n)
  let ?bs = "take off bs @ take n ws @ drop (off + n) bs"
  have "?bs[off + n := ws ! n] = take off bs @ take (Suc n) ws @ drop (off + Suc n) bs"
    using assms(1) Suc.prems
    by (simp add: list_update_append take_Suc_conv_app_nth Cons_nth_drop_Suc [symmetric, of "off + n"])
  then show ?case
    using Suc assms(1) by (simp add: foldE_append)
qed simp

lemma sig_replace_pos_ok:
  assumes "sig_inv s" "sig_inv w" "0 \<le> offset" "offset + swidth w \<le> swidth s"
  obtains r where "sig_replace_pos s offset w = Inr r" "sig_inv r"
    "sig_bits r = take (nat offset) (sig_bits s) @ sig_bits w @ drop (nat offset + length (sig_bits w)) (sig_bits s)"
    "hash_ok s \<Longrightarrow> hash_ok r"
proof -
  obtain u where u: "sig_unpack s = Inr u" "sig_bits u = sig_bits s" "sbits u = sig_bits s" "schunks u = []"
    "swidth u = swidth s" "hash_ok s \<Longrightarrow> hash_ok u" "hash_ok s \<Longrightarrow> sig_bits s \<noteq> [] \<Longrightarrow> shash u = 0" "sig_inv u"
    by (rule sig_unpack_ok [OF assms(1)]) blast
  obtain v where v: "sig_unpack w = Inr v" "sbits v = sig_bits w" "swidth v = swidth w"
    by (rule sig_unpack_ok [OF assms(2)]) blast
  have n: "nat (swidth w) = length (sig_bits w)" "swidth w \<ge> 0" "nat offset + length (sig_bits w) \<le> length (sig_bits s)"
    using assms by (auto simp: sig_inv_width)
  let ?bs = "take (nat offset) (sig_bits s) @ sig_bits w @ drop (nat offset + length (sig_bits w)) (sig_bits s)"
  let ?r = "u\<lparr>sbits := ?bs\<rparr>"
  have "list_all bit_ok ?bs"
    using sig_inv_bit_ok [OF assms(1)] sig_inv_bit_ok [OF assms(2)]
    by (auto simp: list_all_iff dest: in_set_takeD in_set_dropD)
  then have r: "sig_inv ?r" "sig_bits ?r = ?bs"
    using u n assms by (auto intro!: sig_unpacked_rep simp: sig_inv_width)
  have "hash_ok s \<Longrightarrow> hash_ok ?r"
    using u n by (cases "sig_bits s") (auto simp: hash_ok_def packed_def)
  moreover have "sig_replace_pos s offset w = Inr ?r"
    using u v n r assms splice_loop [OF n(3) order_refl, of Out_of_range]
    by (simp add: sig_replace_pos_def int_sum_ok_def sig_check_ok)
  ultimately show ?thesis
    using r by (intro that [of ?r])
qed

text \<open>C25: \<open>replace(offset, with)\<close> overwrites the bits from the offset on and \<open>remove(offset, length)\<close> cuts
  them out; both keep the invariant and the cached hash right, for every signal whose width is an \<open>int\<close>.  A range that is not inside the signal stops at an assertion, unless its
  end is beyond \<open>INT_MAX\<close>: the assertion adds two \<open>int\<close>s, so the addition overflows before anything is compared.\<close>

theorem sig_splice_correct:
  assumes "sig_inv s" "sig_inv w" "swidth s < 2 ^ 31"
  shows "(if 0 \<le> offset \<and> offset + swidth w \<le> swidth s
     then \<exists>r. sig_replace_pos s offset w = Inr r \<and> sig_inv r \<and> (hash_ok s \<longrightarrow> hash_ok r) \<and>
       sig_bits r = take (nat offset) (sig_bits s) @ sig_bits w @ drop (nat offset + length (sig_bits w)) (sig_bits s)
     else sig_replace_pos s offset w =
       Inl (if 0 \<le> offset \<and> 2 ^ 31 \<le> offset + swidth w then Undefined_behaviour else Assert_failed)) \<and>
    (if 0 \<le> offset \<and> 0 \<le> len \<and> offset + len \<le> swidth s
     then \<exists>r. sig_remove_pos s offset len = Inr r \<and> sig_inv r \<and> (hash_ok s \<longrightarrow> hash_ok r) \<and>
       sig_bits r = take (nat offset) (sig_bits s) @ drop (nat (offset + len)) (sig_bits s)
     else sig_remove_pos s offset len =
       Inl (if 0 \<le> offset \<and> 0 \<le> len \<and> 2 ^ 31 \<le> offset + len then Undefined_behaviour else Assert_failed))"
proof -
  obtain u where u: "sig_unpack s = Inr u" "swidth u = swidth s"
    by (rule sig_unpack_ok [OF assms(1)]) blast
  obtain v where v: "sig_unpack w = Inr v" "swidth v = swidth w"
    by (rule sig_unpack_ok [OF assms(2)]) blast
  have "\<exists>r. sig_replace_pos s offset w = Inr r \<and> sig_inv r \<and> (hash_ok s \<longrightarrow> hash_ok r) \<and>
       sig_bits r = take (nat offset) (sig_bits s) @ sig_bits w @ drop (nat offset + length (sig_bits w)) (sig_bits s)"
    if "0 \<le> offset" "offset + swidth w \<le> swidth s"
    using sig_replace_pos_ok [OF assms(1,2) that] by metis
  moreover have "sig_replace_pos s offset w =
      Inl (if 0 \<le> offset \<and> 2 ^ 31 \<le> offset + swidth w then Undefined_behaviour else Assert_failed)"
    if "\<not> (0 \<le> offset \<and> offset + swidth w \<le> swidth s)"
    using that u v assms(3) sig_inv_width [OF assms(2)] by (auto simp: sig_replace_pos_def guardE_def int_sum_ok_def)
  moreover have "\<exists>r. sig_remove_pos s offset len = Inr r \<and> sig_inv r \<and> (hash_ok s \<longrightarrow> hash_ok r) \<and>
       sig_bits r = take (nat offset) (sig_bits s) @ drop (nat (offset + len)) (sig_bits s)"
    if "0 \<le> offset" "0 \<le> len" "offset + len \<le> swidth s"
    using sig_remove_pos_ok [OF assms(1) that] by metis
  moreover have "sig_remove_pos s offset len =
      Inl (if 0 \<le> offset \<and> 0 \<le> len \<and> 2 ^ 31 \<le> offset + len then Undefined_behaviour else Assert_failed)"
    if "\<not> (0 \<le> offset \<and> 0 \<le> len \<and> offset + len \<le> swidth s)"
    using that u assms(3) by (auto simp: sig_remove_pos_def guardE_def int_sum_ok_def)
  ultimately show ?thesis
    by simp
qed

theorem sig_splice_correct_witness:
  "let s = \<lparr>swidth = 2, shash = 0, schunks = [], sbits = [Bit_state S0, Bit_state S1]\<rparr>;
       w = \<lparr>swidth = 1, shash = 0, schunks = [], sbits = [Bit_state Sx]\<rparr>
   in (\<exists>r. sig_replace_pos s 1 w = Inr r \<and> sig_bits r = [Bit_state S0, Bit_state Sx]) \<and>
      sig_replace_pos s 2 w = Inl Assert_failed \<and> sig_remove_pos s 1 2147483647 = Inl Undefined_behaviour"
proof -
  let ?s = "\<lparr>swidth = 2, shash = 0, schunks = [], sbits = [Bit_state S0, Bit_state S1]\<rparr>"
  let ?w = "\<lparr>swidth = 1, shash = 0, schunks = [], sbits = [Bit_state Sx]\<rparr>"
  have "sig_inv ?s" "sig_inv ?w" "sig_bits ?s = [Bit_state S0, Bit_state S1]" "sig_bits ?w = [Bit_state Sx]"
    by (simp_all add: sig_inv_def packed_def sig_bits_def)
  then show ?thesis
    using sig_splice_correct [of ?s ?w 1 2147483647] sig_splice_correct [of ?s ?w 2 0] by (auto simp: Let_def)
qed

lemma sig_index_ok:
  assumes "sig_inv s" "0 \<le> i" "i < swidth s"
  obtains r where "sig_index s i = Inr (sig_bits s ! nat i, r)" "sig_inv r" "sig_bits r = sig_bits s"
    "hash_ok s \<Longrightarrow> shash r = 0"
proof -
  obtain u where u: "sig_unpack s = Inr u" "sig_inv u" "sig_bits u = sig_bits s" "sbits u = sig_bits s"
    "hash_ok s \<Longrightarrow> sig_bits s \<noteq> [] \<Longrightarrow> shash u = 0"
    by (rule sig_unpack_ok [OF assms(1)]) blast
  have "inline_unpack s = Inr u"
    using u(1) by (auto simp: inline_unpack_def sig_unpack_def split: if_splits)
  moreover have "i < int (length (sig_bits s))"
    using assms by (simp add: sig_inv_width)
  moreover from this have "sig_bits s \<noteq> []"
    using assms(2) by auto
  ultimately show ?thesis
    using u assms(2) by (intro that [of u]) (simp_all add: sig_index_def)
qed

lemma sig_pad_ok:
  assumes "sig_inv s" "swidth s < width"
  shows "\<exists>r. bindE (if swidth s > 0 then sig_index s (swidth s - 1) else Inr (Bit_state Sx, s)) (\<lambda>(padding, s).
       let padding = (if \<not> is_signed then Bit_state S0 else padding)
       in foldE sig_append_bit s (replicate (nat (width - swidth s)) padding)) = Inr r \<and> sig_inv r \<and>
     sig_bits r = sig_bits s @ replicate (nat width - length (sig_bits s)) (sig_padding (sig_bits s) is_signed)"
proof -
  obtain p u where u: "(if swidth s > 0 then sig_index s (swidth s - 1) else Inr (Bit_state Sx, s)) = Inr (p, u)"
    "sig_inv u" "sig_bits u = sig_bits s" "(if is_signed then p else Bit_state S0) = sig_padding (sig_bits s) is_signed"
  proof (cases "sig_bits s = []")
    case True
    then show ?thesis
      using assms by (intro that [of "Bit_state Sx" s]) (simp_all add: sig_inv_width sig_padding_def)
  next
    case False
    then have w: "0 \<le> swidth s - 1" "swidth s - 1 < swidth s" "swidth s > 0"
      using assms by (auto simp: sig_inv_width Suc_le_eq)
    obtain u where "sig_index s (swidth s - 1) = Inr (sig_bits s ! nat (swidth s - 1), u)" "sig_inv u" "sig_bits u = sig_bits s"
      by (rule sig_index_ok [OF assms(1) w(1,2)]) blast
    moreover have "sig_bits s ! nat (swidth s - 1) = last (sig_bits s)"
    proof -
      have "nat (swidth s - 1) = length (sig_bits s) - 1"
        using sig_inv_width [OF assms(1)] by linarith
      then show ?thesis
        using False by (simp add: last_conv_nth)
    qed
    ultimately show ?thesis
      using False w by (intro that [of "last (sig_bits s)" u]) (simp_all add: sig_padding_def)
  qed
  have pad: "bit_ok (sig_padding (sig_bits s) is_signed)"
    using sig_inv_bit_ok [OF assms(1)] by (auto simp: sig_padding_def list_all_iff)
  let ?ps = "replicate (nat (width - swidth u)) (sig_padding (sig_bits s) is_signed)"
  obtain r where r: "foldE sig_append_bit u ?ps = Inr r" "sig_inv r" "sig_bits r = sig_bits u @ ?ps"
    by (rule sig_append_bits_ok [OF u(2), of ?ps]) (use pad in \<open>auto simp: list_all_iff\<close>)
  have "nat (width - swidth u) = nat width - length (sig_bits s)"
    using u assms by (simp add: sig_inv_width nat_diff_distrib')
  then show ?thesis
    using u r by (intro exI [of _ r]) (auto simp: Let_def)
qed

text \<open>C26: \<open>extend_u0(width, is_signed)\<close> truncates, or pads with zero or with the last bit (\<open>x\<close> when there is
  none); a negative width stops at an assertion.\<close>

theorem sig_extend_u0_correct:
  assumes "sig_inv s"
  shows "if width < 0 then sig_extend_u0 s width is_signed = Inl Assert_failed
    else \<exists>r. sig_extend_u0 s width is_signed = Inr r \<and> sig_inv r \<and> swidth r = width \<and>
      sig_bits r = take (nat width) (sig_bits s)
        @ replicate (nat width - length (sig_bits s)) (sig_padding (sig_bits s) is_signed)"
proof -
  obtain p where p: "sig_pack s = Inr p" "sig_inv p" "sig_bits p = sig_bits s" "swidth p = swidth s"
    by (rule sig_pack_ok [OF assms]) blast
  have w: "swidth p = int (length (sig_bits s))"
    using p by (simp add: sig_inv_width)
  consider "width < 0" | "0 \<le> width" "width < swidth p" | "width = swidth p" | "swidth p < width"
    by linarith
  then show ?thesis
  proof cases
    case 1
    obtain u where "sig_unpack p = Inr u"
      by (rule sig_unpack_ok [OF p(2)]) blast
    then have "sig_remove_pos p width (swidth p - width) = Inl Assert_failed"
      using 1 by (simp add: sig_remove_pos_def guardE_def)
    then show ?thesis
      using 1 p w by (simp add: sig_extend_u0_def)
  next
    case 2
    obtain r where r: "sig_remove_pos p width (swidth p - width) = Inr r" "sig_inv r"
      "sig_bits r = take (nat width) (sig_bits p) @ drop (nat (width + (swidth p - width))) (sig_bits p)"
      by (rule sig_remove_pos_ok [OF p(2), of width "swidth p - width"]) (use 2 in auto)
    then have "sig_bits r = take (nat width) (sig_bits s)" "swidth r = width"
      using 2 p w by (simp_all add: sig_inv_width)
    then show ?thesis
      using 2 p r w by (auto simp: sig_extend_u0_def)
  next
    case 3
    then show ?thesis
      using p w by (auto simp: sig_extend_u0_def)
  next
    case 4
    obtain r where r: "sig_extend_u0 s width is_signed = Inr r" "sig_inv r"
      "sig_bits r = sig_bits p @ replicate (nat width - length (sig_bits p)) (sig_padding (sig_bits p) is_signed)"
      using sig_pad_ok [OF p(2) 4, of is_signed] p(1) 4 by (auto simp: sig_extend_u0_def)
    then show ?thesis
      using 4 p w by (auto simp: sig_inv_width)
  qed
qed

theorem sig_extend_u0_correct_witness:
  "\<exists>r. sig_extend_u0 \<lparr>swidth = 2, shash = 0, schunks = [], sbits = [Bit_state S0, Bit_state S1]\<rparr> 4 True = Inr r \<and>
     sig_bits r = [Bit_state S0, Bit_state S1, Bit_state S1, Bit_state S1]"
proof -
  let ?s = "\<lparr>swidth = 2, shash = 0, schunks = [], sbits = [Bit_state S0, Bit_state S1]\<rparr>"
  have "sig_inv ?s" "sig_bits ?s = [Bit_state S0, Bit_state S1]"
    by (simp_all add: sig_inv_def packed_def sig_bits_def)
  then show ?thesis
    using sig_extend_u0_correct [of ?s 4 True] by (auto simp: sig_padding_def numeral_eq_Suc)
qed

lemma sig_repeat_ok:
  assumes "sig_inv s"
  shows "\<exists>r. sig_repeat s num = Inr r \<and> sig_inv r \<and> sig_bits r = concat (replicate (nat num) (sig_bits s))"
proof -
  have "\<exists>r. foldE sig_append t (replicate n s) = Inr r \<and> sig_inv r \<and> sig_bits r = sig_bits t @ concat (replicate n (sig_bits s))"
    if "sig_inv t" for n t
    using that
  proof (induction n arbitrary: t)
    case (Suc n)
    obtain r where r: "sig_append t s = Inr r" "sig_inv r" "sig_bits r = sig_bits t @ sig_bits s"
      by (rule sig_append_ok [OF Suc.prems assms]) blast
    then show ?case
      using Suc.IH [OF r(2)] by auto
  qed auto
  from this [OF sig_empty_ok(1)] show ?thesis
    by (simp add: sig_repeat_def)
qed

section \<open>Substitution and selection\<close>

lemma replace_dict_loop_ok:
  assumes "dict_inv bit_hash rules" "room rules" "length bs = length obs"
  shows "\<exists>rules'. replace_dict_loop bs obs rules = Inr (map2 (subst_bit (dict_map rules)) bs obs, rules') \<and>
    dict_inv bit_hash rules' \<and> dict_map rules' = dict_map rules \<and> room rules'"
  using assms
proof (induction bs obs rules rule: replace_dict_loop.induct)
  case (1 b bs ob obs rules)
  obtain i t where t: "dict_find bit_hash rules b = Inr (i, t)" "dict_index t b i" "dict_inv bit_hash t"
    "elems t = elems rules" "capacity t = capacity rules"
    by (rule dict_find_ok [OF 1(2,3)]) blast
  have m: "dict_map t = dict_map rules" "length (entries t) = length (entries rules)"
    using same_elems [OF t(4)] by simp_all
  have "room t"
    using 1(3) t(5) m(2) by (simp add: room_def)
  then obtain r where r: "replace_dict_loop bs obs t = Inr (map2 (subst_bit (dict_map t)) bs obs, r)"
    "dict_inv bit_hash r" "dict_map r = dict_map t" "room r"
    using 1(1) [OF t(3)] 1(4) by auto
  have "(if i \<noteq> -1 then dict_deref t i else ob) = subst_bit (dict_map t) b ob"
    using t(2) by (auto simp: dict_index_def subst_bit_def dict_deref_def elems_nth [symmetric] split: option.splits)
  then show ?case
    using t(1) r m(1) by simp
qed simp_all

lemma map2_same: "map2 f xs xs = map (\<lambda>x. f x x) xs"
  by (induction xs) simp_all

lemma sig_replace_dict_ok:
  assumes "sig_inv s" "dict_inv bit_hash rules" "room rules" "\<forall>v \<in> ran (dict_map rules). bit_ok v"
  obtains r rules' where "sig_replace_dict s rules = Inr (r, rules')" "sig_inv r"
    "sig_bits r = map (\<lambda>b. subst_bit (dict_map rules) b b) (sig_bits s)" "hash_ok s \<longrightarrow> hash_ok r"
    "dict_inv bit_hash rules'" "dict_map rules' = dict_map rules"
proof (cases "dict_is_empty rules")
  case True
  then have "dict_map rules = Map.empty"
    by (simp add: dict_is_empty_def dict_map_def elems_def)
  then show ?thesis
    using True assms by (intro that [of s rules]) (simp_all add: sig_replace_dict_def subst_bit_def)
next
  case False
  obtain u where u: "sig_unpack s = Inr u" "sbits u = sig_bits s" "schunks u = []" "swidth u = swidth s"
    "hash_ok s \<longrightarrow> hash_ok u" "hash_ok s \<longrightarrow> sig_bits s \<noteq> [] \<longrightarrow> shash u = 0"
    by (rule sig_unpack_ok [OF assms(1)]) blast
  obtain rules' where l: "replace_dict_loop (sig_bits s) (sig_bits s) rules
      = Inr (map (\<lambda>b. subst_bit (dict_map rules) b b) (sig_bits s), rules')"
    "dict_inv bit_hash rules'" "dict_map rules' = dict_map rules"
    using replace_dict_loop_ok [OF assms(2,3) refl, of "sig_bits s"] by (auto simp: map2_same)
  let ?bs = "map (\<lambda>b. subst_bit (dict_map rules) b b) (sig_bits s)"
  let ?r = "u\<lparr>sbits := ?bs\<rparr>"
  have "list_all bit_ok ?bs"
    using sig_inv_bit_ok [OF assms(1)] assms(4)
    by (auto simp: list_all_iff subst_bit_def ran_def split: option.splits)
  then have r: "sig_inv ?r" "sig_bits ?r = ?bs"
    using u assms by (auto intro!: sig_unpacked_rep simp: sig_inv_width)
  have "hash_ok s \<longrightarrow> hash_ok ?r"
    using u by (cases "sig_bits s") (auto simp: hash_ok_def packed_def)
  then show ?thesis
    using r l u False by (intro that [of ?r rules']) (simp_all add: sig_replace_dict_def sig_check_ok)
qed

text \<open>C27: \<open>replace(rules)\<close> with a \<open>dict\<close> substitutes all bits at once: a replacement is never replaced
  again.  The rules stay the same map.\<close>

theorem sig_replace_dict_correct:
  assumes "sig_inv s" "dict_inv bit_hash rules" "room rules" "\<forall>v \<in> ran (dict_map rules). bit_ok v"
  shows "\<exists>r rules'. sig_replace_dict s rules = Inr (r, rules') \<and> sig_inv r \<and> (hash_ok s \<longrightarrow> hash_ok r) \<and>
    sig_bits r = map (\<lambda>b. case dict_map rules b of Some v \<Rightarrow> v | None \<Rightarrow> b) (sig_bits s) \<and>
    dict_inv bit_hash rules' \<and> dict_map rules' = dict_map rules"
  by (rule sig_replace_dict_ok [OF assms]) (auto simp: subst_bit_def)

theorem sig_replace_dict_correct_witness:
  "\<exists>r rules'. sig_replace_dict \<lparr>swidth = 2, shash = 0, schunks = [], sbits = [Bit_state S0, Bit_state Sx]\<rparr>
     (dict_one (Bit_state S0) (Bit_state S1)) = Inr (r, rules') \<and> sig_bits r = [Bit_state S1, Bit_state Sx]"
proof -
  let ?s = "\<lparr>swidth = 2, shash = 0, schunks = [], sbits = [Bit_state S0, Bit_state Sx]\<rparr>"
  have s: "sig_inv ?s" "sig_bits ?s = [Bit_state S0, Bit_state Sx]"
    by (simp_all add: sig_inv_def packed_def sig_bits_def)
  have "\<forall>v \<in> ran (dict_map (dict_one (Bit_state S0) (Bit_state S1))). bit_ok v"
    by (simp add: dict_one_ok)
  then show ?thesis
    using sig_replace_dict_correct [OF s(1) dict_one_ok(1,3)] s(2) by (fastforce simp: dict_one_ok)
qed

lemma chunk_covers_iff:
  "chunk_ok c \<Longrightarrow> chunk_covers c b \<longleftrightarrow> bit_wire b \<noteq> None \<and> b \<in> set (chunk_bits c)"
proof (cases b)
  case (Bit_wire w i)
  assume "chunk_ok c"
  then show ?thesis
  proof (cases "cwire c")
    case None
    then show ?thesis
      using Bit_wire by (auto simp: chunk_covers_def chunk_bits_def SigBit_chunk_at_def)
  next
    case (Some v)
    have "i \<in> (\<lambda>k. coffset c + int k) ` {0..<nat (cwidth c)} \<longleftrightarrow> coffset c \<le> i \<and> i < coffset c + cwidth c"
    proof
      assume "coffset c \<le> i \<and> i < coffset c + cwidth c"
      then show "i \<in> (\<lambda>k. coffset c + int k) ` {0..<nat (cwidth c)}"
        by (intro image_eqI [of _ _ "nat (i - coffset c)"]) auto
    qed auto
    then show ?thesis
      using Some Bit_wire by (auto simp: chunk_covers_def chunk_bits_wire)
  qed
qed (simp add: chunk_covers_def)

lemma pattern_covers:
  assumes "list_all chunk_ok cs"
  shows "list_ex (\<lambda>c. chunk_covers c b) cs \<longleftrightarrow> bit_wire b \<noteq> None \<and> b \<in> set (concat (map chunk_bits cs))"
  using assms by (induction cs) (auto simp: chunk_covers_iff)

lemma keep_map: "keep (map P xs) xs = filter (\<lambda>x. \<not> P x) xs"
  by (induction xs) (simp_all add: keep_def)

lemma erase_hits_ok:
  assumes "sig_inv s" "schunks s = []" "sbits s = sig_bits s"
  shows "sig_inv (erase_hits (map P (sig_bits s)) s)"
    "sig_bits (erase_hits (map P (sig_bits s)) s) = filter (\<lambda>b. \<not> P b) (sig_bits s)"
proof -
  have "int (length (filter (\<lambda>b. \<not> P b) bs)) = int (length bs) - int (length (filter P bs))" for bs :: "sigbit list"
    using sum_length_filter_compl [of P bs] by simp
  moreover have "list_all bit_ok (filter (\<lambda>b. \<not> P b) (sig_bits s))"
    using sig_inv_bit_ok [OF assms(1)] by (auto simp: list_all_iff)
  ultimately show "sig_inv (erase_hits (map P (sig_bits s)) s)"
    "sig_bits (erase_hits (map P (sig_bits s)) s) = filter (\<lambda>b. \<not> P b) (sig_bits s)"
    using assms(2,3) sig_inv_width [OF assms(1)]
    by (auto intro!: sig_unpacked_rep simp: erase_hits_def keep_map filter_map comp_def)
qed

lemma sig_remove_ok:
  assumes "sig_inv s" "sig_inv pattern"
  obtains r where "sig_remove s pattern = Inr r" "sig_inv r"
    "sig_bits r = filter (\<lambda>b. \<not> (bit_wire b \<noteq> None \<and> b \<in> set (sig_bits pattern))) (sig_bits s)"
proof -
  obtain u where u: "sig_unpack s = Inr u" "sig_inv u" "sig_bits u = sig_bits s" "sbits u = sig_bits s" "schunks u = []"
    by (rule sig_unpack_ok [OF assms(1)]) blast
  obtain p where p: "sig_pack pattern = Inr p" "schunks p = canon (sig_bits pattern)"
    by (rule sig_pack_ok [OF assms(2)]) blast
  note c = canon_ok [OF sig_inv_bit_ok [OF assms(2)]]
  define P where "P b \<longleftrightarrow> bit_wire b \<noteq> None \<and> b \<in> set (sig_bits pattern)" for b
  have hits: "map (\<lambda>b. list_ex (\<lambda>c. chunk_covers c b) (schunks p)) (sig_bits s) = map P (sig_bits s)"
    unfolding P_def p(2) pattern_covers [OF c(1)] c(4) by (rule refl)
  let ?r = "erase_hits (map P (sig_bits s)) u"
  have r: "sig_inv ?r" "sig_bits ?r = filter (\<lambda>b. \<not> P b) (sig_bits s)"
    using erase_hits_ok [of u P] u by simp_all
  have "sig_remove s pattern = Inr ?r"
    unfolding sig_remove_def sig_remove2_def other_unpack_def
    by (simp add: u p Let_def hits [unfolded p(2)] sig_check_ok [OF r(1)])
  then show ?thesis
    using r by (intro that [of ?r]) (simp_all add: P_def)
qed

lemma pool_hits_ok:
  assumes "pool_inv bit_hash p" "fits 0 p"
  shows "\<exists>p'. pool_hits bs p = Inr (map (\<lambda>b. bit_wire b \<noteq> None \<and> b \<in> pool_set p) bs, p') \<and>
    pool_inv bit_hash p' \<and> fits 0 p' \<and> pool_set p' = pool_set p"
  using assms
proof (induction bs arbitrary: p)
  case (Cons b bs)
  obtain n q where q: "(if bit_wire b \<noteq> None then pool_count bit_hash p b else Inr (0, p)) = Inr (n, q)"
    "n \<noteq> 0 \<longleftrightarrow> bit_wire b \<noteq> None \<and> b \<in> pool_set p" "pool_inv bit_hash q" "fits 0 q" "pool_set q = pool_set p"
  proof (cases "bit_wire b = None")
    case True
    then show ?thesis using Cons.prems by (intro that [of 0 p]) simp_all
  next
    case False
    then show ?thesis
      using pool_fs.has_law [OF Cons.prems, of b] that by (auto split: if_splits)
  qed
  obtain r where "pool_hits bs q = Inr (map (\<lambda>b. bit_wire b \<noteq> None \<and> b \<in> pool_set q) bs, r)"
    "pool_inv bit_hash r" "fits 0 r" "pool_set r = pool_set q"
    using Cons.IH [OF q(3,4)] by blast
  then show ?case
    using q by simp
qed simp

lemma sig_remove_pool_ok:
  assumes "sig_inv s" "pool_inv bit_hash p" "fits 0 p"
  obtains r p' where "sig_remove_pool s p = Inr (r, p')" "sig_inv r"
    "sig_bits r = filter (\<lambda>b. \<not> (bit_wire b \<noteq> None \<and> b \<in> pool_set p)) (sig_bits s)"
    "pool_inv bit_hash p'" "fits 0 p'" "pool_set p' = pool_set p"
proof -
  obtain u where u: "sig_unpack s = Inr u" "sig_inv u" "sig_bits u = sig_bits s" "sbits u = sig_bits s" "schunks u = []"
    by (rule sig_unpack_ok [OF assms(1)]) blast
  define P where "P b \<longleftrightarrow> bit_wire b \<noteq> None \<and> b \<in> pool_set p" for b
  obtain p' where p': "pool_hits (rev (sig_bits s)) p = Inr (map P (rev (sig_bits s)), p')"
    "pool_inv bit_hash p'" "fits 0 p'" "pool_set p' = pool_set p"
    using pool_hits_ok [OF assms(2,3), of "rev (sig_bits s)"] unfolding P_def by blast
  let ?r = "erase_hits (map P (sig_bits s)) u"
  have r: "sig_inv ?r" "sig_bits ?r = filter (\<lambda>b. \<not> P b) (sig_bits s)"
    using erase_hits_ok [of u P] u by simp_all
  have "sig_remove_pool s p = Inr (?r, p')"
    using u p' r by (simp add: sig_remove_pool_def sig_remove2_pool_def other_unpack_def sig_check_ok rev_map)
  then show ?thesis
    using r p' by (intro that [of ?r p']) (simp_all add: P_def)
qed

lemma append_hits:
  "foldE (\<lambda>ret (hit, ob). if hit then sig_append_bit ret ob else Inr ret) s (zip (map P bs) bs)
     = foldE sig_append_bit s (filter P bs)"
  by (induction bs arbitrary: s) (auto simp: bindE_def split: sum.splits)

lemma sig_extract_pool_ok:
  assumes "sig_inv s" "pool_inv bit_hash p" "fits 0 p"
  obtains r s' p' where "sig_extract_pool s p None = Inr (r, s', p')" "sig_inv r" "hash_ok r"
    "sig_bits r = filter (\<lambda>b. bit_wire b \<noteq> None \<and> b \<in> pool_set p) (sig_bits s)"
    "sig_inv s'" "sig_bits s' = sig_bits s" "pool_inv bit_hash p'" "fits 0 p'" "pool_set p' = pool_set p"
proof -
  obtain u where u: "sig_unpack s = Inr u" "sig_inv u" "sig_bits u = sig_bits s" "sbits u = sig_bits s"
    by (rule sig_unpack_ok [OF assms(1)]) blast
  define P where "P b \<longleftrightarrow> bit_wire b \<noteq> None \<and> b \<in> pool_set p" for b
  obtain p' where p': "pool_hits (sig_bits s) p = Inr (map P (sig_bits s), p')"
    "pool_inv bit_hash p'" "fits 0 p'" "pool_set p' = pool_set p"
    using pool_hits_ok [OF assms(2,3), of "sig_bits s"] unfolding P_def by blast
  have "list_all bit_ok (filter P (sig_bits s))"
    using sig_inv_bit_ok [OF assms(1)] by (auto simp: list_all_iff)
  then obtain r where r: "foldE sig_append_bit sig_empty (filter P (sig_bits s)) = Inr r" "sig_inv r"
    "sig_bits r = sig_bits sig_empty @ filter P (sig_bits s)" "shash r = shash sig_empty"
    by (rule sig_append_bits_ok [OF sig_empty_ok(1)])
  have "sig_extract_pool s p None = Inr (r, u, p')"
    using u p' r by (simp add: sig_extract_pool_def to_sigbit_vector_def append_hits sig_check_ok)
  then show ?thesis
    using r u p' by (intro that [of r u p']) (simp_all add: P_def [abs_def] hash_ok_def)
qed

text \<open>C28: For a set of bits given as a \<open>pool\<close>, \<open>extract\<close> keeps the wire bits in the set and \<open>remove\<close> keeps the
  others, in order, and the pool stays the same set; with a signal as the pattern, \<open>remove\<close> drops
  the wire bits that occur in it.  Constant bits are never removed.\<close>

theorem sig_select_correct:
  assumes "sig_inv s" "pool_inv bit_hash p" "fits 0 p" "sig_inv pattern"
  shows "(\<exists>r s' p'. sig_extract_pool s p None = Inr (r, s', p') \<and> sig_inv r \<and> sig_bits s' = sig_bits s \<and>
      pool_set p' = pool_set p \<and> sig_bits r = filter (\<lambda>b. bit_wire b \<noteq> None \<and> b \<in> pool_set p) (sig_bits s)) \<and>
    (\<exists>r p'. sig_remove_pool s p = Inr (r, p') \<and> sig_inv r \<and> pool_set p' = pool_set p \<and>
      sig_bits r = filter (\<lambda>b. \<not> (bit_wire b \<noteq> None \<and> b \<in> pool_set p)) (sig_bits s)) \<and>
    (\<exists>r. sig_remove s pattern = Inr r \<and> sig_inv r \<and>
      sig_bits r = filter (\<lambda>b. \<not> (bit_wire b \<noteq> None \<and> b \<in> set (sig_bits pattern))) (sig_bits s))"
proof (intro conjI)
  show "\<exists>r s' p'. sig_extract_pool s p None = Inr (r, s', p') \<and> sig_inv r \<and> sig_bits s' = sig_bits s \<and>
      pool_set p' = pool_set p \<and> sig_bits r = filter (\<lambda>b. bit_wire b \<noteq> None \<and> b \<in> pool_set p) (sig_bits s)"
    by (rule sig_extract_pool_ok [OF assms(1-3)]) blast
  show "\<exists>r p'. sig_remove_pool s p = Inr (r, p') \<and> sig_inv r \<and> pool_set p' = pool_set p \<and>
      sig_bits r = filter (\<lambda>b. \<not> (bit_wire b \<noteq> None \<and> b \<in> pool_set p)) (sig_bits s)"
    by (rule sig_remove_pool_ok [OF assms(1-3)]) blast
  show "\<exists>r. sig_remove s pattern = Inr r \<and> sig_inv r \<and>
      sig_bits r = filter (\<lambda>b. \<not> (bit_wire b \<noteq> None \<and> b \<in> set (sig_bits pattern))) (sig_bits s)"
    by (rule sig_remove_ok [OF assms(1,4)]) blast
qed

theorem sig_select_correct_witness:
  "let w = \<lparr>wire_ptr = 0, wire_name = 3, wire_width = 2\<rparr>;
       s = \<lparr>swidth = 3, shash = 0, schunks = [], sbits = [Bit_wire w 0, Bit_wire w 1, Bit_state S1]\<rparr>;
       t = \<lparr>swidth = 1, shash = 0, schunks = [], sbits = [Bit_wire w 1]\<rparr>
   in \<exists>r. sig_remove s t = Inr r \<and> sig_bits r = [Bit_wire w 0, Bit_state S1]"
proof -
  let ?w = "\<lparr>wire_ptr = 0, wire_name = 3, wire_width = 2\<rparr>"
  let ?s = "\<lparr>swidth = 3, shash = 0, schunks = [], sbits = [Bit_wire ?w 0, Bit_wire ?w 1, Bit_state S1]\<rparr>"
  let ?t = "\<lparr>swidth = 1, shash = 0, schunks = [], sbits = [Bit_wire ?w 1]\<rparr>"
  have i: "sig_inv ?s" "sig_inv ?t" "sig_bits ?s = [Bit_wire ?w 0, Bit_wire ?w 1, Bit_state S1]" "sig_bits ?t = [Bit_wire ?w 1]"
    by (simp_all add: sig_inv_def packed_def sig_bits_def)
  have p: "pool_inv bit_hash pool_empty" "fits 0 (pool_empty :: sigbit pool)"
    by (simp_all add: pool_empty_ok)
  show ?thesis
    using sig_select_correct [OF i(1) p i(2)] i by (auto simp: Let_def)
qed

section \<open>Predicates and constants\<close>

lemma list_all_chunks:
  assumes "list_all bit_ok bs" "\<And>c. chunk_ok c \<Longrightarrow> Q c \<longleftrightarrow> list_all R (chunk_bits c)"
  shows "list_all Q (canon bs) \<longleftrightarrow> list_all R bs"
proof -
  have "list_all Q cs \<longleftrightarrow> list_all R (concat (map chunk_bits cs))" if "list_all chunk_ok cs" for cs
    using that by (induction cs) (simp_all add: assms(2))
  from this [OF canon_ok(1) [OF assms(1)]] show ?thesis
    by (simp add: canon_ok(4) [OF assms(1)])
qed

lemma list_ex_chunks:
  assumes "list_all bit_ok bs" "\<And>c. chunk_ok c \<Longrightarrow> Q c \<longleftrightarrow> list_ex R (chunk_bits c)"
  shows "list_ex Q (canon bs) \<longleftrightarrow> list_ex R bs"
  using list_all_chunks [of bs "\<lambda>c. \<not> Q c" "\<lambda>b. \<not> R b"] assms
  by (auto simp: list_all_iff list_ex_iff)

lemma chunk_all:
  assumes "chunk_ok c"
  shows "\<not> (cwidth c > 0 \<and> cwire c \<noteq> None) \<and> list_all R (cdata c)
    \<longleftrightarrow> list_all (\<lambda>b. case b of Bit_state v \<Rightarrow> R v | Bit_wire _ _ \<Rightarrow> False) (chunk_bits c)"
proof (cases "cwire c")
  case None
  then show ?thesis
    using assms by (simp add: chunk_bits_const chunk_ok_def list_all_iff)
next
  case (Some w)
  then have "nat (cwidth c) > 0" "0 < cwidth c"
    using assms by (auto simp: chunk_ok_def)
  then show ?thesis
    using Some by (auto simp: chunk_bits_wire list_all_iff intro: exI [of _ 0])
qed

lemma chunk_ex:
  assumes "chunk_ok c"
  shows "cwidth c > 0 \<and> cwire c = None \<and> list_ex R (cdata c)
    \<longleftrightarrow> list_ex (\<lambda>b. case b of Bit_state v \<Rightarrow> R v | Bit_wire _ _ \<Rightarrow> False) (chunk_bits c)"
proof (cases "cwire c")
  case None
  then show ?thesis
    using assms by (auto simp: chunk_bits_const chunk_ok_def list_ex_iff)
next
  case (Some w)
  then show ?thesis
    by (auto simp: chunk_bits_wire list_ex_iff)
qed

lemma case_bit_iff: "(case b of Bit_state v \<Rightarrow> R v | Bit_wire _ _ \<Rightarrow> False) \<longleftrightarrow> (\<exists>v. b = Bit_state v \<and> R v)"
  by (cases b) auto

lemma chunks_all:
  assumes "list_all bit_ok bs"
  shows "list_all (\<lambda>c. \<not> (cwidth c > 0 \<and> cwire c \<noteq> None) \<and> list_all R (cdata c)) (canon bs)
    \<longleftrightarrow> list_all (\<lambda>b. \<exists>v. b = Bit_state v \<and> R v) bs"
  unfolding case_bit_iff [symmetric] by (rule list_all_chunks [OF assms]) (rule chunk_all)

lemma chunks_ex:
  assumes "list_all bit_ok bs"
  shows "list_ex (\<lambda>c. cwidth c > 0 \<and> cwire c = None \<and> list_ex R (cdata c)) (canon bs)
    \<longleftrightarrow> list_ex (\<lambda>b. \<exists>v. b = Bit_state v \<and> R v) bs"
  unfolding case_bit_iff [symmetric] by (rule list_ex_chunks [OF assms]) (rule chunk_ex)

lemma bit_const_iff: "bit_wire b = None \<longleftrightarrow> (\<exists>v. b = Bit_state v)"
  by (cases b) auto

lemma sig_is_fully_const_ok:
  assumes "sig_inv s"
  obtains r where "sig_is_fully_const s = Inr (\<forall>b \<in> set (sig_bits s). bit_wire b = None, r)" "sig_pack s = Inr r"
    "sig_inv r" "sig_bits r = sig_bits s" "schunks r = canon (sig_bits s)" "sbits r = []" "swidth r = swidth s"
proof -
  obtain r where r: "sig_pack s = Inr r" "sig_inv r" "sig_bits r = sig_bits s" "schunks r = canon (sig_bits s)" "sbits r = []"
    "swidth r = swidth s"
    by (rule sig_pack_ok [OF assms]) blast
  have "\<not> list_ex (\<lambda>c. cwidth c > 0 \<and> cwire c \<noteq> None) (canon (sig_bits s)) \<longleftrightarrow>
      list_all (\<lambda>c. \<not> (cwidth c > 0 \<and> cwire c \<noteq> None) \<and> list_all (\<lambda>_. True) (cdata c)) (canon (sig_bits s))"
    by (auto simp: list_ex_iff list_all_iff)
  also have "\<dots> \<longleftrightarrow> (\<forall>b \<in> set (sig_bits s). bit_wire b = None)"
    unfolding chunks_all [OF sig_inv_bit_ok [OF assms]] by (auto simp: list_all_iff bit_const_iff)
  finally show ?thesis
    using r by (intro that [of r]) (simp_all add: sig_is_fully_const_def)
qed

text \<open>The predicates of a signal are those of its bits: all bits constant, all zero, all one, all defined,
  all undefined, some constant bit, some marked bit.\<close>

theorem sig_predicates_correct:
  assumes "sig_inv s"
  shows "\<exists>r. sig_inv r \<and> sig_bits r = sig_bits s \<and>
    sig_is_fully_const s = Inr (\<forall>b \<in> set (sig_bits s). bit_wire b = None, r) \<and>
    sig_is_fully_zero s = Inr (\<forall>b \<in> set (sig_bits s). b = Bit_state S0, r) \<and>
    sig_is_fully_ones s = Inr (\<forall>b \<in> set (sig_bits s). b = Bit_state S1, r) \<and>
    sig_is_fully_def s = Inr (\<forall>b \<in> set (sig_bits s). \<exists>v. b = Bit_state v \<and> defined v, r) \<and>
    sig_is_fully_undef s = Inr (\<forall>b \<in> set (sig_bits s). b = Bit_state Sx \<or> b = Bit_state Sz, r) \<and>
    sig_has_const s = Inr (\<exists>b \<in> set (sig_bits s). bit_wire b = None, r) \<and>
    sig_has_marked_bits s = Inr (Bit_state Sm \<in> set (sig_bits s), r)"
proof -
  obtain r where r: "sig_is_fully_const s = Inr (\<forall>b \<in> set (sig_bits s). bit_wire b = None, r)" "sig_pack s = Inr r"
    "sig_inv r" "sig_bits r = sig_bits s" "schunks r = canon (sig_bits s)"
    by (rule sig_is_fully_const_ok [OF assms]) blast
  note all = chunks_all [OF sig_inv_bit_ok [OF assms]]
  note ex = chunks_ex [OF sig_inv_bit_ok [OF assms]]
  have "sig_is_fully_zero s = Inr (\<forall>b \<in> set (sig_bits s). b = Bit_state S0, r)"
    "sig_is_fully_ones s = Inr (\<forall>b \<in> set (sig_bits s). b = Bit_state S1, r)"
    "sig_is_fully_def s = Inr (\<forall>b \<in> set (sig_bits s). \<exists>v. b = Bit_state v \<and> defined v, r)"
    "sig_is_fully_undef s = Inr (\<forall>b \<in> set (sig_bits s). b = Bit_state Sx \<or> b = Bit_state Sz, r)"
    unfolding sig_is_fully_zero_def sig_is_fully_ones_def sig_is_fully_def_def sig_is_fully_undef_def r(2) bindE_Inr r(5) all
    by (auto simp: list_all_iff defined_def)
  moreover have "sig_has_marked_bits s = Inr (Bit_state Sm \<in> set (sig_bits s), r)"
    unfolding sig_has_marked_bits_def r(2) bindE_Inr r(5) ex by (auto simp: list_ex_iff)
  moreover have "sig_has_const s = Inr (\<exists>b \<in> set (sig_bits s). bit_wire b = None, r)"
  proof -
    have "list_ex (\<lambda>c. cwidth c > 0 \<and> cwire c = None) (canon (sig_bits s)) \<longleftrightarrow>
        list_ex (\<lambda>c. cwidth c > 0 \<and> cwire c = None \<and> list_ex (\<lambda>_. True) (cdata c)) (canon (sig_bits s))"
    proof -
      have "cdata c \<noteq> []" if "c \<in> set (canon (sig_bits s))" "cwire c = None" for c
        using canon_ok(1) [OF sig_inv_bit_ok [OF assms]] that by (auto simp: list_all_iff chunk_ok_def)
      then show ?thesis
        by (simp add: list_ex_iff ex_in_conv) blast
    qed
    also have "\<dots> \<longleftrightarrow> (\<exists>b \<in> set (sig_bits s). bit_wire b = None)"
      unfolding ex by (auto simp: list_ex_iff bit_const_iff)
    finally show ?thesis
      by (simp add: sig_has_const_def r)
  qed
  ultimately show ?thesis
    using r by (intro exI [of _ r]) blast
qed

theorem sig_predicates_correct_witness:
  "\<exists>r. sig_is_fully_def \<lparr>swidth = 2, shash = 0, schunks = [], sbits = [Bit_state S0, Bit_state S1]\<rparr> = Inr (True, r)"
proof -
  let ?s = "\<lparr>swidth = 2, shash = 0, schunks = [], sbits = [Bit_state S0, Bit_state S1]\<rparr>"
  have "sig_inv ?s" "sig_bits ?s = [Bit_state S0, Bit_state S1]"
    by (simp_all add: sig_inv_def packed_def sig_bits_def)
  then show ?thesis
    using sig_predicates_correct [of ?s] by auto
qed

lemma canon_consts:
  "xs \<noteq> [] \<Longrightarrow> canon (map Bit_state xs) = [\<lparr>cwire = None, cdata = xs, cwidth = int (length xs), coffset = 0\<rparr>]"
proof (induction xs rule: rev_induct)
  case (snoc x xs)
  then show ?case
    by (cases "xs = []") (simp_all add: canon_snoc append_bit_chunks_def canon_def)
qed simp

lemma all_const_obtain:
  assumes "\<forall>b \<in> set bs. bit_wire b = None" obtains xs where "bs = map Bit_state xs"
  using assms
proof (induction bs arbitrary: thesis)
  case (Cons b bs)
  obtain xs where "bs = map Bit_state xs"
    by (rule Cons.IH) (use Cons.prems in auto)
  moreover obtain v where "b = Bit_state v"
    using Cons.prems(2) by (cases b) auto
  ultimately show ?case
    by (intro Cons.prems(1) [of "v # xs"]) simp
qed simp

text \<open>C29: \<open>as_const\<close> gives back the constant bits of a fully constant signal and \<open>as_bool\<close> the value of that constant;
  \<open>as_int\<close> is that of the constant when the signal is not empty and 0, signed or not, when it is.  All three stop at an assertion for
  any other signal.\<close>

theorem sig_as_const_correct:
  assumes "sig_inv s"
  shows "if \<forall>b \<in> set (sig_bits s). bit_wire b = None
    then \<exists>c r. sig_as_const s = Inr (c, r) \<and> map Bit_state (bits c) = sig_bits s \<and> sig_bits r = sig_bits s \<and>
      sig_as_bool s = Inr (as_bool c, r) \<and>
      sig_as_int s sg = (if sig_bits s = [] then Inr (0, r) else bindE (as_int c sg) (\<lambda>i. Inr (i, r)))
    else sig_as_const s = Inl Assert_failed \<and> sig_as_bool s = Inl Assert_failed \<and>
      sig_as_int s sg = Inl Assert_failed"
proof -
  obtain r where r: "sig_is_fully_const s = Inr (\<forall>b \<in> set (sig_bits s). bit_wire b = None, r)" "sig_pack s = Inr r"
    "sig_inv r" "sig_bits r = sig_bits s" "schunks r = canon (sig_bits s)" "sbits r = []" "swidth r = swidth s"
    by (rule sig_is_fully_const_ok [OF assms]) blast
  have fc: "sig_is_fully_const r = Inr (\<forall>b \<in> set (sig_bits s). bit_wire b = None, r)"
    using r(1,2,6) by (simp add: sig_is_fully_const_def sig_pack_def)
  show ?thesis
  proof (cases "\<forall>b \<in> set (sig_bits s). bit_wire b = None")
    case True
    then obtain xs where xs: "sig_bits s = map Bit_state xs"
      by (rule all_const_obtain)
    show ?thesis
    proof (cases "xs = []")
      case True
      then have "swidth s = 0" "const_packed s = Inr r"
        using xs r fc assms by (simp_all add: const_packed_def sig_inv_width)
      then show ?thesis
        using True xs r by (simp add: sig_as_const_def sig_as_bool_def sig_as_int_def Const_empty_def as_bool_def)
    next
      case False
      then have "swidth s \<noteq> 0" "const_packed s = Inr r" "front_data r = Inr xs"
        using xs r fc assms by (simp_all add: const_packed_def sig_inv_width canon_consts front_data_def)
      then show ?thesis
        using False xs r by (simp add: sig_as_const_def sig_as_bool_def sig_as_int_def Const_bits_def)
    qed
  next
    case False
    then have "const_packed s = Inl Assert_failed"
      unfolding const_packed_def r(2) bindE_Inr fc by (simp add: False del: not_None_eq)
    then show ?thesis
      unfolding if_not_P [OF False] by (simp add: sig_as_const_def sig_as_bool_def sig_as_int_def)
  qed
qed

theorem sig_as_const_correct_witness:
  "\<exists>c r. sig_as_const \<lparr>swidth = 2, shash = 0, schunks = [], sbits = [Bit_state S0, Bit_state S1]\<rparr> = Inr (c, r) \<and>
     bits c = [S0, S1]"
proof -
  let ?s = "\<lparr>swidth = 2, shash = 0, schunks = [], sbits = [Bit_state S0, Bit_state S1]\<rparr>"
  have "sig_inv ?s" "sig_bits ?s = [Bit_state S0, Bit_state S1]"
    by (simp_all add: sig_inv_def packed_def sig_bits_def)
  then show ?thesis
    using sig_as_const_correct [of ?s False] by (auto simp: map_eq_Cons_conv)
qed

section \<open>Sorting\<close>

lemma bit_less_trans: "bit_less a b \<Longrightarrow> bit_less b c \<Longrightarrow> bit_less a c"
  by (cases a; cases b; cases c) (auto split: if_splits)

lemma bit_less_irrefl [simp]: "\<not> bit_less a a"
  by (cases a) auto

lemma bit_less_total:
  "names_distinct bs \<Longrightarrow> a \<in> set bs \<Longrightarrow> b \<in> set bs \<Longrightarrow> a = b \<or> bit_less a b \<or> bit_less b a"
  unfolding names_distinct_def by (cases a; cases b) (auto, metis linorder_neqE)

lemma set_insert_by [simp]: "set (insert_by lt x xs) = insert x (set xs)"
  by (induction xs) auto

lemma mset_insert_by [simp]: "mset (insert_by lt x xs) = add_mset x (mset xs)"
  by (induction xs) auto

lemma mset_sort_by [simp]: "mset (sort_by lt xs) = mset xs"
  by (induction xs) (auto simp: sort_by_def)

lemma set_sort_by [simp]: "set (sort_by lt xs) = set xs"
  by (metis mset_sort_by set_mset_mset)

lemma insert_by_sorted:
  assumes "sorted_wrt (\<lambda>a b. a = b \<or> lt a b) xs" "\<And>a b c. lt a b \<Longrightarrow> lt b c \<Longrightarrow> lt a c"
    "\<And>y. y \<in> set xs \<Longrightarrow> x = y \<or> lt x y \<or> lt y x"
  shows "sorted_wrt (\<lambda>a b. a = b \<or> lt a b) (insert_by lt x xs)"
  using assms(1,3)
proof (induction xs)
  case (Cons y ys)
  show ?case
  proof (cases "lt y x")
    case True
    have "sorted_wrt (\<lambda>a b. a = b \<or> lt a b) (insert_by lt x ys)"
      by (rule Cons.IH) (use Cons.prems in auto)
    then show ?thesis
      using True Cons.prems(1) by auto
  next
    case False
    then have "x = y \<or> lt x y"
      using Cons.prems(2) by auto
    then show ?thesis
      using False Cons.prems(1) assms(2) by auto
  qed
qed simp

lemma sort_by_sorted:
  assumes "\<And>a b c. lt a b \<Longrightarrow> lt b c \<Longrightarrow> lt a c"
    "\<And>a b. a \<in> set xs \<Longrightarrow> b \<in> set xs \<Longrightarrow> a = b \<or> lt a b \<or> lt b a"
  shows "sorted_wrt (\<lambda>a b. a = b \<or> lt a b) (sort_by lt xs)"
  using assms(2)
proof (induction xs)
  case (Cons x xs)
  have "sorted_wrt (\<lambda>a b. a = b \<or> lt a b) (insert_by lt x (sort_by lt xs))"
    by (rule insert_by_sorted) (use Cons assms(1) in auto)
  then show ?case
    by (simp add: sort_by_def)
qed (simp add: sort_by_def)

lemma remdups_adj_sorted:
  assumes "sorted_wrt (\<lambda>a b. a = b \<or> lt a b) xs" "\<And>a b c. lt a b \<Longrightarrow> lt b c \<Longrightarrow> lt a c"
  shows "sorted_wrt lt (remdups_adj xs)"
  using assms(1)
proof (induction xs rule: remdups_adj.induct)
  case (3 x y xs)
  show ?case
  proof (cases "x = y")
    case False
    have "lt x z" if "z \<in> set (y # xs)" for z
      using that 3(3) False assms(2) by auto
    then show ?thesis
      using 3 False by auto
  qed (use 3 in auto)
qed auto

text \<open>C24: \<open>sort_and_unify\<close> gives the set of the bits as a strictly ascending list.  Its order is total because
  the wires of a module have different names.\<close>

theorem sig_sort_and_unify_correct:
  assumes "sig_inv s" "names_distinct (sig_bits s)"
  shows "\<exists>r. sig_sort_and_unify s = Inr r \<and> sig_inv r \<and> hash_ok r \<and>
    set (sig_bits r) = set (sig_bits s) \<and> sorted_wrt bit_less (sig_bits r) \<and> distinct (sig_bits r)"
proof -
  obtain u where u: "sig_unpack s = Inr u" "sbits u = sig_bits s"
    by (rule sig_unpack_ok [OF assms(1)]) blast
  let ?bs = "remdups_adj (sort_by bit_less (sig_bits s))"
  have sorted: "sorted_wrt bit_less ?bs"
    by (rule remdups_adj_sorted [OF sort_by_sorted])
      (use bit_less_trans bit_less_total [OF assms(2)] in blast)+
  have "list_all bit_ok ?bs"
    using sig_inv_bit_ok [OF assms(1)] by (simp add: list_all_iff)
  then obtain r where "SigSpec_bits ?bs = Inr r" "sig_inv r" "sig_bits r = ?bs" "shash r = 0"
    by (rule SigSpec_bits_ok)
  moreover have "distinct ?bs"
    using sorted by (auto simp: distinct_conv_nth sorted_wrt_iff_nth_less) (metis bit_less_irrefl linorder_neqE_nat)
  ultimately show ?thesis
    using u sorted by (intro exI [of _ r]) (simp add: sig_sort_and_unify_def hash_ok_def)
qed

theorem sig_sort_and_unify_correct_witness:
  "\<exists>r. sig_sort_and_unify \<lparr>swidth = 3, shash = 0, schunks = [], sbits = [Bit_state S1, Bit_state S0, Bit_state S1]\<rparr> = Inr r \<and>
     set (sig_bits r) = {Bit_state S0, Bit_state S1} \<and> distinct (sig_bits r)"
proof -
  let ?s = "\<lparr>swidth = 3, shash = 0, schunks = [], sbits = [Bit_state S1, Bit_state S0, Bit_state S1]\<rparr>"
  have "sig_inv ?s" "sig_bits ?s = [Bit_state S1, Bit_state S0, Bit_state S1]" "names_distinct (sig_bits ?s)"
    by (simp_all add: sig_inv_def packed_def sig_bits_def names_distinct_def)
  then show ?thesis
    using sig_sort_and_unify_correct [of ?s] by auto
qed

end
