(* ===== verification/Mfp.thy ===== *)
theory Mfp
  imports Pool
begin

text \<open>
  The class \<open>mfp\<close> of \<open>kernel/hashlib.h\<close>: merge, find and promote on the keys numbered by an
  \<open>idict\<close>, over a vector of parent links in which -1 marks a representative.  The members are
  \<open>mutable\<close>, so \<open>find\<close> returns the structure as well.  The two loops over parent links need not
  end on an arbitrary vector: they are partial functions whose value \<open>None\<close> is divergence.
\<close>

record 'k mfp =
  database :: "'k idict"
  parents :: "int list"

section \<open>Operations\<close>

definition mfp_empty :: "'k mfp" where
  "mfp_empty = \<lparr>database = pool_empty, parents = []\<rparr>"

definition mfp_call :: "('k \<Rightarrow> 32 word) \<Rightarrow> 'k mfp \<Rightarrow> 'k \<Rightarrow> (int \<times> 'k mfp) res" where
  "mfp_call hash m k =
     bindE (idict_call hash 0 (database m) k) (\<lambda>(i, db).
     let n = idict_size db
     in Inr (i, m\<lparr>database := db, parents := take n (parents m) @ replicate (n - length (parents m)) (-1)\<rparr>))"

definition mfp_index :: "'k mfp \<Rightarrow> int \<Rightarrow> 'k res" where
  "mfp_index m index = idict_index 0 (database m) index"

definition valid_index :: "int list \<Rightarrow> int \<Rightarrow> bool" where
  "valid_index ps i \<longleftrightarrow> 0 \<le> i \<and> i < int (length ps)"

partial_function (option) root_loop :: "int list \<Rightarrow> int \<Rightarrow> int res option" where
  "root_loop ps p =
     (if \<not> valid_index ps p then Some (Inl Undefined_behaviour)
      else if ps ! nat p \<noteq> -1 then root_loop ps (ps ! nat p)
      else Some (Inr p))"

partial_function (option) redirect_loop :: "int list \<Rightarrow> int \<Rightarrow> int \<Rightarrow> int \<Rightarrow> int list res option" where
  "redirect_loop ps k stop to =
     (if k = stop then Some (Inr ps)
      else if \<not> valid_index ps k then Some (Inl Undefined_behaviour)
      else redirect_loop (ps[nat k := to]) (ps ! nat k) stop to)"

definition or_diverge :: "'a res option \<Rightarrow> 'a res" where
  "or_diverge r = (case r of None \<Rightarrow> Inl Diverges | Some x \<Rightarrow> x)"

definition ifind :: "'k mfp \<Rightarrow> int \<Rightarrow> (int \<times> 'k mfp) res" where
  "ifind m i =
     bindE (or_diverge (root_loop (parents m) i)) (\<lambda>p.
     bindE (or_diverge (redirect_loop (parents m) i p p)) (\<lambda>ps.
     Inr (p, m\<lparr>parents := ps\<rparr>)))"

definition imerge :: "'k mfp \<Rightarrow> int \<Rightarrow> int \<Rightarrow> 'k mfp res" where
  "imerge m i j =
     bindE (ifind m i) (\<lambda>(i, m).
     bindE (ifind m j) (\<lambda>(j, m).
     Inr (if i \<noteq> j then m\<lparr>parents := (parents m)[nat i := j]\<rparr> else m)))"

definition ipromote :: "'k mfp \<Rightarrow> int \<Rightarrow> 'k mfp res" where
  "ipromote m i =
     bindE (or_diverge (redirect_loop (parents m) i (-1) i)) (\<lambda>ps.
     guardE (valid_index ps i) Undefined_behaviour (Inr (m\<lparr>parents := ps[nat i := -1]\<rparr>)))"

definition mfp_lookup :: "('k \<Rightarrow> 32 word) \<Rightarrow> 'k mfp \<Rightarrow> 'k \<Rightarrow> (int \<times> 'k mfp) res" where
  "mfp_lookup hash m a = bindE (mfp_call hash m a) (\<lambda>(i, m). ifind m i)"

definition mfp_find :: "('k \<Rightarrow> 32 word) \<Rightarrow> 'k mfp \<Rightarrow> 'k \<Rightarrow> ('k \<times> 'k mfp) res" where
  "mfp_find hash m a =
     bindE (idict_at_default hash 0 (database m) a (-1)) (\<lambda>(i, db).
     let m = m\<lparr>database := db\<rparr>
     in if i < 0 then Inr (a, m)
        else bindE (ifind m i) (\<lambda>(p, m). bindE (mfp_index m p) (\<lambda>x. Inr (x, m))))"

text \<open>The order in which the two arguments of \<open>imerge\<close> are numbered is unspecified; the model numbers
  the first one first.\<close>

definition mfp_merge :: "('k \<Rightarrow> 32 word) \<Rightarrow> 'k mfp \<Rightarrow> 'k \<Rightarrow> 'k \<Rightarrow> 'k mfp res" where
  "mfp_merge hash m a b =
     bindE (mfp_call hash m a) (\<lambda>(i, m). bindE (mfp_call hash m b) (\<lambda>(j, m). imerge m i j))"

definition mfp_promote :: "('k \<Rightarrow> 32 word) \<Rightarrow> 'k mfp \<Rightarrow> 'k \<Rightarrow> 'k mfp res" where
  "mfp_promote hash m a =
     bindE (idict_at_default hash 0 (database m) a (-1)) (\<lambda>(i, db).
     let m = m\<lparr>database := db\<rparr>
     in if i \<ge> 0 then ipromote m i else Inr m)"

definition mfp_swap :: "'k mfp \<Rightarrow> 'k mfp \<Rightarrow> 'k mfp \<times> 'k mfp" where
  "mfp_swap this other = (other, this)"

definition mfp_reserve :: "'k mfp \<Rightarrow> nat \<Rightarrow> 'k mfp" where
  "mfp_reserve m n = m\<lparr>database := idict_reserve (database m) n\<rparr>"

definition mfp_size :: "'k mfp \<Rightarrow> nat" where
  "mfp_size m = idict_size (database m)"

definition mfp_is_empty :: "'k mfp \<Rightarrow> bool" where
  "mfp_is_empty m = idict_is_empty (database m)"

definition mfp_clear :: "'k mfp \<Rightarrow> 'k mfp" where
  "mfp_clear m = m\<lparr>database := idict_clear (database m), parents := []\<rparr>"

definition mfp_items :: "'k mfp \<Rightarrow> 'k list" where
  "mfp_items m = idict_items (database m)"

section \<open>Representatives\<close>

text \<open>\<open>root ps i r\<close>: following the parent links from \<open>i\<close> ends at \<open>r\<close>.\<close>

inductive root :: "int list \<Rightarrow> nat \<Rightarrow> nat \<Rightarrow> bool" for ps where
  root_self: "i < length ps \<Longrightarrow> ps ! i = -1 \<Longrightarrow> root ps i i"
| root_step: "i < length ps \<Longrightarrow> ps ! i = int j \<Longrightarrow> root ps j r \<Longrightarrow> root ps i r"

inductive_cases root_E: "root ps i r"

text \<open>The links of a forest: they stay in range and decrease a rank.\<close>

definition forest :: "int list \<Rightarrow> bool" where
  "forest ps \<longleftrightarrow> (\<exists>rank :: nat \<Rightarrow> nat. \<forall>i<length ps. ps ! i \<noteq> -1 \<longrightarrow>
     valid_index ps (ps ! i) \<and> rank (nat (ps ! i)) < rank i)"

lemma root_bounds: "root ps i r \<Longrightarrow> i < length ps \<and> r < length ps \<and> ps ! r = -1"
  by (induction rule: root.induct) auto

lemma root_unique: "root ps i r \<Longrightarrow> root ps i r' \<Longrightarrow> r' = r"
proof (induction arbitrary: r' rule: root.induct)
  case (root_self i)
  from root_self.prems root_self.hyps show ?case by (cases rule: root.cases) auto
next
  case (root_step i j r)
  from root_step.prems root_step.hyps(2) have "root ps j r'"
    by (cases rule: root.cases) auto
  then show ?case by (rule root_step.IH)
qed

lemma root_root: "root ps i r \<Longrightarrow> root ps r r"
  using root_bounds root_self by metis

lemma forest_root:
  assumes "forest ps" "i < length ps" obtains r where "root ps i r"
proof -
  obtain rank :: "nat \<Rightarrow> nat" where rank: "\<And>i. i < length ps \<Longrightarrow> ps ! i \<noteq> -1 \<Longrightarrow>
      valid_index ps (ps ! i) \<and> rank (nat (ps ! i)) < rank i"
    using assms(1) by (auto simp: forest_def)
  have "\<exists>r. root ps i r" using assms(2)
  proof (induction "rank i" arbitrary: i rule: less_induct)
    case less
    show ?case
    proof (cases "ps ! i = -1")
      case True
      then show ?thesis using less.prems root_self by blast
    next
      case False
      note r = rank [OF less.prems False]
      then have j: "nat (ps ! i) < length ps" "ps ! i = int (nat (ps ! i))" by (auto simp: valid_index_def)
      then obtain r where "root ps (nat (ps ! i)) r" using less.hyps r by blast
      then show ?thesis using root_step [OF less.prems j(2)] by blast
    qed
  qed
  then show thesis using that by blast
qed

lemma root_loop_ok: "root ps i r \<Longrightarrow> root_loop ps (int i) = Some (Inr (int r))"
proof (induction rule: root.induct)
  case (root_self i)
  then show ?case by (subst root_loop.simps) (simp add: valid_index_def)
next
  case (root_step i j r)
  then show ?case by (subst root_loop.simps) (simp add: valid_index_def)
qed

definition ranked :: "(nat \<Rightarrow> nat) \<Rightarrow> int list \<Rightarrow> bool" where
  "ranked rank ps \<longleftrightarrow> (\<forall>i<length ps. ps ! i \<noteq> -1 \<longrightarrow>
     valid_index ps (ps ! i) \<and> rank (nat (ps ! i)) < rank i)"

lemma forest_ranked: "forest ps \<longleftrightarrow> (\<exists>rank. ranked rank ps)"
  by (simp add: forest_def ranked_def)

text \<open>The vector in which the links of the entries \<open>C\<close> are set to \<open>v\<close>.\<close>

definition relinked :: "int list \<Rightarrow> nat set \<Rightarrow> int \<Rightarrow> int list" where
  "relinked ps C v = map (\<lambda>x. if x \<in> C then v else ps ! x) [0..<length ps]"

lemma length_relinked [simp]: "length (relinked ps C v) = length ps"
  by (simp add: relinked_def)

lemma nth_relinked [simp]: "x < length ps \<Longrightarrow> relinked ps C v ! x = (if x \<in> C then v else ps ! x)"
  by (simp add: relinked_def)

text \<open>The links from \<open>s\<close> visit \<open>c\<close> and end at \<open>e\<close>.\<close>

fun pseg :: "int list \<Rightarrow> int \<Rightarrow> nat list \<Rightarrow> int \<Rightarrow> bool" where
  "pseg ps s [] e \<longleftrightarrow> s = e"
| "pseg ps s (j # js) e \<longleftrightarrow> s = int j \<and> j < length ps \<and> pseg ps (ps ! j) js e"

lemma pseg_frame: "j \<notin> set c \<Longrightarrow> pseg (ps[j := v]) s c e \<longleftrightarrow> pseg ps s c e"
  by (induction c arbitrary: s) auto

lemma pseg_append: "pseg ps s (xs @ ys) e \<longleftrightarrow> (\<exists>m. pseg ps s xs m \<and> pseg ps m ys e)"
  by (induction xs arbitrary: s) auto

lemma redirect_loop_pseg:
  assumes "pseg ps s c e" "distinct c" "e \<notin> int ` set c"
  shows "redirect_loop ps s e to = Some (Inr (relinked ps (set c) to))"
  using assms
proof (induction c arbitrary: ps s)
  case Nil
  have "relinked ps {} to = ps" by (rule nth_equalityI) simp_all
  then show ?case using Nil by (subst redirect_loop.simps) simp
next
  case (Cons j c)
  have j: "s = int j" "j < length ps" "pseg ps (ps ! j) c e" using Cons.prems by simp_all
  have "redirect_loop (ps[j := to]) (ps ! j) e to = Some (Inr (relinked (ps[j := to]) (set c) to))"
    using Cons.prems j(3) by (intro Cons.IH) (simp_all add: pseg_frame)
  moreover have "relinked (ps[j := to]) (set c) to = relinked ps (set (j # c)) to"
    by (rule nth_equalityI) (auto simp: nth_list_update)
  moreover have "e \<noteq> int j" using Cons.prems(3) by auto
  ultimately show ?case
    using j by (subst redirect_loop.simps) (simp add: valid_index_def)
qed

text \<open>The entries on the way from \<open>i\<close> to its root.\<close>

lemma root_chain:
  assumes "root ps i r" "ranked rank ps"
  obtains c where "pseg ps (int i) c (int r)" "distinct c" "i \<in> set (c @ [r])"
    "\<And>x. x \<in> set c \<Longrightarrow> root ps x r \<and> rank x \<le> rank i \<and> rank r < rank x \<and> ps ! x \<noteq> -1"
proof -
  have "\<exists>c. pseg ps (int i) c (int r) \<and> distinct c \<and> i \<in> set (c @ [r]) \<and> rank r \<le> rank i \<and>
    (\<forall>x\<in>set c. root ps x r \<and> rank x \<le> rank i \<and> rank r < rank x \<and> ps ! x \<noteq> -1)"
    using assms(1)
  proof (induction rule: root.induct)
    case (root_self i)
    then show ?case by (intro exI [of _ "[]"]) simp
  next
    case (root_step i j r)
    then obtain c where c: "pseg ps (int j) c (int r)" "distinct c" "j \<in> set (c @ [r])" "rank r \<le> rank j"
      "\<And>x. x \<in> set c \<Longrightarrow> root ps x r \<and> rank x \<le> rank j \<and> rank r < rank x \<and> ps ! x \<noteq> -1"
      by blast
    have ri: "rank j < rank i" using assms(2) root_step.hyps(1,2) by (force simp: ranked_def)
    have "i \<notin> set c" using c(5) [of i] ri by auto
    moreover have "root ps i r" using root_step.hyps by (rule root.root_step)
    ultimately show ?case
      using c ri root_step.hyps(1,2) by (intro exI [of _ "i # c"]) fastforce
  qed
  then show thesis using that by blast
qed

lemma ranked_step: "ranked rank ps \<Longrightarrow> i < length ps \<Longrightarrow> ps ! i = int j \<Longrightarrow> j < length ps \<and> rank j < rank i"
  by (force simp: ranked_def valid_index_def)

lemma root_iffI:
  assumes fwd: "\<And>x r. root ps x r \<Longrightarrow> root ps' x (f r)" and "forest ps" "length ps' = length ps"
  shows "root ps' x y \<longleftrightarrow> (\<exists>r. root ps x r \<and> y = f r)"
proof
  assume r: "root ps' x y"
  then have "x < length ps" using root_bounds assms(3) by metis
  then obtain r0 where "root ps x r0" using forest_root [OF assms(2)] by blast
  then show "\<exists>r. root ps x r \<and> y = f r" using fwd root_unique [OF r] by blast
qed (use fwd in blast)

lemma compress_ok:
  assumes rk: "ranked rank ps" and r: "root ps i r"
  obtains ps' where "redirect_loop ps (int i) (int r) (int r) = Some (Inr ps')"
    "length ps' = length ps" "ranked rank ps'" "\<And>x y. root ps' x y \<longleftrightarrow> root ps x y"
proof -
  obtain c where c: "pseg ps (int i) c (int r)" "distinct c" "i \<in> set (c @ [r])"
    "\<And>x. x \<in> set c \<Longrightarrow> root ps x r \<and> rank x \<le> rank i \<and> rank r < rank x \<and> ps ! x \<noteq> -1"
    by (rule root_chain [OF r rk]) blast
  let ?ps = "relinked ps (set c) (int r)"
  have rb: "r < length ps" "ps ! r = -1" using root_bounds [OF r] by simp_all
  have rc: "r \<notin> set c" using c(4) [of r] by auto
  have rr: "root ?ps r r" using rb rc by (intro root_self) simp_all
  have fwd: "root ?ps x y" if "root ps x y" for x y
    using that
  proof (induction rule: root.induct)
    case (root_self x)
    then have "x \<notin> set c" using c(4) by blast
    then show ?case using root_self by (intro root.root_self) simp_all
  next
    case (root_step x j y)
    show ?case
    proof (cases "x \<in> set c")
      case True
      have "root ps x y" using root_step.hyps by (rule root.root_step)
      then have "y = r" using c(4) [OF True] root_unique by blast
      then show ?thesis using True root_step.hyps(1) rr by (intro root.root_step [of x _ r]) simp_all
    next
      case False
      then show ?thesis using root_step by (intro root.root_step [of x _ j]) simp_all
    qed
  qed
  have "ranked rank ?ps"
    unfolding ranked_def
  proof (intro allI impI)
    fix x assume x: "x < length ?ps" "?ps ! x \<noteq> -1"
    show "valid_index ?ps (?ps ! x) \<and> rank (nat (?ps ! x)) < rank x"
      using x c(4) [of x] rb rk by (cases "x \<in> set c") (auto simp: ranked_def valid_index_def)
  qed
  moreover have "root ?ps x y \<longleftrightarrow> root ps x y" for x y
    using root_iffI [of ps ?ps "\<lambda>r. r", OF fwd] rk by (auto simp: forest_ranked)
  moreover have "redirect_loop ps (int i) (int r) (int r) = Some (Inr ?ps)"
    by (rule redirect_loop_pseg [OF c(1,2)]) (use rc in auto)
  ultimately show thesis using that [of ?ps] by simp
qed

lemma promote_ok:
  assumes fo: "forest ps" and r: "root ps i r"
  obtains ps' where "redirect_loop ps (int i) (-1) (int i) = Some (Inr ps')"
    "length ps' = length ps" "forest (ps'[i := -1])"
    "\<And>x y. root (ps'[i := -1]) x y \<longleftrightarrow> (\<exists>z. root ps x z \<and> y = (if z = r then i else z))"
proof -
  obtain rank where rk: "ranked rank ps" using fo by (auto simp: forest_ranked)
  obtain c where c: "pseg ps (int i) c (int r)" "distinct c" "i \<in> set (c @ [r])"
    "\<And>x. x \<in> set c \<Longrightarrow> root ps x r \<and> rank x \<le> rank i \<and> rank r < rank x \<and> ps ! x \<noteq> -1"
    by (rule root_chain [OF r rk]) blast
  let ?c = "set (c @ [r])"
  let ?ps = "relinked ps ?c (int i)"
  let ?qs = "?ps[i := -1]"
  have ib: "i < length ps" "r < length ps" "ps ! r = -1" using root_bounds [OF r] by simp_all
  have nth: "?qs ! x = (if x = i then -1 else if x \<in> ?c then int i else ps ! x)" if "x < length ps" for x
    using that ib by (simp add: nth_list_update)
  have cr: "root ps x r" if "x \<in> ?c" for x using that c(4) root_root [OF r] by auto
  have ri: "root ?qs i i" using ib nth by (intro root_self) simp_all
  have toi: "root ?qs x i" if "x \<in> ?c" for x
  proof (cases "x = i")
    case False
    then show ?thesis using that root_bounds [OF cr [OF that]] nth ri by (intro root.root_step [of x _ i]) simp_all
  qed (use ri in simp)
  have fwd: "root ?qs x (if y = r then i else y)" if "root ps x y" for x y
    using that
  proof (induction rule: root.induct)
    case (root_self x)
    show ?case
    proof (cases "x \<in> ?c")
      case True
      have "x = r" using root_unique [OF cr [OF True] root.root_self [OF root_self]] by simp
      then show ?thesis using toi [OF True] by simp
    next
      case False
      then have "x \<noteq> r" "x \<noteq> i" using c(3) by auto
      then show ?thesis using root_self nth False by (auto intro: root.root_self)
    qed
  next
    case (root_step x j y)
    show ?case
    proof (cases "x \<in> ?c")
      case True
      have "y = r" using root_unique [OF cr [OF True] root.root_step [OF root_step.hyps]] by simp
      then show ?thesis using toi [OF True] by simp
    next
      case False
      then have "?qs ! x = int j" using c(3) root_step.hyps(1,2) nth by auto
      then show ?thesis using root_step by (intro root.root_step [of x _ j]) simp_all
    qed
  qed
  have "ranked (\<lambda>x. if x = i then 0 else Suc (rank x)) ?qs"
    unfolding ranked_def
  proof (intro allI impI)
    fix x assume x: "x < length ?qs" "?qs ! x \<noteq> -1"
    then have xl: "x < length ps" by simp
    have xi: "x \<noteq> i" using x nth [OF xl] by auto
    show "valid_index ?qs (?qs ! x) \<and>
      (if nat (?qs ! x) = i then 0 else Suc (rank (nat (?qs ! x)))) < (if x = i then 0 else Suc (rank x))"
    proof (cases "x \<in> ?c")
      case True
      then show ?thesis using xi ib nth [OF xl] by (auto simp: valid_index_def)
    next
      case False
      then have "?qs ! x = ps ! x" using xi nth [OF xl] by simp
      then show ?thesis using rk x xl xi by (auto simp: ranked_def valid_index_def)
    qed
  qed
  then have "forest ?qs" by (auto simp: forest_ranked)
  moreover have "root ?qs x y \<longleftrightarrow> (\<exists>z. root ps x z \<and> y = (if z = r then i else z))" for x y
    by (rule root_iffI [OF fwd fo]) simp_all
  moreover have "redirect_loop ps (int i) (-1) (int i) = Some (Inr ?ps)"
  proof (rule redirect_loop_pseg)
    show "pseg ps (int i) (c @ [r]) (-1)" using c(1) ib by (auto simp: pseg_append)
    show "distinct (c @ [r])" using c(2,4) by auto
  qed auto
  ultimately show thesis using that [of ?ps] by simp
qed

lemma link_ok:
  assumes fo: "forest ps" and i: "root ps i i" and j: "root ps j j" and ne: "i \<noteq> j"
  shows "forest (ps[i := int j])"
    "root (ps[i := int j]) x y \<longleftrightarrow> (\<exists>z. root ps x z \<and> y = (if z = i then j else z))"
proof -
  obtain rank where rk: "ranked rank ps" using fo by (auto simp: forest_ranked)
  let ?qs = "ps[i := int j]"
  have ib: "i < length ps" "ps ! i = -1" "j < length ps" "ps ! j = -1"
    using root_bounds [OF i] root_bounds [OF j] by simp_all
  have rj: "root ?qs j j" using ib ne by (intro root_self) simp_all
  have fwd: "root ?qs x (if y = i then j else y)" if "root ps x y" for x y
    using that
  proof (induction rule: root.induct)
    case (root_self x)
    show ?case
    proof (cases "x = i")
      case True
      have "root ?qs i j" using ib rj by (intro root_step [of i _ j]) simp_all
      then show ?thesis using True by simp
    qed (use root_self in \<open>simp add: root.root_self\<close>)
  next
    case (root_step x k y)
    then have "x \<noteq> i" using ib(2) by auto
    then show ?case using root_step by (intro root.root_step [of x _ k]) simp_all
  qed
  let ?rank = "\<lambda>x. if root ps x i then rank x + rank j + 1 else rank x"
  have "ranked ?rank ?qs"
    unfolding ranked_def
  proof (intro allI impI)
    fix x assume x: "x < length ?qs" "?qs ! x \<noteq> -1"
    show "valid_index ?qs (?qs ! x) \<and> ?rank (nat (?qs ! x)) < ?rank x"
    proof (cases "x = i")
      case True
      have "\<not> root ps j i" using root_unique [OF j] ne by metis
      then show ?thesis using True ib i by (simp add: valid_index_def)
    next
      case False
      then obtain k where k: "ps ! x = int k" "k < length ps" "rank k < rank x"
        using rk x by (auto simp: ranked_def valid_index_def dest!: spec [of _ x])
           (metis int_nat_eq nat_less_iff)
      have "root ps k i \<longleftrightarrow> root ps x i"
        using root_step [of x ps k i] k x False by (auto elim: root_E)
      then show ?thesis using k False by (simp add: valid_index_def)
    qed
  qed
  then show "forest ?qs" by (auto simp: forest_ranked)
  show "root ?qs x y \<longleftrightarrow> (\<exists>z. root ps x z \<and> y = (if z = i then j else z))"
    by (rule root_iffI [OF fwd fo]) simp_all
qed

section \<open>The partition of the keys\<close>

definition mfp_keys :: "'k mfp \<Rightarrow> 'k list" where
  "mfp_keys m = elems (database m)"

definition mfp_inv :: "('k \<Rightarrow> 32 word) \<Rightarrow> 'k mfp \<Rightarrow> bool" where
  "mfp_inv hash m \<longleftrightarrow> pool_inv hash (database m) \<and> length (parents m) = length (mfp_keys m) \<and> forest (parents m)"

definition mfp_fits :: "nat \<Rightarrow> 'k mfp \<Rightarrow> bool" where
  "mfp_fits n m \<longleftrightarrow> fits n (database m)"

text \<open>The representative of a key; a key that was never added represents itself.\<close>

definition mfp_rep :: "'k mfp \<Rightarrow> 'k \<Rightarrow> 'k" where
  "mfp_rep m k =
     (if k \<in> set (mfp_keys m)
      then mfp_keys m ! (THE r. \<exists>i. mfp_keys m ! i = k \<and> root (parents m) i r) else k)"

lemma mfp_keys_unique:
  assumes "mfp_inv hash m" "i < length (parents m)" "j < length (parents m)"
    and "mfp_keys m ! i = mfp_keys m ! j"
  shows "i = j"
  using assms pool_distinct [of hash "database m"]
  by (auto simp: mfp_inv_def mfp_keys_def nth_eq_iff_index_eq)

lemma mfp_repI:
  assumes inv: "mfp_inv hash m" and k: "mfp_keys m ! i = k" and r: "root (parents m) i r"
  shows "mfp_rep m k = mfp_keys m ! r"
proof -
  have i: "i < length (parents m)" using root_bounds [OF r] by simp
  then have "k \<in> set (mfp_keys m)" using inv k by (metis mfp_inv_def nth_mem)
  moreover have "(THE r. \<exists>i. mfp_keys m ! i = k \<and> root (parents m) i r) = r"
  proof (rule the_equality)
    show "\<exists>i. mfp_keys m ! i = k \<and> root (parents m) i r" using k r by blast
    show "r' = r" if "\<exists>i. mfp_keys m ! i = k \<and> root (parents m) i r'" for r'
    proof -
      from that obtain j where j: "mfp_keys m ! j = k" "root (parents m) j r'" by blast
      have "j = i" using mfp_keys_unique [OF inv _ i] j k root_bounds [OF j(2)] by simp
      then show ?thesis using root_unique [OF r] j(2) by simp
    qed
  qed
  ultimately show ?thesis by (simp add: mfp_rep_def)
qed

lemma mfp_rep_other: "k \<notin> set (mfp_keys m) \<Longrightarrow> mfp_rep m k = k"
  by (simp add: mfp_rep_def)

lemma mfp_key_root:
  assumes "mfp_inv hash m" "k \<in> set (mfp_keys m)"
  obtains i r where "i < length (parents m)" "mfp_keys m ! i = k" "root (parents m) i r" "mfp_rep m k = mfp_keys m ! r"
proof -
  obtain i where i: "i < length (parents m)" "mfp_keys m ! i = k"
    using assms by (metis in_set_conv_nth mfp_inv_def)
  moreover obtain r where "root (parents m) i r"
    using forest_root [of "parents m" i] assms(1) i(1) by (auto simp: mfp_inv_def)
  ultimately show thesis using that mfp_repI [OF assms(1)] by blast
qed

lemma mfp_rep_mem:
  assumes "mfp_inv hash m" shows "mfp_rep m k \<in> set (mfp_keys m) \<longleftrightarrow> k \<in> set (mfp_keys m)"
proof (cases "k \<in> set (mfp_keys m)")
  case True
  obtain i r where "root (parents m) i r" "mfp_rep m k = mfp_keys m ! r"
    using mfp_key_root [OF assms True] by blast
  then show ?thesis using True root_bounds assms by (metis mfp_inv_def nth_mem)
qed (simp add: mfp_rep_other)

lemma mfp_rep_idem:
  assumes "mfp_inv hash m" shows "mfp_rep m (mfp_rep m k) = mfp_rep m k"
proof (cases "k \<in> set (mfp_keys m)")
  case True
  obtain i r where r: "root (parents m) i r" "mfp_rep m k = mfp_keys m ! r"
    using mfp_key_root [OF assms True] by blast
  then show ?thesis using mfp_repI [OF assms refl root_root [OF r(1)]] by simp
qed (simp add: mfp_rep_other)

text \<open>Equal representatives are equal roots.\<close>

lemma mfp_rep_eq_iff:
  assumes inv: "mfp_inv hash m" and "root (parents m) i r" "root (parents m) j s"
  shows "mfp_keys m ! r = mfp_keys m ! s \<longleftrightarrow> r = s"
  using mfp_keys_unique [OF inv] root_bounds [OF assms(2)] root_bounds [OF assms(3)] by blast

text \<open>A change of the parent vector that maps the roots by \<open>f\<close> maps the representatives.\<close>

lemma mfp_rep_map:
  assumes inv: "mfp_inv hash m" and inv': "mfp_inv hash m'" and k: "mfp_keys m' = mfp_keys m"
    and rt: "\<And>x y. root (parents m') x y \<longleftrightarrow> (\<exists>z. root (parents m) x z \<and> y = f z)"
    and f: "\<And>r i. root (parents m) i r \<Longrightarrow> mfp_keys m ! f r = g (mfp_keys m ! r)"
    and g: "\<And>x. x \<notin> set (mfp_keys m) \<Longrightarrow> g x = x"
  shows "mfp_rep m' x = g (mfp_rep m x)"
proof (cases "x \<in> set (mfp_keys m)")
  case True
  obtain i r where r: "mfp_keys m ! i = x" "root (parents m) i r" "mfp_rep m x = mfp_keys m ! r"
    using mfp_key_root [OF inv True] by blast
  have "root (parents m') i (f r)" using rt r(2) by blast
  then have "mfp_rep m' x = mfp_keys m' ! f r" using r(1) k by (intro mfp_repI [OF inv']) simp_all
  then show ?thesis using r(2,3) k f by simp
next
  case False
  then show ?thesis using k g by (simp add: mfp_rep_other)
qed

lemma root_snoc: "root ps x r \<Longrightarrow> root (ps @ [-1]) x r"
proof (induction rule: root.induct)
  case (root_self i)
  then show ?case by (intro root.root_self) (simp_all add: nth_append)
next
  case (root_step i j r)
  then show ?case by (intro root.root_step [of i _ j]) (simp_all add: nth_append)
qed

lemma forest_snoc: "forest ps \<Longrightarrow> forest (ps @ [-1])"
proof -
  have "ranked rank ps \<Longrightarrow> ranked rank (ps @ [-1])" for rank
    by (auto simp: ranked_def nth_append valid_index_def)
  then show "forest ps \<Longrightarrow> forest (ps @ [-1])" by (auto simp: forest_ranked)
qed

lemma mfp_call_ok:
  assumes inv: "mfp_inv hash m" and fit: "mfp_fits (Suc n) m"
  obtains i m' where "mfp_call hash m k = Inr (int i, m')" "mfp_inv hash m'" "mfp_fits n m'"
    "i < length (parents m')" "mfp_keys m' ! i = k" "mfp_rep m' = mfp_rep m"
    "mfp_keys m' = (if k \<in> set (mfp_keys m) then mfp_keys m else mfp_keys m @ [k])"
proof -
  obtain i db where r: "idict_call hash 0 (database m) k = Inr (int i + 0, db)" "pool_inv hash db" "fits n db"
    "i < length (entries db)" "elems db ! i = k"
    "elems db = (if k \<in> set (elems (database m)) then elems (database m) else elems (database m) @ [k])"
    by (rule idict_call_ok [of hash "database m" n 0 k])
       (use inv fit in \<open>simp_all add: mfp_inv_def mfp_fits_def\<close>)
  have pl: "length (parents m) = length (elems (database m))" using inv by (simp add: mfp_inv_def mfp_keys_def)
  let ?ps = "if k \<in> set (mfp_keys m) then parents m else parents m @ [-1]"
  let ?m = "m\<lparr>database := db, parents := ?ps\<rparr>"
  have len: "length (entries db) = (if k \<in> set (mfp_keys m) then length (parents m) else Suc (length (parents m)))"
    using arg_cong [OF r(6), of length] pl by (auto simp: mfp_keys_def)
  have call: "mfp_call hash m k = Inr (int i, ?m)"
    using r(1) len by (simp add: mfp_call_def idict_size_def pool_size_def)
  have keys: "mfp_keys ?m = (if k \<in> set (mfp_keys m) then mfp_keys m else mfp_keys m @ [k])"
    using r(6) by (simp add: mfp_keys_def)
  have inv': "mfp_inv hash ?m"
    using inv r(2) len forest_snoc by (auto simp: mfp_inv_def mfp_keys_def)
  have "mfp_rep ?m x = mfp_rep m x" for x
  proof (cases "x \<in> set (mfp_keys m)")
    case True
    obtain j s where s: "j < length (parents m)" "mfp_keys m ! j = x" "root (parents m) j s" "mfp_rep m x = mfp_keys m ! s"
      using mfp_key_root [OF inv True] by blast
    have "root ?ps j s" using s(3) root_snoc by auto
    moreover have "mfp_keys ?m ! j = x" "mfp_keys ?m ! s = mfp_keys m ! s"
      using s(1,2) keys root_bounds [OF s(3)] pl by (auto simp: nth_append mfp_keys_def)
    ultimately show ?thesis using mfp_repI [OF inv', of j x s] s(4) by simp
  next
    case False
    show ?thesis
    proof (cases "x = k")
      case True
      have "?ps ! length (parents m) = -1" "length (parents m) < length ?ps" using False True by simp_all
      then have "root ?ps (length (parents m)) (length (parents m))" by (intro root_self)
      moreover have "mfp_keys ?m ! length (parents m) = k"
        using keys False True pl by (auto simp: mfp_keys_def nth_append)
      ultimately have "mfp_rep ?m k = k" using mfp_repI [OF inv', of "length (parents m)" k] by simp
      then show ?thesis using True False by (simp add: mfp_rep_other)
    next
      case ne: False
      then have "x \<notin> set (mfp_keys ?m)" using False keys by auto
      then show ?thesis using False by (simp add: mfp_rep_other)
    qed
  qed
  then have rep: "mfp_rep ?m = mfp_rep m" by (rule ext)
  have il: "i < length (parents ?m)" "mfp_keys ?m ! i = k" "mfp_fits n ?m"
    using r(3,4,5) len by (auto simp: mfp_keys_def mfp_fits_def)
  show thesis by (rule that [OF call inv' il(3,1,2) rep keys])
qed

lemma ifind_ok:
  assumes inv: "mfp_inv hash m" and i: "i < length (parents m)"
  obtains r m' where "ifind m (int i) = Inr (int r, m')" "root (parents m) i r" "mfp_inv hash m'"
    "database m' = database m" "mfp_rep m' = mfp_rep m" "length (parents m') = length (parents m)"
    "\<And>x y. root (parents m') x y \<longleftrightarrow> root (parents m) x y"
proof -
  obtain rank where rk: "ranked rank (parents m)" using inv by (auto simp: mfp_inv_def forest_ranked)
  obtain r where r: "root (parents m) i r" using forest_root [OF _ i] inv by (auto simp: mfp_inv_def)
  obtain ps where ps: "redirect_loop (parents m) (int i) (int r) (int r) = Some (Inr ps)"
    "length ps = length (parents m)" "ranked rank ps" "\<And>x y. root ps x y \<longleftrightarrow> root (parents m) x y"
    by (rule compress_ok [OF rk r]) blast
  let ?m = "m\<lparr>parents := ps\<rparr>"
  have f: "ifind m (int i) = Inr (int r, ?m)"
    using root_loop_ok [OF r] ps(1) by (simp add: ifind_def or_diverge_def)
  have inv': "mfp_inv hash ?m" using inv ps(2,3) by (auto simp: mfp_inv_def mfp_keys_def forest_ranked)
  have "mfp_rep ?m x = mfp_rep m x" for x
    by (rule mfp_rep_map [OF inv inv', where f = "\<lambda>x. x" and g = "\<lambda>x. x"]) (simp_all add: ps(4) mfp_keys_def)
  then have "mfp_rep ?m = mfp_rep m" by (rule ext)
  then show thesis using that [OF f r inv'] ps(2,4) by simp
qed

lemma imerge_ok:
  assumes inv: "mfp_inv hash m" and i: "i < length (parents m)" and j: "j < length (parents m)"
    and a: "a = mfp_keys m ! i" and b: "b = mfp_keys m ! j"
  obtains m' where "imerge m (int i) (int j) = Inr m'" "mfp_inv hash m'" "database m' = database m"
    "length (parents m') = length (parents m)"
    "\<And>x. mfp_rep m' x = (if mfp_rep m x = mfp_rep m a then mfp_rep m b else mfp_rep m x)"
proof -
  obtain ri m1 where m1: "ifind m (int i) = Inr (int ri, m1)" "root (parents m) i ri" "mfp_inv hash m1"
    "database m1 = database m" "mfp_rep m1 = mfp_rep m" "length (parents m1) = length (parents m)"
    "\<And>x y. root (parents m1) x y \<longleftrightarrow> root (parents m) x y"
    by (rule ifind_ok [OF inv i]) blast
  obtain rj m2 where m2: "ifind m1 (int j) = Inr (int rj, m2)" "root (parents m1) j rj" "mfp_inv hash m2"
    "database m2 = database m1" "mfp_rep m2 = mfp_rep m1" "length (parents m2) = length (parents m1)"
    "\<And>x y. root (parents m2) x y \<longleftrightarrow> root (parents m1) x y"
    by (rule ifind_ok [OF m1(3), of j]) (use j m1(6) in simp, blast)
  have keys: "mfp_keys m2 = mfp_keys m" by (simp add: mfp_keys_def m1(4) m2(4))
  have ra: "mfp_rep m a = mfp_keys m ! ri" using mfp_repI [OF inv a [symmetric] m1(2)] .
  have rb: "mfp_rep m b = mfp_keys m ! rj" using mfp_repI [OF inv b [symmetric]] m2(2) m1(7) by simp
  show thesis
  proof (cases "ri = rj")
    case True
    have "imerge m (int i) (int j) = Inr m2" using m1(1) m2(1) True by (simp add: imerge_def)
    then show thesis
      by (rule that [OF _ m2(3)]) (use True ra rb m1 m2 in simp_all)
  next
    case False
    let ?m = "m2\<lparr>parents := (parents m2)[ri := int rj]\<rparr>"
    have r2: "root (parents m2) ri ri" "root (parents m2) rj rj"
      using root_root [OF m1(2)] root_root [OF m2(2)] m1(7) m2(7) by simp_all
    have fo: "forest (parents m2)" using m2(3) by (simp add: mfp_inv_def)
    have im: "imerge m (int i) (int j) = Inr ?m" using m1(1) m2(1) False by (simp add: imerge_def)
    have inv': "mfp_inv hash ?m"
      using m2(3) link_ok(1) [OF fo r2 False] by (simp add: mfp_inv_def mfp_keys_def)
    have "mfp_rep ?m x = (\<lambda>y. if y = mfp_keys m ! ri then mfp_keys m ! rj else y) (mfp_rep m2 x)" for x
    proof (rule mfp_rep_map [OF m2(3) inv', where f = "\<lambda>z. if z = ri then rj else z"])
      show "mfp_keys ?m = mfp_keys m2" by (simp add: mfp_keys_def)
      show "root (parents ?m) x y \<longleftrightarrow> (\<exists>z. root (parents m2) x z \<and> y = (if z = ri then rj else z))" for x y
        using link_ok(2) [OF fo r2 False] by simp
      show "mfp_keys m2 ! (if r = ri then rj else r) =
          (if mfp_keys m2 ! r = mfp_keys m ! ri then mfp_keys m ! rj else mfp_keys m2 ! r)"
        if "root (parents m2) i r" for r i
        using mfp_rep_eq_iff [OF m2(3) that r2(1)] keys by simp
      show "(if x = mfp_keys m ! ri then mfp_keys m ! rj else x) = x" if "x \<notin> set (mfp_keys m2)" for x
        using that keys root_bounds [OF m1(2)] inv by (metis mfp_inv_def nth_mem)
    qed
    then have "mfp_rep ?m x = (if mfp_rep m x = mfp_rep m a then mfp_rep m b else mfp_rep m x)" for x
      by (simp add: m2(5) m1(5) ra rb)
    then show thesis
      using that [OF im inv'] by (simp add: m2(4,6) m1(4,6))
  qed
qed

lemma ipromote_ok:
  assumes inv: "mfp_inv hash m" and i: "i < length (parents m)" and a: "a = mfp_keys m ! i"
  obtains m' where "ipromote m (int i) = Inr m'" "mfp_inv hash m'" "database m' = database m"
    "length (parents m') = length (parents m)"
    "\<And>x. mfp_rep m' x = (if mfp_rep m x = mfp_rep m a then a else mfp_rep m x)"
proof -
  have fo: "forest (parents m)" using inv by (simp add: mfp_inv_def)
  obtain r where r: "root (parents m) i r" using forest_root [OF fo i] by blast
  obtain ps where ps: "redirect_loop (parents m) (int i) (-1) (int i) = Some (Inr ps)"
    "length ps = length (parents m)" "forest (ps[i := -1])"
    "\<And>x y. root (ps[i := -1]) x y \<longleftrightarrow> (\<exists>z. root (parents m) x z \<and> y = (if z = r then i else z))"
    by (rule promote_ok [OF fo r]) blast
  let ?m = "m\<lparr>parents := ps[i := -1]\<rparr>"
  have pr: "ipromote m (int i) = Inr ?m"
    using ps(1,2) i by (simp add: ipromote_def or_diverge_def valid_index_def)
  have inv': "mfp_inv hash ?m" using inv ps(2,3) by (simp add: mfp_inv_def mfp_keys_def)
  have ra: "mfp_rep m a = mfp_keys m ! r" using mfp_repI [OF inv a [symmetric] r] .
  have "mfp_rep ?m x = (\<lambda>y. if y = mfp_keys m ! r then a else y) (mfp_rep m x)" for x
  proof (rule mfp_rep_map [OF inv inv', where f = "\<lambda>z. if z = r then i else z"])
    show "mfp_keys ?m = mfp_keys m" by (simp add: mfp_keys_def)
    show "root (parents ?m) x y \<longleftrightarrow> (\<exists>z. root (parents m) x z \<and> y = (if z = r then i else z))" for x y
      using ps(4) by simp
    show "mfp_keys m ! (if s = r then i else s) = (if mfp_keys m ! s = mfp_keys m ! r then a else mfp_keys m ! s)"
      if "root (parents m) j s" for s j
      using mfp_rep_eq_iff [OF inv that r] a by simp
    show "(if x = mfp_keys m ! r then a else x) = x" if "x \<notin> set (mfp_keys m)" for x
      using that root_bounds [OF r] inv by (metis mfp_inv_def nth_mem)
  qed
  then have "mfp_rep ?m x = (if mfp_rep m x = mfp_rep m a then a else mfp_rep m x)" for x
    by (simp add: ra)
  then show thesis using that [OF pr inv'] ps(2) by simp
qed

lemma mfp_at_ok:
  assumes inv: "mfp_inv hash m" and fit: "mfp_fits n m"
  obtains i db where "idict_at_default hash 0 (database m) a (-1) = Inr (i, db)"
    "mfp_inv hash (m\<lparr>database := db\<rparr>)" "mfp_fits n (m\<lparr>database := db\<rparr>)" "elems db = elems (database m)"
    "mfp_rep (m\<lparr>database := db\<rparr>) = mfp_rep m"
    "if a \<in> set (mfp_keys m) then \<exists>j. i = int j \<and> j < length (parents m) \<and> mfp_keys m ! j = a else i = -1"
proof -
  let ?i = "THE i. i < length (entries (database m)) \<and> elems (database m) ! i = a"
  obtain db where db: "idict_at_default hash 0 (database m) a (-1) = Inr (if a \<in> set (elems (database m))
      then int ?i + 0 else -1, db)" "pool_inv hash db" "fits n db" "elems db = elems (database m)"
    by (rule idict_at_default_ok [of hash "database m" n 0 a "-1"])
       (use inv fit in \<open>simp_all add: mfp_inv_def mfp_fits_def\<close>)
  have inv': "mfp_inv hash (m\<lparr>database := db\<rparr>)"
    using inv db(2,4) by (simp add: mfp_inv_def mfp_keys_def)
  have rep: "mfp_rep (m\<lparr>database := db\<rparr>) = mfp_rep m"
    by (rule ext) (simp add: mfp_rep_def mfp_keys_def db(4))
  have "?i < length (entries (database m)) \<and> elems (database m) ! ?i = a" if a: "a \<in> set (elems (database m))"
  proof -
    obtain j where j: "j < length (entries (database m)) \<and> elems (database m) ! j = a"
      using a by (metis in_set_conv_nth length_elems)
    then show ?thesis
    proof (rule theI)
      show "i = j" if "i < length (entries (database m)) \<and> elems (database m) ! i = a" for i
        using that j inv pool_distinct [of hash "database m"] by (auto simp: mfp_inv_def nth_eq_iff_index_eq)
    qed
  qed
  then show thesis
    using that [OF db(1) inv' _ db(4) rep] db(3) inv by (auto simp: mfp_fits_def mfp_keys_def mfp_inv_def)
qed

lemma mfp_find_ok:
  assumes inv: "mfp_inv hash m" and fit: "mfp_fits n m"
  shows "\<exists>m'. mfp_find hash m a = Inr (mfp_rep m a, m') \<and> mfp_inv hash m' \<and> mfp_fits n m' \<and>
    mfp_rep m' = mfp_rep m \<and> mfp_keys m' = mfp_keys m"
proof -
  obtain i db where a: "idict_at_default hash 0 (database m) a (-1) = Inr (i, db)"
    "mfp_inv hash (m\<lparr>database := db\<rparr>)" "mfp_fits n (m\<lparr>database := db\<rparr>)" "elems db = elems (database m)"
    "mfp_rep (m\<lparr>database := db\<rparr>) = mfp_rep m"
    "if a \<in> set (mfp_keys m) then \<exists>j. i = int j \<and> j < length (parents m) \<and> mfp_keys m ! j = a else i = -1"
    by (rule mfp_at_ok [OF assms])
  let ?m = "m\<lparr>database := db\<rparr>"
  have k: "mfp_keys ?m = mfp_keys m" by (simp add: mfp_keys_def a(4))
  show ?thesis
  proof (cases "a \<in> set (mfp_keys m)")
    case True
    then obtain j where j: "i = int j" "j < length (parents ?m)" "mfp_keys m ! j = a" using a(6) by auto
    obtain r m' where r: "ifind ?m (int j) = Inr (int r, m')" "root (parents ?m) j r" "mfp_inv hash m'"
      "database m' = database ?m" "mfp_rep m' = mfp_rep ?m" "length (parents m') = length (parents ?m)"
      by (rule ifind_ok [OF a(2) j(2)]) blast
    have rl: "r < length (entries db)"
      using root_bounds [OF r(2)] inv a(2) by (simp add: mfp_inv_def mfp_keys_def)
    have "mfp_keys m ! r = mfp_rep m a"
      using mfp_repI [OF a(2) _ r(2), of a] j(3) k a(5) by simp
    then have "mfp_index m' (int r) = Inr (mfp_rep m a)"
      using rl by (simp add: mfp_index_def idict_index_def r(4) elems_nth [symmetric] mfp_keys_def a(4))
    then have "mfp_find hash m a = Inr (mfp_rep m a, m')"
      using r(1) by (simp add: mfp_find_def a(1) j(1))
    then show ?thesis
      using r(3,4,5) a(3,5) k by (simp add: mfp_fits_def mfp_keys_def)
  next
    case False
    then have "mfp_find hash m a = Inr (mfp_rep m a, ?m)"
      using a(6) by (simp add: mfp_find_def a(1) mfp_rep_other)
    then show ?thesis using a(2,3,5) k by simp
  qed
qed

lemma mfp_merge_ok:
  assumes inv: "mfp_inv hash m" and fit: "mfp_fits (Suc (Suc n)) m"
  shows "\<exists>m'. mfp_merge hash m a b = Inr m' \<and> mfp_inv hash m' \<and> mfp_fits n m' \<and>
    (\<forall>x. mfp_rep m' x = (if mfp_rep m x = mfp_rep m a then mfp_rep m b else mfp_rep m x))"
proof -
  obtain i m1 where m1: "mfp_call hash m a = Inr (int i, m1)" "mfp_inv hash m1" "mfp_fits (Suc n) m1"
    "i < length (parents m1)" "mfp_keys m1 ! i = a" "mfp_rep m1 = mfp_rep m"
    "mfp_keys m1 = (if a \<in> set (mfp_keys m) then mfp_keys m else mfp_keys m @ [a])"
    by (rule mfp_call_ok [OF inv fit])
  obtain j m2 where m2: "mfp_call hash m1 b = Inr (int j, m2)" "mfp_inv hash m2" "mfp_fits n m2"
    "j < length (parents m2)" "mfp_keys m2 ! j = b" "mfp_rep m2 = mfp_rep m1"
    "mfp_keys m2 = (if b \<in> set (mfp_keys m1) then mfp_keys m1 else mfp_keys m1 @ [b])"
    by (rule mfp_call_ok [OF m1(2,3)])
  have len: "length (parents m1) = length (mfp_keys m1)" "length (parents m2) = length (mfp_keys m2)"
    using m1(2) m2(2) by (simp_all add: mfp_inv_def)
  have i2: "i < length (parents m2)" "a = mfp_keys m2 ! i"
    using m1(4,5) m2(7) len by (auto simp: nth_append)
  obtain m' where m': "imerge m2 (int i) (int j) = Inr m'" "mfp_inv hash m'" "database m' = database m2"
    "length (parents m') = length (parents m2)"
    "\<And>x. mfp_rep m' x = (if mfp_rep m2 x = mfp_rep m2 a then mfp_rep m2 b else mfp_rep m2 x)"
    by (rule imerge_ok [OF m2(2) i2(1) m2(4) i2(2) m2(5) [symmetric]]) blast
  then show ?thesis
    using m1(1,6) m2(1,3,6) by (auto simp: mfp_merge_def mfp_fits_def)
qed

lemma mfp_promote_ok:
  assumes inv: "mfp_inv hash m" and fit: "mfp_fits n m"
  shows "\<exists>m'. mfp_promote hash m a = Inr m' \<and> mfp_inv hash m' \<and> mfp_fits n m' \<and>
    (\<forall>x. mfp_rep m' x = (if mfp_rep m x = mfp_rep m a then a else mfp_rep m x))"
proof -
  obtain i db where a: "idict_at_default hash 0 (database m) a (-1) = Inr (i, db)"
    "mfp_inv hash (m\<lparr>database := db\<rparr>)" "mfp_fits n (m\<lparr>database := db\<rparr>)" "elems db = elems (database m)"
    "mfp_rep (m\<lparr>database := db\<rparr>) = mfp_rep m"
    "if a \<in> set (mfp_keys m) then \<exists>j. i = int j \<and> j < length (parents m) \<and> mfp_keys m ! j = a else i = -1"
    by (rule mfp_at_ok [OF assms])
  let ?m = "m\<lparr>database := db\<rparr>"
  show ?thesis
  proof (cases "a \<in> set (mfp_keys m)")
    case True
    then obtain j where j: "i = int j" "j < length (parents ?m)" "a = mfp_keys ?m ! j"
      using a(4,6) by (auto simp: mfp_keys_def)
    obtain m' where "ipromote ?m (int j) = Inr m'" "mfp_inv hash m'" "database m' = database ?m"
      "\<And>x. mfp_rep m' x = (if mfp_rep ?m x = mfp_rep ?m a then a else mfp_rep ?m x)"
      by (rule ipromote_ok [OF a(2) j(2,3)]) blast
    then show ?thesis using a(1,3,5) j(1) by (auto simp: mfp_promote_def mfp_fits_def)
  next
    case False
    have "mfp_promote hash m a = Inr ?m" using a(6) False by (simp add: mfp_promote_def a(1))
    then show ?thesis using a(2,3,5) False by (auto simp: mfp_rep_other)
  qed
qed

section \<open>The interface of a partition with representatives\<close>

text \<open>What the clients of \<open>mfp\<close> rely on, over the function from keys to representatives.\<close>

locale partition =
  fixes inv :: "'s \<Rightarrow> bool" and fit :: "nat \<Rightarrow> 's \<Rightarrow> bool" and rep :: "'s \<Rightarrow> 'k \<Rightarrow> 'k"
    and find :: "'s \<Rightarrow> 'k \<Rightarrow> ('k \<times> 's) res"
    and merge :: "'s \<Rightarrow> 'k \<Rightarrow> 'k \<Rightarrow> 's res"
    and promote :: "'s \<Rightarrow> 'k \<Rightarrow> 's res"
  assumes idem: "inv s \<Longrightarrow> rep s (rep s x) = rep s x"
    and find_law: "inv s \<Longrightarrow> fit n s \<Longrightarrow>
      \<exists>s'. find s a = Inr (rep s a, s') \<and> inv s' \<and> fit n s' \<and> rep s' = rep s"
    and merge_law: "inv s \<Longrightarrow> fit (Suc (Suc n)) s \<Longrightarrow>
      \<exists>s'. merge s a b = Inr s' \<and> inv s' \<and> fit n s' \<and>
        (\<forall>x. rep s' x = (if rep s x = rep s a then rep s b else rep s x))"
    and promote_law: "inv s \<Longrightarrow> fit n s \<Longrightarrow>
      \<exists>s'. promote s a = Inr s' \<and> inv s' \<and> fit n s' \<and>
        (\<forall>x. rep s' x = (if rep s x = rep s a then a else rep s x))"
begin

text \<open>Promotion changes who represents a class, not which keys it has.\<close>

lemma promote_classes:
  assumes "inv s" "fit n s" "promote s a = Inr s'"
  shows "rep s' x = rep s' y \<longleftrightarrow> rep s x = rep s y" "rep s' a = a"
proof -
  have r: "rep s' x = (if rep s x = rep s a then a else rep s x)" for x
    using promote_law [OF assms(1,2), of a] assms(3) by auto
  show "rep s' a = a" by (simp add: r)
  have "rep s x \<noteq> a" if "rep s x \<noteq> rep s a" for x
    using that idem [OF assms(1)] by metis
  then show "rep s' x = rep s' y \<longleftrightarrow> rep s x = rep s y"
    unfolding r by auto
qed

text \<open>Merging joins exactly two classes.\<close>

lemma merge_classes:
  assumes "inv s" "fit (Suc (Suc n)) s" "merge s a b = Inr s'"
  shows "rep s' x = rep s' y \<longleftrightarrow> rep s x = rep s y \<or>
    {rep s x, rep s y} \<subseteq> {rep s a, rep s b}"
proof -
  have r: "rep s' x = (if rep s x = rep s a then rep s b else rep s x)" for x
    using merge_law [OF assms(1,2), of a b] assms(3) by auto
  show ?thesis unfolding r by auto
qed

end

interpretation mfp_part: partition "mfp_inv hash" mfp_fits mfp_rep "mfp_find hash" "mfp_merge hash" "mfp_promote hash"
  for hash
proof
  fix s :: "'a mfp" and n a b x
  assume i: "mfp_inv hash s"
  show "mfp_rep s (mfp_rep s x) = mfp_rep s x" by (rule mfp_rep_idem [OF i])
  show "\<exists>s'. mfp_find hash s a = Inr (mfp_rep s a, s') \<and> mfp_inv hash s' \<and> mfp_fits n s' \<and> mfp_rep s' = mfp_rep s"
    if "mfp_fits n s" using mfp_find_ok [OF i that] by blast
  show "\<exists>s'. mfp_merge hash s a b = Inr s' \<and> mfp_inv hash s' \<and> mfp_fits n s' \<and>
      (\<forall>x. mfp_rep s' x = (if mfp_rep s x = mfp_rep s a then mfp_rep s b else mfp_rep s x))"
    if "mfp_fits (Suc (Suc n)) s" by (rule mfp_merge_ok [OF i that])
  show "\<exists>s'. mfp_promote hash s a = Inr s' \<and> mfp_inv hash s' \<and> mfp_fits n s' \<and>
      (\<forall>x. mfp_rep s' x = (if mfp_rep s x = mfp_rep s a then a else mfp_rep s x))"
    if "mfp_fits n s" by (rule mfp_promote_ok [OF i that])
qed

lemma mfp_empty_ok: "mfp_inv hash mfp_empty" "mfp_fits n mfp_empty \<longleftrightarrow> 6 * n \<le> max_table" "mfp_rep mfp_empty = (\<lambda>x. x)"
  by (auto simp: mfp_inv_def mfp_empty_def pool_empty_ok mfp_keys_def pool_empty_def table_empty_ok
      forest_def mfp_fits_def mfp_rep_def fun_eq_iff pool_inv_def)

text \<open>C16: \<open>merge\<close>, \<open>find\<close> and \<open>promote\<close> always return (the loops over the parent links end) and keep
  the structure well formed.  After \<open>merge(a, b)\<close> exactly the classes of \<open>a\<close> and \<open>b\<close> are joined and \<open>b\<close>'s
  representative stands for both; \<open>find\<close> returns the representative and changes no class although
  it shortens paths; \<open>promote(a)\<close> makes \<open>a\<close> the representative of its class and changes no class.\<close>

theorem mfp_correct:
  assumes "mfp_inv hash m" "mfp_fits (Suc (Suc n)) m"
  shows "(\<exists>m'. mfp_merge hash m a b = Inr m' \<and> mfp_inv hash m' \<and> mfp_fits n m' \<and>
      mfp_rep m' a = mfp_rep m b \<and> mfp_rep m' b = mfp_rep m b \<and>
      (\<forall>x y. mfp_rep m' x = mfp_rep m' y \<longleftrightarrow> mfp_rep m x = mfp_rep m y \<or>
        {mfp_rep m x, mfp_rep m y} \<subseteq> {mfp_rep m a, mfp_rep m b})) \<and>
    (\<exists>m'. mfp_find hash m a = Inr (mfp_rep m a, m') \<and> mfp_inv hash m' \<and> mfp_rep m' = mfp_rep m) \<and>
    (\<exists>m'. mfp_promote hash m a = Inr m' \<and> mfp_inv hash m' \<and> mfp_rep m' a = a \<and>
      (\<forall>x y. mfp_rep m' x = mfp_rep m' y \<longleftrightarrow> mfp_rep m x = mfp_rep m y))"
proof (intro conjI)
  obtain m' where m': "mfp_merge hash m a b = Inr m'" "mfp_inv hash m'" "mfp_fits n m'"
    "\<And>x. mfp_rep m' x = (if mfp_rep m x = mfp_rep m a then mfp_rep m b else mfp_rep m x)"
    using mfp_part.merge_law [OF assms] by blast
  then show "\<exists>m'. mfp_merge hash m a b = Inr m' \<and> mfp_inv hash m' \<and> mfp_fits n m' \<and>
      mfp_rep m' a = mfp_rep m b \<and> mfp_rep m' b = mfp_rep m b \<and>
      (\<forall>x y. mfp_rep m' x = mfp_rep m' y \<longleftrightarrow> mfp_rep m x = mfp_rep m y \<or>
        {mfp_rep m x, mfp_rep m y} \<subseteq> {mfp_rep m a, mfp_rep m b})"
    using mfp_part.merge_classes [OF assms m'(1)] by (intro exI [of _ m']) simp
  show "\<exists>m'. mfp_find hash m a = Inr (mfp_rep m a, m') \<and> mfp_inv hash m' \<and> mfp_rep m' = mfp_rep m"
    using mfp_part.find_law [OF assms] by blast
  obtain m'' where "mfp_promote hash m a = Inr m''" "mfp_inv hash m''"
    using mfp_part.promote_law [OF assms] by blast
  then show "\<exists>m'. mfp_promote hash m a = Inr m' \<and> mfp_inv hash m' \<and> mfp_rep m' a = a \<and>
      (\<forall>x y. mfp_rep m' x = mfp_rep m' y \<longleftrightarrow> mfp_rep m x = mfp_rep m y)"
    using mfp_part.promote_classes [OF assms] by blast
qed

theorem mfp_correct_witness:
  "\<exists>m'. mfp_merge (\<lambda>k. word_of_int k) (mfp_empty :: int mfp) 3 5 = Inr m' \<and> mfp_rep m' 3 = 5 \<and> mfp_rep m' 5 = 5"
proof -
  have f: "mfp_fits (Suc (Suc 0)) (mfp_empty :: int mfp)" by (simp add: mfp_empty_ok max_table_def)
  show ?thesis
    using mfp_correct [OF mfp_empty_ok(1) f, of "\<lambda>k. word_of_int k" 3 5] by (auto simp: mfp_empty_ok)
qed

end
