(* ===== verification/SigTools.thy ===== *)
theory SigTools
  imports SigOps Mfp
begin

text \<open>
  The tools of \<open>kernel/sigtools.h\<close> on top of the hash containers and the signals: \<open>SigPool\<close>, a set of
  wire bits; \<open>SigSet\<close>, a map from wire bits to sets; and \<open>SigMap\<close>, the canonical names of connected
  bits.
\<close>

section \<open>SigPool\<close>

text \<open>\<open>bitDef_t\<close> is a wire and an offset; constant bits are filtered out before one is used.  Its hash
  adds the two.\<close>

type_synonym bitdef = "wire_t \<times> int"

definition bitdef_hash :: "bitdef \<Rightarrow> 32 word" where
  "bitdef_hash b = word_of_int (wire_name (fst b)) + word_of_int (snd b)"

fun bitdef_of :: "sigbit \<Rightarrow> bitdef option" where
  "bitdef_of (Bit_state _) = None"
| "bitdef_of (Bit_wire w i) = Some (w, i)"

definition wire_defs :: "sigbit list \<Rightarrow> bitdef list" where
  "wire_defs bs = List.map_filter bitdef_of bs"

text \<open>\<open>for (auto &bit : sig)\<close>: the iterator runs from 0 to the width and reads through \<open>operator[]\<close>.\<close>

definition sig_range :: "sigspec \<Rightarrow> (sigbit list \<times> sigspec) res" where
  "sig_range s = bindE (inline_unpack s) (\<lambda>s.
     guardE (0 \<le> swidth s \<and> swidth s \<le> int (length (sbits s))) Out_of_range
       (Inr (take (nat (swidth s)) (sbits s), s)))"

type_synonym sigpool = "bitdef pool"

definition sigpool_empty :: sigpool where
  "sigpool_empty = pool_empty"

definition sigpool_clear :: "sigpool \<Rightarrow> sigpool" where
  "sigpool_clear p = pool_clear p"

definition pool_put :: "sigpool \<Rightarrow> bitdef \<Rightarrow> sigpool res" where
  "pool_put p b = bindE (pool_insert bitdef_hash p b) (\<lambda>(_, p). Inr p)"

definition pool_drop :: "sigpool \<Rightarrow> bitdef \<Rightarrow> sigpool res" where
  "pool_drop p b = bindE (pool_erase bitdef_hash p b) (\<lambda>(_, p). Inr p)"

definition sigpool_add :: "sigpool \<Rightarrow> sigspec \<Rightarrow> sigpool res" where
  "sigpool_add p sig = bindE (sig_range sig) (\<lambda>(bs, _). foldE pool_put p (wire_defs bs))"

definition sigpool_add_pool :: "sigpool \<Rightarrow> sigpool \<Rightarrow> sigpool res" where
  "sigpool_add_pool p other = foldE pool_put p (pool_items other)"

definition sigpool_del :: "sigpool \<Rightarrow> sigspec \<Rightarrow> sigpool res" where
  "sigpool_del p sig = bindE (sig_range sig) (\<lambda>(bs, _). foldE pool_drop p (wire_defs bs))"

definition sigpool_del_pool :: "sigpool \<Rightarrow> sigpool \<Rightarrow> sigpool res" where
  "sigpool_del_pool p other = foldE pool_drop p (pool_items other)"

definition expand_step :: "sigpool \<Rightarrow> sigbit \<times> sigbit \<Rightarrow> sigpool res" where
  "expand_step p ft =
     (case (bitdef_of (fst ft), bitdef_of (snd ft)) of
        (Some f, Some t) \<Rightarrow> bindE (pool_count bitdef_hash p f) (\<lambda>(n, p). if n > 0 then pool_put p t else Inr p)
      | _ \<Rightarrow> Inr p)"

definition sigpool_expand :: "sigpool \<Rightarrow> sigspec \<Rightarrow> sigspec \<Rightarrow> sigpool res" where
  "sigpool_expand p from to =
     guardE (swidth from = swidth to) Assert_failed (
     bindE (sig_range from) (\<lambda>(fs, _). bindE (sig_range to) (\<lambda>(ts, _). foldE expand_step p (zip fs ts))))"

text \<open>\<open>bit.wire != NULL && bits.count(bit)\<close>, and its negation for wire bits only.\<close>

definition sigpool_check :: "sigpool \<Rightarrow> sigbit \<Rightarrow> (bool \<times> sigpool) res" where
  "sigpool_check p b =
     (case bitdef_of b of None \<Rightarrow> Inr (False, p)
      | Some d \<Rightarrow> bindE (pool_count bitdef_hash p d) (\<lambda>(n, p). Inr (n \<noteq> 0, p)))"

definition sigpool_absent :: "sigpool \<Rightarrow> sigbit \<Rightarrow> (bool \<times> sigpool) res" where
  "sigpool_absent p b =
     (case bitdef_of b of None \<Rightarrow> Inr (False, p)
      | Some d \<Rightarrow> bindE (pool_count bitdef_hash p d) (\<lambda>(n, p). Inr (n = 0, p)))"

fun select_loop ::
  "(sigpool \<Rightarrow> sigbit \<Rightarrow> (bool \<times> sigpool) res) \<Rightarrow> sigbit list \<Rightarrow> sigpool \<Rightarrow> sigspec \<Rightarrow> (sigspec \<times> sigpool) res" where
  "select_loop test [] p result = Inr (result, p)"
| "select_loop test (b # bs) p result =
     bindE (test p b) (\<lambda>(hit, p).
     bindE (if hit then sig_append_bit result b else Inr result) (\<lambda>result.
     select_loop test bs p result))"

definition sigpool_extract :: "sigpool \<Rightarrow> sigspec \<Rightarrow> (sigspec \<times> sigpool) res" where
  "sigpool_extract p sig = bindE (sig_range sig) (\<lambda>(bs, _). select_loop sigpool_check bs p sig_empty)"

definition sigpool_remove :: "sigpool \<Rightarrow> sigspec \<Rightarrow> (sigspec \<times> sigpool) res" where
  "sigpool_remove p sig = bindE (sig_range sig) (\<lambda>(bs, _). select_loop sigpool_absent bs p sig_empty)"

text \<open>A loop that returns at the first hit.\<close>

fun any_loop ::
  "('p \<Rightarrow> sigbit \<Rightarrow> (bool \<times> 'p) res) \<Rightarrow> sigbit list \<Rightarrow> 'p \<Rightarrow> (bool \<times> 'p) res" where
  "any_loop test [] p = Inr (False, p)"
| "any_loop test (b # bs) p =
     bindE (test p b) (\<lambda>(hit, p). if hit then Inr (True, p) else any_loop test bs p)"

definition sigpool_check_any :: "sigpool \<Rightarrow> sigspec \<Rightarrow> (bool \<times> sigpool) res" where
  "sigpool_check_any p sig = bindE (sig_range sig) (\<lambda>(bs, _). any_loop sigpool_check bs p)"

definition sigpool_check_all :: "sigpool \<Rightarrow> sigspec \<Rightarrow> (bool \<times> sigpool) res" where
  "sigpool_check_all p sig =
     bindE (sig_range sig) (\<lambda>(bs, _). bindE (any_loop sigpool_absent bs p) (\<lambda>(hit, p). Inr (\<not> hit, p)))"

definition sigpool_export_one :: "sigpool \<Rightarrow> sigspec res" where
  "sigpool_export_one p =
     (case pool_items p of [] \<Rightarrow> Inr sig_empty | (w, i) # _ \<Rightarrow> SigSpec_part w i 1)"

definition sigpool_export_all :: "sigpool \<Rightarrow> sigspec res" where
  "sigpool_export_all p =
     bindE (foldE (\<lambda>sig (w, i). bindE (pool_insert bit_hash sig (Bit_wire w i)) (\<lambda>(_, sig). Inr sig))
              pool_empty (pool_items p)) SigSpec_pool"

definition sigpool_size :: "sigpool \<Rightarrow> nat" where
  "sigpool_size p = pool_size p"

section \<open>SigSet\<close>

text \<open>\<open>SigSet<T, Compare>\<close>: the values are \<open>std::set<T, Compare>\<close>, ascending lists for the order \<open>lt\<close>.
  \<open>operator[]\<close> adds an empty set for a bit that has none.\<close>

type_synonym 't sigset = "(bitdef, 't list) dict"

definition sigset_empty :: "'t sigset" where
  "sigset_empty = dict_empty"

definition sigset_clear :: "'t sigset \<Rightarrow> 't sigset" where
  "sigset_clear m = dict_clear m"

fun std_erase :: "('t \<Rightarrow> 't \<Rightarrow> bool) \<Rightarrow> 't list \<Rightarrow> 't \<Rightarrow> 't list" where
  "std_erase lt [] x = []"
| "std_erase lt (y # ys) x = (if std_same lt x y then ys else y # std_erase lt ys x)"

definition sigset_each :: "'t sigset \<Rightarrow> sigspec \<Rightarrow> ('t list \<Rightarrow> 't list) \<Rightarrow> 't sigset res" where
  "sigset_each m sig f =
     bindE (sig_range sig) (\<lambda>(bs, _). foldE (\<lambda>m b. dict_modify bitdef_hash [] m b f) m (wire_defs bs))"

definition sigset_insert :: "('t \<Rightarrow> 't \<Rightarrow> bool) \<Rightarrow> 't sigset \<Rightarrow> sigspec \<Rightarrow> 't \<Rightarrow> 't sigset res" where
  "sigset_insert lt m sig data = sigset_each m sig (\<lambda>xs. std_insert lt xs data)"

definition sigset_insert_all :: "('t \<Rightarrow> 't \<Rightarrow> bool) \<Rightarrow> 't sigset \<Rightarrow> sigspec \<Rightarrow> 't list \<Rightarrow> 't sigset res" where
  "sigset_insert_all lt m sig data = sigset_each m sig (\<lambda>xs. foldl (std_insert lt) xs data)"

definition sigset_erase :: "'t sigset \<Rightarrow> sigspec \<Rightarrow> 't sigset res" where
  "sigset_erase m sig = sigset_each m sig (\<lambda>_. [])"

definition sigset_erase_one :: "('t \<Rightarrow> 't \<Rightarrow> bool) \<Rightarrow> 't sigset \<Rightarrow> sigspec \<Rightarrow> 't \<Rightarrow> 't sigset res" where
  "sigset_erase_one lt m sig data = sigset_each m sig (\<lambda>xs. std_erase lt xs data)"

text \<open>\<open>erase(sig, data)\<close> with a set calls the range erase of \<open>bits[bit]\<close> with iterators of \<open>data\<close>, which
  is undefined for the first wire bit it meets.\<close>

definition sigset_erase_all :: "'t sigset \<Rightarrow> sigspec \<Rightarrow> 't list \<Rightarrow> 't sigset res" where
  "sigset_erase_all m sig data =
     bindE (sig_range sig) (\<lambda>(bs, _). if wire_defs bs = [] then Inr m else Inl Undefined_behaviour)"

definition sigset_find :: "('t \<Rightarrow> 't \<Rightarrow> bool) \<Rightarrow> 't sigset \<Rightarrow> sigspec \<Rightarrow> 't list \<Rightarrow> ('t list \<times> 't sigset) res" where
  "sigset_find lt m sig result =
     bindE (sig_range sig) (\<lambda>(bs, _).
     foldE (\<lambda>(result, m) b. bindE (dict_ref bitdef_hash [] m b) (\<lambda>(i, m).
              Inr (foldl (std_insert lt) result (dict_deref m i), m))) (result, m) (wire_defs bs))"

definition sigset_find_pool ::
  "('t \<Rightarrow> 32 word) \<Rightarrow> 't sigset \<Rightarrow> sigspec \<Rightarrow> 't pool \<Rightarrow> ('t pool \<times> 't sigset) res" where
  "sigset_find_pool hash m sig result =
     bindE (sig_range sig) (\<lambda>(bs, _).
     foldE (\<lambda>(result, m) b. bindE (dict_ref bitdef_hash [] m b) (\<lambda>(i, m).
              bindE (pool_insert_range hash result (dict_deref m i)) (\<lambda>result.
              Inr (result, m)))) (result, m) (wire_defs bs))"

definition sigset_find_set :: "('t \<Rightarrow> 't \<Rightarrow> bool) \<Rightarrow> 't sigset \<Rightarrow> sigspec \<Rightarrow> ('t list \<times> 't sigset) res" where
  "sigset_find_set lt m sig = sigset_find lt m sig []"

definition sigset_test :: "'t sigset \<Rightarrow> sigbit \<Rightarrow> (bool \<times> 't sigset) res" where
  "sigset_test m b =
     (case bitdef_of b of None \<Rightarrow> Inr (False, m)
      | Some d \<Rightarrow> bindE (dict_count bitdef_hash m d) (\<lambda>(n, m). Inr (n \<noteq> 0, m)))"

definition sigset_has :: "'t sigset \<Rightarrow> sigspec \<Rightarrow> (bool \<times> 't sigset) res" where
  "sigset_has m sig = bindE (sig_range sig) (\<lambda>(bs, _). any_loop sigset_test bs m)"

section \<open>SigMap\<close>

type_synonym sigmap = "sigbit mfp"

definition sigmap_clear :: "sigmap \<Rightarrow> sigmap" where
  "sigmap_clear m = mfp_clear m"

definition sigmap_swap :: "sigmap \<Rightarrow> sigmap \<Rightarrow> sigmap \<times> sigmap" where
  "sigmap_swap m other = mfp_swap m other"

text \<open>One iteration of the loop of \<open>add(from, to)\<close>.\<close>

definition sigmap_add_step :: "sigmap \<Rightarrow> sigbit \<times> sigbit \<Rightarrow> sigmap res" where
  "sigmap_add_step m ft =
     bindE (mfp_lookup bit_hash m (fst ft)) (\<lambda>(bfi, m).
     bindE (mfp_lookup bit_hash m (snd ft)) (\<lambda>(bti, m).
     bindE (mfp_index m bfi) (\<lambda>bf.
     bindE (mfp_index m bti) (\<lambda>bt.
     if bit_wire bf \<noteq> None \<or> bit_wire bt \<noteq> None then
       bindE (imerge m bfi bti) (\<lambda>m.
       bindE (if bit_wire bf = None then ipromote m bfi else Inr m) (\<lambda>m.
       if bit_wire bt = None then ipromote m bti else Inr m))
     else Inr m))))"

definition sigmap_add :: "sigmap \<Rightarrow> sigspec \<Rightarrow> sigspec \<Rightarrow> sigmap res" where
  "sigmap_add m from to =
     guardE (swidth from = swidth to) Assert_failed (
     bindE (sig_range from) (\<lambda>(fs, _). bindE (sig_range to) (\<lambda>(ts, _). foldE sigmap_add_step m (zip fs ts))))"

text \<open>\<open>set(module)\<close> with the list of connections of the module; \<open>bitcount\<close> is an \<open>int\<close> passed to
  \<open>reserve(size_t)\<close>.\<close>

definition sigmap_set :: "sigmap \<Rightarrow> (sigspec \<times> sigspec) list \<Rightarrow> sigmap res" where
  "sigmap_set m connections =
     (let bitcount = sum_list (map (\<lambda>c. swidth (fst c)) connections)
      in guardE (bitcount \<ge> 0) Length_error (
         foldE (\<lambda>m (from, to). sigmap_add m from to)
           (mfp_reserve (mfp_clear m) (nat bitcount)) connections))"

definition SigMap_module :: "(sigspec \<times> sigspec) list option \<Rightarrow> sigmap res" where
  "SigMap_module module = (case module of None \<Rightarrow> Inr mfp_empty | Some cs \<Rightarrow> sigmap_set mfp_empty cs)"

definition sigmap_add_bit :: "sigmap \<Rightarrow> sigbit \<Rightarrow> sigmap res" where
  "sigmap_add_bit m b =
     bindE (mfp_find bit_hash m b) (\<lambda>(r, m).
     if bit_wire r \<noteq> None then mfp_promote bit_hash m b else Inr m)"

definition sigmap_add_sig :: "sigmap \<Rightarrow> sigspec \<Rightarrow> sigmap res" where
  "sigmap_add_sig m sig = bindE (sig_range sig) (\<lambda>(bs, _). foldE sigmap_add_bit m bs)"

definition sigmap_add_wire :: "sigmap \<Rightarrow> wire_t \<Rightarrow> sigmap res" where
  "sigmap_add_wire m wire = bindE (SigSpec_wire wire) (sigmap_add_sig m)"

definition sigmap_apply_bit :: "sigmap \<Rightarrow> sigbit \<Rightarrow> (sigbit \<times> sigmap) res" where
  "sigmap_apply_bit m b = mfp_find bit_hash m b"

fun apply_loop :: "sigmap \<Rightarrow> sigbit list \<Rightarrow> (sigbit list \<times> sigmap) res" where
  "apply_loop m [] = Inr ([], m)"
| "apply_loop m (b # bs) =
     bindE (sigmap_apply_bit m b) (\<lambda>(b, m). bindE (apply_loop m bs) (\<lambda>(bs, m). Inr (b # bs, m)))"

definition sigmap_apply :: "sigmap \<Rightarrow> sigspec \<Rightarrow> (sigspec \<times> sigmap) res" where
  "sigmap_apply m sig =
     bindE (sig_range sig) (\<lambda>(bs, sig).
     bindE (apply_loop m bs) (\<lambda>(bs', m).
     Inr (sig\<lparr>sbits := bs' @ drop (length bs') (sbits sig)\<rparr>, m)))"

definition sigmap_apply_wire :: "sigmap \<Rightarrow> wire_t \<Rightarrow> (sigspec \<times> sigmap) res" where
  "sigmap_apply_wire m wire = bindE (SigSpec_wire wire) (sigmap_apply m)"

definition sigmap_allbits :: "sigmap \<Rightarrow> sigspec res" where
  "sigmap_allbits m = foldE sig_append_bit sig_empty (filter (\<lambda>b. bit_wire b \<noteq> None) (mfp_items m))"

section \<open>Specification of the canonical names\<close>

text \<open>A map of canonical names sends every bit to the representative of its class.  Connecting two bits
  joins their classes; a constant, if one of the classes has one, represents the result, otherwise
  the representative of the second; two constants are never joined.\<close>

definition is_const_bit :: "sigbit \<Rightarrow> bool" where
  "is_const_bit b \<longleftrightarrow> bit_wire b = None"

definition connect_bits :: "(sigbit \<Rightarrow> sigbit) \<Rightarrow> sigbit \<times> sigbit \<Rightarrow> sigbit \<Rightarrow> sigbit" where
  "connect_bits rep ft x =
     (let f = rep (fst ft); t = rep (snd ft)
      in if is_const_bit f \<and> is_const_bit t then rep x
         else if rep x = f \<or> rep x = t then (if is_const_bit f then f else t) else rep x)"

definition sigmap_inv :: "sigmap \<Rightarrow> bool" where
  "sigmap_inv m \<longleftrightarrow> mfp_inv bit_hash m \<and> (\<forall>v. mfp_rep m (Bit_state v) = Bit_state v)"

text \<open>The pairs of bits a list of connections connects.\<close>

definition connected_pairs :: "(sigspec \<times> sigspec) list \<Rightarrow> (sigbit \<times> sigbit) list" where
  "connected_pairs cs = concat (map (\<lambda>(from, to). zip (sig_bits from) (sig_bits to)) cs)"

text \<open>Membership of a bit in a \<open>SigPool\<close> and the set a \<open>SigSet\<close> has for a bit.\<close>

definition in_pool :: "sigpool \<Rightarrow> sigbit \<Rightarrow> bool" where
  "in_pool p b = (case bitdef_of b of None \<Rightarrow> False | Some d \<Rightarrow> d \<in> pool_set p)"

definition sigset_value :: "'t sigset \<Rightarrow> bitdef \<Rightarrow> 't list" where
  "sigset_value m d = (case dict_map m d of None \<Rightarrow> [] | Some xs \<Rightarrow> xs)"

section \<open>Iteration\<close>

lemma sig_range_ok:
  assumes "sig_inv s"
  obtains r where "sig_range s = Inr (sig_bits s, r)" "sig_inv r" "sig_bits r = sig_bits s" "sbits r = sig_bits s"
    "schunks r = []" "swidth r = swidth s"
proof -
  obtain u where u: "sig_unpack s = Inr u" "sig_inv u" "sig_bits u = sig_bits s" "sbits u = sig_bits s" "schunks u = []"
    "swidth u = swidth s"
    by (rule sig_unpack_ok [OF assms]) blast
  have "inline_unpack s = Inr u"
    using u(1) by (auto simp: inline_unpack_def sig_unpack_def split: if_splits)
  then show ?thesis
    using u assms by (intro that [of u]) (simp_all add: sig_range_def sig_inv_width)
qed

section \<open>SigMap refines its specification\<close>

lemma mfp_lookup_ok:
  assumes "mfp_inv hash m" "mfp_fits (Suc n) m"
  obtains r m' where "mfp_lookup hash m k = Inr (int r, m')" "mfp_inv hash m'" "mfp_fits n m'"
    "r < length (parents m')" "mfp_keys m' ! r = mfp_rep m k" "mfp_rep m' = mfp_rep m"
    "\<And>i. i < length (mfp_keys m) \<Longrightarrow> i < length (parents m') \<and> mfp_keys m' ! i = mfp_keys m ! i"
proof -
  obtain i m1 where m1: "mfp_call hash m k = Inr (int i, m1)" "mfp_inv hash m1" "mfp_fits n m1"
    "i < length (parents m1)" "mfp_keys m1 ! i = k" "mfp_rep m1 = mfp_rep m"
    "mfp_keys m1 = (if k \<in> set (mfp_keys m) then mfp_keys m else mfp_keys m @ [k])"
    by (rule mfp_call_ok [OF assms])
  obtain r m2 where m2: "ifind m1 (int i) = Inr (int r, m2)" "root (parents m1) i r" "mfp_inv hash m2"
    "database m2 = database m1" "mfp_rep m2 = mfp_rep m1" "length (parents m2) = length (parents m1)"
    by (rule ifind_ok [OF m1(2,4)]) blast
  have keys: "mfp_keys m2 = mfp_keys m1"
    by (simp add: mfp_keys_def m2(4))
  have "mfp_keys m2 ! r = mfp_rep m k"
    using mfp_repI [OF m1(2) m1(5) m2(2)] by (simp add: keys m1(6))
  moreover have "i < length (parents m2) \<and> mfp_keys m2 ! i = mfp_keys m ! i" if "i < length (mfp_keys m)" for i
    using that m1(2,7) keys by (auto simp: mfp_inv_def m2(6) nth_append)
  moreover have "r < length (parents m2)"
    using root_bounds [OF m2(2)] m2(6) by simp
  moreover have "mfp_fits n m2"
    using m1(3) by (simp add: mfp_fits_def m2(4))
  ultimately show ?thesis
    using m1(1,6) m2(1,3,5) by (intro that [of r m2]) (simp_all add: mfp_lookup_def)
qed

lemma mfp_index_ok:
  "mfp_inv hash m \<Longrightarrow> r < length (parents m) \<Longrightarrow> mfp_index m (int r) = Inr (mfp_keys m ! r)"
  by (auto simp: mfp_index_def idict_index_def mfp_inv_def mfp_keys_def elems_nth)

lemma connect_const: "(\<And>v. rep (Bit_state v) = Bit_state v) \<Longrightarrow> connect_bits rep ft (Bit_state v) = Bit_state v"
  by (cases "rep (fst ft)"; cases "rep (snd ft)") (auto simp: connect_bits_def Let_def is_const_bit_def)

lemma sigmap_add_step_ok:
  assumes "sigmap_inv m" "mfp_fits (Suc (Suc n)) m"
  obtains m' where "sigmap_add_step m (f, t) = Inr m'" "sigmap_inv m'" "mfp_fits n m'"
    "mfp_rep m' = connect_bits (mfp_rep m) (f, t)"
proof -
  have inv: "mfp_inv bit_hash m" and const: "\<And>v. mfp_rep m (Bit_state v) = Bit_state v"
    using assms(1) by (simp_all add: sigmap_inv_def)
  define F T where "F = mfp_rep m f" and "T = mfp_rep m t"
  have FT: "mfp_rep m F = F" "mfp_rep m T = T"
    by (simp_all add: F_def T_def mfp_rep_idem [OF inv])
  obtain i m1 where m1: "mfp_lookup bit_hash m f = Inr (int i, m1)" "mfp_inv bit_hash m1" "mfp_fits (Suc n) m1"
    "i < length (parents m1)" "mfp_keys m1 ! i = F" "mfp_rep m1 = mfp_rep m"
    using mfp_lookup_ok [OF inv assms(2), of f] unfolding F_def by blast
  obtain j m2 where m2: "mfp_lookup bit_hash m1 t = Inr (int j, m2)" "mfp_inv bit_hash m2" "mfp_fits n m2"
    "j < length (parents m2)" "mfp_keys m2 ! j = T" "mfp_rep m2 = mfp_rep m"
    "\<And>i. i < length (mfp_keys m1) \<Longrightarrow> i < length (parents m2) \<and> mfp_keys m2 ! i = mfp_keys m1 ! i"
    using mfp_lookup_ok [OF m1(2,3), of t] unfolding T_def m1(6) by blast
  have i2: "i < length (parents m2)" "mfp_keys m2 ! i = F"
    using m2(7) [of i] m1 by (simp_all add: mfp_inv_def)
  have idx: "mfp_index m2 (int i) = Inr F" "mfp_index m2 (int j) = Inr T"
    using mfp_index_ok [OF m2(2)] i2 m2(4,5) by simp_all
  have step: "sigmap_add_step m (f, t) =
      (if \<not> (is_const_bit F \<and> is_const_bit T) then
         bindE (imerge m2 (int i) (int j)) (\<lambda>m.
         bindE (if is_const_bit F then ipromote m (int i) else Inr m) (\<lambda>m.
         if is_const_bit T then ipromote m (int j) else Inr m))
       else Inr m2)"
    using m1(1) m2(1) idx by (simp add: sigmap_add_step_def is_const_bit_def)
  note goal = that
  have fin: thesis if "sigmap_add_step m (f, t) = Inr m'" "mfp_inv bit_hash m'" "database m' = database m2"
    "\<And>x. mfp_rep m' x = connect_bits (mfp_rep m) (f, t) x" for m'
  proof (rule goal [of m'])
    show "mfp_rep m' = connect_bits (mfp_rep m) (f, t)"
      using that(4) by (rule ext)
    show "sigmap_inv m'"
      using that(2,4) const by (simp add: sigmap_inv_def connect_const)
    show "mfp_fits n m'"
      using m2(3) that(3) by (simp add: mfp_fits_def)
  qed (rule that(1))
  show thesis
  proof (cases "is_const_bit F \<and> is_const_bit T")
    case True
    then show thesis
      using m2 by (intro fin [of m2]) (simp_all add: step connect_bits_def Let_def F_def T_def)
  next
    case False
    obtain m3 where m3: "imerge m2 (int i) (int j) = Inr m3" "mfp_inv bit_hash m3" "database m3 = database m2"
      "length (parents m3) = length (parents m2)"
      "\<And>x. mfp_rep m3 x = (if mfp_rep m x = F then T else mfp_rep m x)"
      using imerge_ok [OF m2(2) i2(1) m2(4) i2(2) [symmetric] m2(5) [symmetric]] unfolding m2(6) FT by blast
    have keys3: "F = mfp_keys m3 ! i" "T = mfp_keys m3 ! j" "i < length (parents m3)" "j < length (parents m3)"
      using i2 m2(4,5) by (simp_all add: mfp_keys_def m3(3,4))
    show thesis
    proof (cases "is_const_bit F")
      case F: True
      obtain m4 where m4: "ipromote m3 (int i) = Inr m4" "mfp_inv bit_hash m4" "database m4 = database m3"
        "\<And>x. mfp_rep m4 x = (if mfp_rep m3 x = mfp_rep m3 F then F else mfp_rep m3 x)"
        by (rule ipromote_ok [OF m3(2) keys3(3,1)]) blast
      show thesis
      proof (rule fin [of m4])
        show "sigmap_add_step m (f, t) = Inr m4"
          using False F by (simp add: step m3(1) m4(1))
        show "mfp_rep m4 x = connect_bits (mfp_rep m) (f, t) x" for x
          using False F FT by (auto simp: m4(4) m3(5) connect_bits_def Let_def F_def [symmetric] T_def [symmetric])
      qed (simp_all add: m4 m3)
    next
      case F: False
      show thesis
      proof (cases "is_const_bit T")
        case True
        obtain m4 where m4: "ipromote m3 (int j) = Inr m4" "mfp_inv bit_hash m4" "database m4 = database m3"
          "\<And>x. mfp_rep m4 x = (if mfp_rep m3 x = mfp_rep m3 T then T else mfp_rep m3 x)"
          by (rule ipromote_ok [OF m3(2) keys3(4,2)]) blast
        show thesis
        proof (rule fin [of m4])
          show "sigmap_add_step m (f, t) = Inr m4"
            using F True by (simp add: step m3(1) m4(1))
          show "mfp_rep m4 x = connect_bits (mfp_rep m) (f, t) x" for x
            using F True FT by (auto simp: m4(4) m3(5) connect_bits_def Let_def F_def [symmetric] T_def [symmetric])
        qed (simp_all add: m4 m3)
      next
        case T: False
        show thesis
        proof (rule fin [of m3])
          show "sigmap_add_step m (f, t) = Inr m3"
            using F T by (simp add: step m3(1))
          show "mfp_rep m3 x = connect_bits (mfp_rep m) (f, t) x" for x
            using F T FT by (auto simp: m3(5) connect_bits_def Let_def F_def [symmetric] T_def [symmetric])
        qed (simp_all add: m3)
      qed
    qed
  qed
qed

lemma sigmap_add_steps_ok:
  assumes "sigmap_inv m" "mfp_fits (2 * length fts + n) m"
  shows "\<exists>m'. foldE sigmap_add_step m fts = Inr m' \<and> sigmap_inv m' \<and> mfp_fits n m' \<and>
    mfp_rep m' = foldl connect_bits (mfp_rep m) fts"
  using assms
proof (induction fts arbitrary: m)
  case (Cons ft fts)
  obtain f t where ft: "ft = (f, t)"
    by (cases ft)
  obtain m1 where m1: "sigmap_add_step m (f, t) = Inr m1" "sigmap_inv m1" "mfp_fits (2 * length fts + n) m1"
    "mfp_rep m1 = connect_bits (mfp_rep m) (f, t)"
    by (rule sigmap_add_step_ok [of m "2 * length fts + n" f t]) (use Cons.prems in simp_all)
  then show ?case
    using Cons.IH [OF m1(2,3)] by (simp add: ft)
qed simp

lemma sigmap_add_ok:
  assumes "sigmap_inv m" "sig_inv from" "sig_inv to" "swidth from = swidth to"
    "mfp_fits (2 * length (sig_bits from) + n) m"
  shows "\<exists>m'. sigmap_add m from to = Inr m' \<and> sigmap_inv m' \<and> mfp_fits n m' \<and>
    mfp_rep m' = foldl connect_bits (mfp_rep m) (zip (sig_bits from) (sig_bits to))"
proof -
  obtain u where u: "sig_range from = Inr (sig_bits from, u)"
    by (rule sig_range_ok [OF assms(2)])
  obtain v where v: "sig_range to = Inr (sig_bits to, v)"
    by (rule sig_range_ok [OF assms(3)])
  have "length (zip (sig_bits from) (sig_bits to)) = length (sig_bits from)"
    using assms(2-4) by (simp add: sig_inv_width)
  then show ?thesis
    using sigmap_add_steps_ok [OF assms(1), of "zip (sig_bits from) (sig_bits to)" n] assms(4,5) u v
    by (simp add: sigmap_add_def)
qed

lemma apply_loop_ok:
  assumes "sigmap_inv m" "mfp_fits n m"
  shows "\<exists>m'. apply_loop m bs = Inr (map (mfp_rep m) bs, m') \<and> sigmap_inv m' \<and> mfp_fits n m' \<and> mfp_rep m' = mfp_rep m"
  using assms
proof (induction bs arbitrary: m)
  case (Cons b bs)
  obtain m1 where m1: "mfp_find bit_hash m b = Inr (mfp_rep m b, m1)" "sigmap_inv m1" "mfp_fits n m1" "mfp_rep m1 = mfp_rep m"
    using mfp_part.find_law [of bit_hash m n b] Cons.prems by (auto simp: sigmap_inv_def)
  then show ?case
    using Cons.IH [OF m1(2,3)] by (auto simp: sigmap_apply_bit_def)
qed simp

lemma sigmap_apply_ok:
  assumes "sigmap_inv m" "mfp_fits n m" "sig_inv s" "\<forall>b \<in> set (sig_bits s). bit_ok (mfp_rep m b)"
  shows "\<exists>r m'. sigmap_apply m s = Inr (r, m') \<and> sig_inv r \<and> sig_bits r = map (mfp_rep m) (sig_bits s) \<and>
    sigmap_inv m' \<and> mfp_fits n m' \<and> mfp_rep m' = mfp_rep m"
proof -
  obtain u where u: "sig_range s = Inr (sig_bits s, u)" "sbits u = sig_bits s" "schunks u = []" "swidth u = swidth s"
    by (rule sig_range_ok [OF assms(3)])
  obtain m' where m': "apply_loop m (sig_bits s) = Inr (map (mfp_rep m) (sig_bits s), m')" "sigmap_inv m'" "mfp_fits n m'"
    "mfp_rep m' = mfp_rep m"
    using apply_loop_ok [OF assms(1,2)] by blast
  let ?r = "u\<lparr>sbits := map (mfp_rep m) (sig_bits s)\<rparr>"
  have "list_all bit_ok (map (mfp_rep m) (sig_bits s))"
    using assms(4) by (simp add: list_all_iff)
  then have "sig_inv ?r" "sig_bits ?r = map (mfp_rep m) (sig_bits s)"
    using u assms(3) by (auto intro!: sig_unpacked_rep simp: sig_inv_width)
  then show ?thesis
    using u m' by (intro exI [of _ ?r] exI [of _ m']) (simp add: sigmap_apply_def)
qed

lemma mfp_reserve_clear_ok:
  assumes "12 * k \<le> max_table" "room (database m)"
  shows "mfp_inv hash (mfp_reserve (mfp_clear m) k)" "mfp_fits (2 * k) (mfp_reserve (mfp_clear m) k)"
    "mfp_rep (mfp_reserve (mfp_clear m) k) = (\<lambda>x. x)"
  using assms
  by (auto simp: mfp_inv_def mfp_keys_def mfp_rep_def mfp_fits_def fits_def room_def fun_eq_iff forest_def
      mfp_reserve_def mfp_clear_def idict_reserve_def idict_clear_def pool_reserve_def pool_clear_def table_reserve_def
      table_inv_def pool_inv_def elems_def chained_def)

lemma sigmap_adds_ok:
  assumes "sigmap_inv m" "\<forall>(from, to) \<in> set cs. sig_inv from \<and> sig_inv to \<and> swidth from = swidth to"
    "mfp_fits (2 * length (connected_pairs cs) + n) m"
  shows "\<exists>m'. foldE (\<lambda>m (from, to). sigmap_add m from to) m cs = Inr m' \<and> sigmap_inv m' \<and> mfp_fits n m' \<and>
    mfp_rep m' = foldl connect_bits (mfp_rep m) (connected_pairs cs)"
  using assms
proof (induction cs arbitrary: m)
  case (Cons c cs)
  obtain f t where c: "c = (f, t)" "sig_inv f" "sig_inv t" "swidth f = swidth t"
    using Cons.prems(2) by (cases c) auto
  have "length (connected_pairs (c # cs)) = length (sig_bits f) + length (connected_pairs cs)"
    using c by (simp add: connected_pairs_def sig_inv_width)
  then have "mfp_fits (2 * length (sig_bits f) + (2 * length (connected_pairs cs) + n)) m"
    using Cons.prems(3) by (simp add: algebra_simps)
  then obtain m1 where m1: "sigmap_add m f t = Inr m1" "sigmap_inv m1" "mfp_fits (2 * length (connected_pairs cs) + n) m1"
    "mfp_rep m1 = foldl connect_bits (mfp_rep m) (zip (sig_bits f) (sig_bits t))"
    using sigmap_add_ok [OF Cons.prems(1) c(2-4)] by blast
  then show ?case
    using Cons.IH [OF m1(2) _ m1(3)] Cons.prems(2) c(1) by (simp add: connected_pairs_def)
qed (simp add: connected_pairs_def)

text \<open>C17: \<open>SigMap(module)\<close> refines the specification of canonical names: from the identity, the connections
  of the module are joined bit by bit in order, and applying the map to a signal replaces every bit by
  the name the specification gives it.\<close>

theorem sigmap_refines_spec:
  assumes "\<forall>(from, to) \<in> set cs. sig_inv from \<and> sig_inv to \<and> swidth from = swidth to"
    "12 * length (connected_pairs cs) \<le> max_table"
  shows "\<exists>m. SigMap_module (Some cs) = Inr m \<and> sigmap_inv m \<and>
    mfp_rep m = foldl connect_bits (\<lambda>b. b) (connected_pairs cs) \<and>
    (\<forall>s. sig_inv s \<and> (\<forall>b \<in> set (sig_bits s). bit_ok (mfp_rep m b)) \<longrightarrow>
      (\<exists>r m'. sigmap_apply m s = Inr (r, m') \<and> sig_inv r \<and> mfp_rep m' = mfp_rep m \<and>
        sig_bits r = map (foldl connect_bits (\<lambda>b. b) (connected_pairs cs)) (sig_bits s)))"
proof -
  have "sum_list (map (\<lambda>c. swidth (fst c)) cs) = int (length (connected_pairs cs))"
    using assms(1) by (induction cs) (auto simp: connected_pairs_def sig_inv_width)
  moreover have r: "room (database (mfp_empty :: sigbit mfp))"
    by (simp add: mfp_empty_def pool_empty_def table_empty_def room_def)
  let ?m = "mfp_reserve (mfp_clear mfp_empty) (length (connected_pairs cs)) :: sigmap"
  have "sigmap_inv ?m" "mfp_fits (2 * length (connected_pairs cs) + 0) ?m"
    using mfp_reserve_clear_ok [OF assms(2) r] by (simp_all add: sigmap_inv_def)
  then obtain m where m: "foldE (\<lambda>m (from, to). sigmap_add m from to) ?m cs = Inr m" "sigmap_inv m" "mfp_fits 0 m"
    "mfp_rep m = foldl connect_bits (\<lambda>b. b) (connected_pairs cs)"
    using sigmap_adds_ok [OF _ assms(1), of ?m 0] unfolding mfp_reserve_clear_ok(3) [OF assms(2) r] by blast
  ultimately have "SigMap_module (Some cs) = Inr m"
    by (simp add: SigMap_module_def sigmap_set_def)
  moreover have "\<exists>r m'. sigmap_apply m s = Inr (r, m') \<and> sig_inv r \<and> mfp_rep m' = mfp_rep m \<and>
      sig_bits r = map (foldl connect_bits (\<lambda>b. b) (connected_pairs cs)) (sig_bits s)"
    if "sig_inv s" "\<forall>b \<in> set (sig_bits s). bit_ok (mfp_rep m b)" for s
    using sigmap_apply_ok [OF m(2,3) that] unfolding m(4) by blast
  ultimately show ?thesis
    using m(2,4) by blast
qed

lemma connect_same: "rep x = rep y \<Longrightarrow> foldl connect_bits rep fts x = foldl connect_bits rep fts y"
  by (induction fts arbitrary: rep) (simp_all add: connect_bits_def Let_def)

lemma connect_keeps_const:
  assumes "is_const_bit (rep x)"
  shows "foldl connect_bits rep fts x = rep x"
  using assms
proof (induction fts arbitrary: rep)
  case (Cons ft fts)
  have "connect_bits rep ft x = rep x"
    using Cons.prems by (auto simp: connect_bits_def Let_def)
  then show ?case
    using Cons.IH [of "connect_bits rep ft"] Cons.prems by simp
qed simp

lemma connect_joins:
  assumes "(f, t) \<in> set fts"
  shows "foldl connect_bits rep fts f = foldl connect_bits rep fts t \<or>
    is_const_bit (foldl connect_bits rep fts f) \<and> is_const_bit (foldl connect_bits rep fts t)"
  using assms
proof (induction fts arbitrary: rep)
  case (Cons ft fts)
  show ?case
  proof (cases "ft = (f, t)")
    case True
    show ?thesis
    proof (cases "is_const_bit (rep f) \<and> is_const_bit (rep t)")
      case both: True
      have e: "foldl connect_bits rep (ft # fts) f = rep f" "foldl connect_bits rep (ft # fts) t = rep t"
        by (rule connect_keeps_const, simp only: both)+
      show ?thesis
        unfolding e using both by (rule disjI2)
    next
      case False
      then have "connect_bits rep ft f = connect_bits rep ft t"
        using True by (auto simp: connect_bits_def Let_def)
      then show ?thesis
        unfolding foldl_Cons by (intro disjI1 connect_same)
    qed
  next
    case False
    then have "(f, t) \<in> set fts"
      using Cons.prems by auto
    then show ?thesis
      unfolding foldl_Cons by (rule Cons.IH)
  qed
qed simp

text \<open>C18: After \<open>add(from, to)\<close> corresponding bits have the same canonical name, unless both are connected to
  constants, which are never merged; names that were equal stay equal; a constant is its own name,
  so a wire connected to a constant is named by it; applying the map twice changes nothing more.\<close>

theorem sigmap_add_correct:
  assumes "sigmap_inv m" "sig_inv from" "sig_inv to" "swidth from = swidth to"
    "mfp_fits (2 * length (sig_bits from) + n) m"
  shows "\<exists>m'. sigmap_add m from to = Inr m' \<and> sigmap_inv m' \<and>
    (\<forall>(f, t) \<in> set (zip (sig_bits from) (sig_bits to)). mfp_rep m' f = mfp_rep m' t \<or>
       is_const_bit (mfp_rep m' f) \<and> is_const_bit (mfp_rep m' t)) \<and>
    (\<forall>x y. mfp_rep m x = mfp_rep m y \<longrightarrow> mfp_rep m' x = mfp_rep m' y) \<and>
    (\<forall>v. mfp_rep m' (Bit_state v) = Bit_state v) \<and> (\<forall>x. mfp_rep m' (mfp_rep m' x) = mfp_rep m' x)"
proof -
  obtain m' where m': "sigmap_add m from to = Inr m'" "sigmap_inv m'"
    "mfp_rep m' = foldl connect_bits (mfp_rep m) (zip (sig_bits from) (sig_bits to))"
    using sigmap_add_ok [OF assms] by blast
  have c: "mfp_inv bit_hash m'" "\<forall>v. mfp_rep m' (Bit_state v) = Bit_state v"
    using m'(2) by (simp_all add: sigmap_inv_def)
  have "\<forall>(f, t) \<in> set (zip (sig_bits from) (sig_bits to)). mfp_rep m' f = mfp_rep m' t \<or>
       is_const_bit (mfp_rep m' f) \<and> is_const_bit (mfp_rep m' t)"
    unfolding m'(3) using connect_joins by blast
  moreover have "\<forall>x y. mfp_rep m x = mfp_rep m y \<longrightarrow> mfp_rep m' x = mfp_rep m' y"
    unfolding m'(3) using connect_same by blast
  moreover have "\<forall>x. mfp_rep m' (mfp_rep m' x) = mfp_rep m' x"
    by (intro allI mfp_rep_idem [OF c(1)])
  ultimately show ?thesis
    using m'(1,2) c(2) by (intro exI [of _ m'] conjI)
qed

theorem sigmap_refines_spec_witness:
  "\<exists>m. SigMap_module (Some [(\<lparr>swidth = 1, shash = 0, schunks = [], sbits = [Bit_wire \<lparr>wire_ptr = 0, wire_name = 3, wire_width = 1\<rparr> 0]\<rparr>,
       \<lparr>swidth = 1, shash = 0, schunks = [], sbits = [Bit_state S1]\<rparr>)]) = Inr m \<and>
     mfp_rep m (Bit_wire \<lparr>wire_ptr = 0, wire_name = 3, wire_width = 1\<rparr> 0) = Bit_state S1"
proof -
  let ?w = "\<lparr>wire_ptr = 0, wire_name = 3, wire_width = 1\<rparr>"
  let ?f = "\<lparr>swidth = 1, shash = 0, schunks = [], sbits = [Bit_wire ?w 0]\<rparr>"
  let ?t = "\<lparr>swidth = 1, shash = 0, schunks = [], sbits = [Bit_state S1]\<rparr>"
  have i: "sig_inv ?f" "sig_inv ?t" "sig_bits ?f = [Bit_wire ?w 0]" "sig_bits ?t = [Bit_state S1]"
    by (simp_all add: sig_inv_def packed_def sig_bits_def)
  have p: "connected_pairs [(?f, ?t)] = [(Bit_wire ?w 0, Bit_state S1)]"
    by (simp add: connected_pairs_def i)
  have l: "12 * length (connected_pairs [(?f, ?t)]) \<le> max_table"
    unfolding p by (simp add: max_table_def)
  have c: "\<forall>(from, to) \<in> set [(?f, ?t)]. sig_inv from \<and> sig_inv to \<and> swidth from = swidth to"
    using i by simp
  from sigmap_refines_spec [OF c l] obtain m where m: "SigMap_module (Some [(?f, ?t)]) = Inr m"
    "mfp_rep m = foldl connect_bits (\<lambda>b. b) (connected_pairs [(?f, ?t)])"
    by (elim exE conjE)
  show ?thesis
    by (rule exI [of _ m], rule conjI, rule m(1), unfold m(2) p) (simp add: connect_bits_def is_const_bit_def)
qed

theorem sigmap_add_correct_witness:
  "\<exists>m'. sigmap_add mfp_empty \<lparr>swidth = 1, shash = 0, schunks = [], sbits = [Bit_wire \<lparr>wire_ptr = 0, wire_name = 3, wire_width = 1\<rparr> 0]\<rparr>
       \<lparr>swidth = 1, shash = 0, schunks = [], sbits = [Bit_state S1]\<rparr> = Inr m' \<and>
     mfp_rep m' (Bit_state S1) = Bit_state S1"
proof -
  let ?w = "\<lparr>wire_ptr = 0, wire_name = 3, wire_width = 1\<rparr>"
  let ?f = "\<lparr>swidth = 1, shash = 0, schunks = [], sbits = [Bit_wire ?w 0]\<rparr>"
  let ?t = "\<lparr>swidth = 1, shash = 0, schunks = [], sbits = [Bit_state S1]\<rparr>"
  have i: "sig_inv ?f" "sig_inv ?t" "sig_bits ?f = [Bit_wire ?w 0]" "sig_bits ?t = [Bit_state S1]"
    by (simp_all add: sig_inv_def packed_def sig_bits_def)
  have e: "sigmap_inv mfp_empty" "mfp_fits (2 * length (sig_bits ?f) + 0) (mfp_empty :: sigbit mfp)" "swidth ?f = swidth ?t"
    by (simp_all add: sigmap_inv_def mfp_empty_ok i max_table_def)
  from sigmap_add_correct [OF e(1) i(1,2) e(3,2)]
  obtain m' where "sigmap_add mfp_empty ?f ?t = Inr m'" "\<forall>v. mfp_rep m' (Bit_state v) = Bit_state v"
    by (elim exE conjE)
  then show ?thesis
    by (intro exI [of _ m']) simp
qed

section \<open>SigPool\<close>

text \<open>The wire bits of a signal as a set.\<close>

lemma wire_defs_set: "set (wire_defs bs) = {(w, i). Bit_wire w i \<in> set bs}"
proof -
  have "set (wire_defs bs) = {d. \<exists>b \<in> set bs. bitdef_of b = Some d}"
    by (auto simp: wire_defs_def List.map_filter_def image_iff) (metis option.sel)+
  also have "\<dots> = {(w, i). Bit_wire w i \<in> set bs}"
    by (auto elim!: bitdef_of.elims intro: bexI [of _ "Bit_wire _ _"])
  finally show ?thesis .
qed

lemma wire_defs_length: "length (wire_defs bs) \<le> length bs"
  by (simp add: wire_defs_def List.map_filter_def)

lemma sigpool_add_ok:
  assumes "pool_inv bitdef_hash p" "sig_inv sig" "fits (length (sig_bits sig) + n) p"
  shows "\<exists>p'. sigpool_add p sig = Inr p' \<and> pool_inv bitdef_hash p' \<and> fits n p' \<and>
    pool_set p' = pool_set p \<union> {(w, i). Bit_wire w i \<in> set (sig_bits sig)}"
proof -
  obtain u where u: "sig_range sig = Inr (sig_bits sig, u)"
    by (rule sig_range_ok [OF assms(2)])
  have "fits (length (wire_defs (sig_bits sig)) + n) p"
    using assms(3) by (rule fits_mono) (simp add: wire_defs_length)
  then obtain p' where "foldE pool_put p (wire_defs (sig_bits sig)) = Inr p'" "pool_inv bitdef_hash p'" "fits n p'"
    "pool_set p' = pool_set p \<union> set (wire_defs (sig_bits sig))"
    using pool_fs.ins_all [OF assms(1), of "wire_defs (sig_bits sig)" n] unfolding pool_put_def [abs_def] by blast
  then show ?thesis
    using u by (auto simp: sigpool_add_def wire_defs_set)
qed

lemma sigpool_del_ok:
  assumes "pool_inv bitdef_hash p" "sig_inv sig" "fits n p"
  shows "\<exists>p'. sigpool_del p sig = Inr p' \<and> pool_inv bitdef_hash p' \<and> fits n p' \<and>
    pool_set p' = pool_set p - {(w, i). Bit_wire w i \<in> set (sig_bits sig)}"
proof -
  obtain u where u: "sig_range sig = Inr (sig_bits sig, u)"
    by (rule sig_range_ok [OF assms(2)])
  obtain p' where "foldE pool_drop p (wire_defs (sig_bits sig)) = Inr p'" "pool_inv bitdef_hash p'" "fits n p'"
    "pool_set p' = pool_set p - set (wire_defs (sig_bits sig))"
    using pool_fs.del_all [OF assms(1,3), of "wire_defs (sig_bits sig)"] unfolding pool_drop_def [abs_def] by blast
  then show ?thesis
    using u by (auto simp: sigpool_del_def wire_defs_set)
qed

lemma sigpool_check_ok:
  assumes "pool_inv bitdef_hash p" "fits n p"
  shows "\<exists>p'. sigpool_check p b = Inr (in_pool p b, p') \<and>
      sigpool_absent p b = Inr (bit_wire b \<noteq> None \<and> \<not> in_pool p b, p') \<and>
      pool_inv bitdef_hash p' \<and> fits n p' \<and> pool_set p' = pool_set p"
proof (cases b)
  case (Bit_state v)
  then show ?thesis
    using assms by (simp add: sigpool_check_def sigpool_absent_def in_pool_def)
next
  case (Bit_wire w i)
  obtain p' where "pool_count bitdef_hash p (w, i) = Inr (if (w, i) \<in> pool_set p then 1 else 0, p')"
    "pool_inv bitdef_hash p'" "fits n p'" "pool_set p' = pool_set p"
    using pool_fs.has_law [OF assms] by blast
  then show ?thesis
    using Bit_wire by (intro exI [of _ p']) (simp add: sigpool_check_def sigpool_absent_def in_pool_def)
qed

lemma select_loop_ok:
  assumes "pool_inv bitdef_hash p" "fits n p" "sig_inv r" "list_all bit_ok bs"
    and test: "\<And>p b. pool_inv bitdef_hash p \<Longrightarrow> fits n p \<Longrightarrow>
      \<exists>p'. test p b = Inr (P (pool_set p) b, p') \<and> pool_inv bitdef_hash p' \<and> fits n p' \<and> pool_set p' = pool_set p"
  shows "\<exists>r' p'. select_loop test bs p r = Inr (r', p') \<and> sig_inv r' \<and>
    sig_bits r' = sig_bits r @ filter (P (pool_set p)) bs \<and> pool_inv bitdef_hash p' \<and> fits n p' \<and> pool_set p' = pool_set p"
  using assms(1-4)
proof (induction bs arbitrary: p r)
  case (Cons b bs)
  obtain p1 where p1: "test p b = Inr (P (pool_set p) b, p1)" "pool_inv bitdef_hash p1" "fits n p1" "pool_set p1 = pool_set p"
    using test [OF Cons.prems(1,2)] by blast
  obtain r1 where r1: "(if P (pool_set p) b then sig_append_bit r b else Inr r) = Inr r1" "sig_inv r1"
    "sig_bits r1 = sig_bits r @ (if P (pool_set p) b then [b] else [])"
  proof (cases "P (pool_set p) b")
    case True
    then show ?thesis
      using sig_append_bit_ok [OF Cons.prems(3), of b] Cons.prems(4) that by auto
  next
    case False
    then show ?thesis
      using Cons.prems(3) that [of r] by simp
  qed
  show ?case
    using Cons.IH [OF p1(2,3) r1(2)] Cons.prems(4) p1 r1 by (auto simp: if_distrib)
qed auto

lemma any_loop_ok:
  assumes "pool_inv bitdef_hash p" "fits n p"
    and test: "\<And>p b. pool_inv bitdef_hash p \<Longrightarrow> fits n p \<Longrightarrow>
      \<exists>p'. test p b = Inr (P (pool_set p) b, p') \<and> pool_inv bitdef_hash p' \<and> fits n p' \<and> pool_set p' = pool_set p"
  shows "\<exists>p'. any_loop test bs p = Inr (list_ex (P (pool_set p)) bs, p') \<and> pool_set p' = pool_set p"
  using assms(1,2)
proof (induction bs arbitrary: p)
  case (Cons b bs)
  obtain p1 where p1: "test p b = Inr (P (pool_set p) b, p1)" "pool_inv bitdef_hash p1" "fits n p1" "pool_set p1 = pool_set p"
    using test [OF Cons.prems] by blast
  show ?case
    using Cons.IH [OF p1(2,3)] p1(1,4) by auto
qed simp

text \<open>Membership as a predicate of the set, for the loops.\<close>

definition in_bits :: "(wire_t \<times> int) set \<Rightarrow> sigbit \<Rightarrow> bool" where
  "in_bits S b \<longleftrightarrow> (case bitdef_of b of None \<Rightarrow> False | Some d \<Rightarrow> d \<in> S)"

lemma in_pool_bits: "in_pool p = in_bits (pool_set p)"
  by (rule ext) (simp add: in_pool_def in_bits_def)

lemma sigpool_tests:
  assumes "pool_inv bitdef_hash p" "fits n p"
  shows "\<exists>p'. sigpool_check p b = Inr (in_bits (pool_set p) b, p') \<and> pool_inv bitdef_hash p' \<and> fits n p' \<and> pool_set p' = pool_set p"
    "\<exists>p'. sigpool_absent p b = Inr (bit_wire b \<noteq> None \<and> \<not> in_bits (pool_set p) b, p') \<and>
      pool_inv bitdef_hash p' \<and> fits n p' \<and> pool_set p' = pool_set p"
  using sigpool_check_ok [OF assms, of b] unfolding in_pool_bits by blast+

lemma sigpool_checks_ok:
  assumes "pool_inv bitdef_hash p" "fits n p" "sig_inv sig"
  shows "\<exists>p'. sigpool_check_any p sig = Inr (list_ex (in_pool p) (sig_bits sig), p') \<and> pool_set p' = pool_set p"
    "\<exists>p'. sigpool_check_all p sig = Inr (list_all (\<lambda>b. bit_wire b \<noteq> None \<longrightarrow> in_pool p b) (sig_bits sig), p') \<and> pool_set p' = pool_set p"
proof -
  obtain u where u: "sig_range sig = Inr (sig_bits sig, u)"
    by (rule sig_range_ok [OF assms(3)])
  show "\<exists>p'. sigpool_check_any p sig = Inr (list_ex (in_pool p) (sig_bits sig), p') \<and> pool_set p' = pool_set p"
    using any_loop_ok [OF assms(1,2), where P = in_bits and test = sigpool_check, OF sigpool_tests(1)] u by (auto simp: sigpool_check_any_def in_pool_bits)
  have e: "(\<not> list_ex (\<lambda>b. bit_wire b \<noteq> None \<and> \<not> in_bits S b) bs) = list_all (\<lambda>b. bit_wire b \<noteq> None \<longrightarrow> in_bits S b) bs" for S bs
    by (induction bs) auto
  have "\<exists>p'. any_loop sigpool_absent (sig_bits sig) p =
      Inr (list_ex (\<lambda>b. bit_wire b \<noteq> None \<and> \<not> in_bits (pool_set p) b) (sig_bits sig), p') \<and> pool_set p' = pool_set p"
    by (rule any_loop_ok [OF assms(1,2), where P = "\<lambda>S b. bit_wire b \<noteq> None \<and> \<not> in_bits S b"]) (rule sigpool_tests(2))
  then show "\<exists>p'. sigpool_check_all p sig = Inr (list_all (\<lambda>b. bit_wire b \<noteq> None \<longrightarrow> in_pool p b) (sig_bits sig), p') \<and>
      pool_set p' = pool_set p"
    using u e by (auto simp: sigpool_check_all_def in_pool_bits simp del: not_None_eq)
qed

text \<open>C23: \<open>SigPool\<close> is a set of wire bits: \<open>add\<close> and \<open>del\<close> are union and difference with the wire bits of a
  signal, \<open>extract\<close> and \<open>remove\<close> split the wire bits of a signal in order, \<open>check\<close> tests a bit for membership, \<open>check_any\<close> asks
  whether some bit of a signal is in the set and \<open>check_all\<close> whether all its wire bits are.  A test never changes the set.\<close>

theorem sigpool_correct:
  assumes "pool_inv bitdef_hash p" "sig_inv sig" "fits (length (sig_bits sig)) p"
  shows "(\<exists>p'. sigpool_add p sig = Inr p' \<and> pool_inv bitdef_hash p' \<and>
      pool_set p' = pool_set p \<union> {(w, i). Bit_wire w i \<in> set (sig_bits sig)}) \<and>
    (\<exists>p'. sigpool_del p sig = Inr p' \<and> pool_inv bitdef_hash p' \<and>
      pool_set p' = pool_set p - {(w, i). Bit_wire w i \<in> set (sig_bits sig)}) \<and>
    (\<exists>r p'. sigpool_extract p sig = Inr (r, p') \<and> sig_inv r \<and> pool_set p' = pool_set p \<and>
      sig_bits r = filter (in_pool p) (sig_bits sig)) \<and>
    (\<exists>r p'. sigpool_remove p sig = Inr (r, p') \<and> sig_inv r \<and> pool_set p' = pool_set p \<and>
      sig_bits r = filter (\<lambda>b. bit_wire b \<noteq> None \<and> \<not> in_pool p b) (sig_bits sig)) \<and>
    (\<exists>p'. sigpool_check p b = Inr (in_pool p b, p') \<and> pool_set p' = pool_set p) \<and>
    (\<exists>p'. sigpool_check_any p sig = Inr (list_ex (in_pool p) (sig_bits sig), p') \<and> pool_set p' = pool_set p) \<and>
    (\<exists>p'. sigpool_check_all p sig = Inr (list_all (\<lambda>b. bit_wire b \<noteq> None \<longrightarrow> in_pool p b) (sig_bits sig), p') \<and>
      pool_set p' = pool_set p)"
proof (intro conjI)
  show "\<exists>p'. sigpool_add p sig = Inr p' \<and> pool_inv bitdef_hash p' \<and>
      pool_set p' = pool_set p \<union> {(w, i). Bit_wire w i \<in> set (sig_bits sig)}"
    using sigpool_add_ok [OF assms(1,2), of 0] assms(3) by auto
  have f: "fits 0 p"
    using assms(3) by (rule fits_mono) simp
  show "\<exists>p'. sigpool_del p sig = Inr p' \<and> pool_inv bitdef_hash p' \<and>
      pool_set p' = pool_set p - {(w, i). Bit_wire w i \<in> set (sig_bits sig)}"
    using sigpool_del_ok [OF assms(1,2) f] by blast
  obtain u where u: "sig_range sig = Inr (sig_bits sig, u)"
    by (rule sig_range_ok [OF assms(2)])
  note loop = select_loop_ok [OF assms(1) f sig_empty_ok(1) sig_inv_bit_ok [OF assms(2)]]
  show "\<exists>r p'. sigpool_extract p sig = Inr (r, p') \<and> sig_inv r \<and> pool_set p' = pool_set p \<and>
      sig_bits r = filter (in_pool p) (sig_bits sig)"
    using loop [where P = in_bits and test = sigpool_check, OF sigpool_tests(1)] u by (auto simp: sigpool_extract_def in_pool_bits)
  show "\<exists>r p'. sigpool_remove p sig = Inr (r, p') \<and> sig_inv r \<and> pool_set p' = pool_set p \<and>
      sig_bits r = filter (\<lambda>b. bit_wire b \<noteq> None \<and> \<not> in_pool p b) (sig_bits sig)"
    using loop [where P = "\<lambda>S b. bit_wire b \<noteq> None \<and> \<not> in_bits S b" and test = sigpool_absent, OF sigpool_tests(2)] u
    by (auto simp: sigpool_remove_def in_pool_bits)
  show "\<exists>p'. sigpool_check p b = Inr (in_pool p b, p') \<and> pool_set p' = pool_set p"
    using sigpool_tests(1) [OF assms(1) f, of b] unfolding in_pool_bits by blast
qed (rule sigpool_checks_ok [OF assms(1,3,2)])+

theorem sigpool_correct_witness:
  "let w = \<lparr>wire_ptr = 0, wire_name = 3, wire_width = 1\<rparr> in
   \<exists>p'. sigpool_add pool_empty \<lparr>swidth = 2, shash = 0, schunks = [], sbits = [Bit_wire w 0, Bit_state S1]\<rparr> = Inr p' \<and>
     pool_set p' = {(w, 0)}"
proof -
  let ?w = "\<lparr>wire_ptr = 0, wire_name = 3, wire_width = 1\<rparr>"
  let ?s = "\<lparr>swidth = 2, shash = 0, schunks = [], sbits = [Bit_wire ?w 0, Bit_state S1]\<rparr>"
  have i: "sig_inv ?s" "sig_bits ?s = [Bit_wire ?w 0, Bit_state S1]"
    by (simp_all add: sig_inv_def packed_def sig_bits_def)
  have "fits (length (sig_bits ?s)) (pool_empty :: sigpool)"
    by (simp add: pool_empty_ok i max_table_def)
  from sigpool_correct [OF pool_empty_ok(1) i(1) this, of "Bit_state S0"] show ?thesis
    by (auto simp: i Let_def pool_empty_ok)
qed

section \<open>SigSet\<close>

lemma std_insert_idem: "\<not> lt x x \<Longrightarrow> std_insert lt (std_insert lt xs x) x = std_insert lt xs x"
  by (induction xs) auto

lemma sigset_each_ok:
  assumes "dict_inv bitdef_hash m" "sig_inv sig" "fits (length (sig_bits sig) + n) m" "\<And>v. f (f v) = f v"
  shows "\<exists>m'. sigset_each m sig f = Inr m' \<and> dict_inv bitdef_hash m' \<and> fits n m' \<and>
    dict_map m' = (\<lambda>d. if d \<in> {(w, i). Bit_wire w i \<in> set (sig_bits sig)} then Some (f (sigset_value m d)) else dict_map m d)"
proof -
  obtain u where u: "sig_range sig = Inr (sig_bits sig, u)"
    by (rule sig_range_ok [OF assms(2)])
  have f: "fits (length (wire_defs (sig_bits sig)) + n) m"
    using assms(3) by (rule fits_mono) (simp add: wire_defs_length)
  show ?thesis
    using dict_fm.modify_all [where f = f and d = "[]", OF assms(4,1) f] u
    unfolding dict_fm.value_at_def [abs_def] sigset_value_def wire_defs_set by (auto simp: sigset_each_def)
qed

text \<open>C16: \<open>SigSet\<close> maps wire bits to ordered sets: \<open>insert\<close> adds the value to the set of every wire bit of the
  signal and \<open>erase\<close> empties the sets, leaving all other bits alone.  An emptied bit keeps its entry.\<close>

theorem sigset_correct:
  assumes "dict_inv bitdef_hash m" "sig_inv sig" "fits (length (sig_bits sig)) m" "\<not> lt x x"
  shows "(\<exists>m'. sigset_insert lt m sig x = Inr m' \<and> dict_inv bitdef_hash m' \<and>
      (\<forall>d. sigset_value m' d = (if Bit_wire (fst d) (snd d) \<in> set (sig_bits sig)
         then std_insert lt (sigset_value m d) x else sigset_value m d))) \<and>
    (\<exists>m'. sigset_erase m sig = Inr m' \<and> dict_inv bitdef_hash m' \<and>
      (\<forall>d. dict_map m' d = (if Bit_wire (fst d) (snd d) \<in> set (sig_bits sig) then Some [] else dict_map m d)))"
proof (intro conjI)
  have "\<exists>m'. sigset_each m sig (\<lambda>xs. std_insert lt xs x) = Inr m' \<and> dict_inv bitdef_hash m' \<and> fits 0 m' \<and>
      dict_map m' = (\<lambda>d. if d \<in> {(w, i). Bit_wire w i \<in> set (sig_bits sig)}
        then Some (std_insert lt (sigset_value m d) x) else dict_map m d)"
    by (rule sigset_each_ok [OF assms(1,2)]) (simp_all add: assms(3) std_insert_idem [of lt x, OF assms(4)])
  then show "\<exists>m'. sigset_insert lt m sig x = Inr m' \<and> dict_inv bitdef_hash m' \<and>
      (\<forall>d. sigset_value m' d = (if Bit_wire (fst d) (snd d) \<in> set (sig_bits sig)
         then std_insert lt (sigset_value m d) x else sigset_value m d))"
    by (auto simp: sigset_insert_def sigset_value_def split_beta)
  have "\<exists>m'. sigset_each m sig (\<lambda>_. []) = Inr m' \<and> dict_inv bitdef_hash m' \<and> fits 0 m' \<and>
      dict_map m' = (\<lambda>d. if d \<in> {(w, i). Bit_wire w i \<in> set (sig_bits sig)} then Some [] else dict_map m d)"
    by (rule sigset_each_ok [OF assms(1,2)]) (simp_all add: assms(3))
  then show "\<exists>m'. sigset_erase m sig = Inr m' \<and> dict_inv bitdef_hash m' \<and>
      (\<forall>d. dict_map m' d = (if Bit_wire (fst d) (snd d) \<in> set (sig_bits sig) then Some [] else dict_map m d))"
    by (auto simp: sigset_erase_def split_beta)
qed

theorem sigset_correct_witness:
  "let w = \<lparr>wire_ptr = 0, wire_name = 3, wire_width = 1\<rparr> in
   \<exists>m'. sigset_insert (<) dict_empty \<lparr>swidth = 1, shash = 0, schunks = [], sbits = [Bit_wire w 0]\<rparr> (7 :: int) = Inr m' \<and>
     sigset_value m' (w, 0) = [7]"
proof -
  let ?w = "\<lparr>wire_ptr = 0, wire_name = 3, wire_width = 1\<rparr>"
  let ?s = "\<lparr>swidth = 1, shash = 0, schunks = [], sbits = [Bit_wire ?w 0]\<rparr>"
  have i: "sig_inv ?s" "sig_bits ?s = [Bit_wire ?w 0]"
    by (simp_all add: sig_inv_def packed_def sig_bits_def)
  have d: "dict_inv bitdef_hash (dict_empty :: int sigset)" "fits (length (sig_bits ?s)) (dict_empty :: int sigset)"
    "sigset_value (dict_empty :: int sigset) (?w, 0) = []"
    by (simp_all add: dict_inv_def dict_empty_def table_empty_ok i max_table_def sigset_value_def dict_map_def)
  from sigset_correct [OF d(1) i(1) d(2), of "(<)" 7]
  obtain m' where m': "sigset_insert (<) dict_empty ?s (7 :: int) = Inr m'"
    "\<forall>d. sigset_value m' d = (if Bit_wire (fst d) (snd d) \<in> set (sig_bits ?s)
         then std_insert (<) (sigset_value dict_empty d) 7 else sigset_value dict_empty d)"
    by auto
  then show ?thesis
    by (simp add: Let_def i d(3))
qed

end
