(* ===== verification/ManticoreUtils.thy ===== *)
theory ManticoreUtils
  imports SigTools
begin

text \<open>
  The helpers of \<open>passes/manticore/manticore_utils.cc\<close> and \<open>.h\<close>: splitting a string at a delimiter, and
  the run-length description of a signal by its repeated bits.
\<close>

section \<open>Splitting\<close>

text \<open>The remaining string stands for \<open>original\<close> from \<open>start\<close> on; \<open>find\<close> gives the length of the token.\<close>

definition find_char :: "char \<Rightarrow> string \<Rightarrow> nat option" where
  "find_char delim s = (let n = length (takeWhile (\<lambda>c. c \<noteq> delim) s) in if n < length s then Some n else None)"

lemma find_char_less: "find_char delim s = Some n \<Longrightarrow> n < length s"
  by (simp add: find_char_def Let_def split: if_splits)

function split_loop :: "char \<Rightarrow> string \<Rightarrow> string list" where
  "split_loop delim s =
     (case find_char delim s of
        None \<Rightarrow> [s]
      | Some n \<Rightarrow> take n s # split_loop delim (drop (Suc n) s))"
  by pat_completeness auto
termination
  by (relation "measure (\<lambda>(_, s). length s)") (auto dest: find_char_less)

declare split_loop.simps [simp del]

definition split :: "string \<Rightarrow> char \<Rightarrow> string list" where
  "split original delim = (if original = [] then [] else split_loop delim original)"

section \<open>Repeated bits\<close>

record repeat_pattern =
  pat_bit :: sigbit
  pat_width :: int
  pat_offset :: int

record repeat_builder =
  current_bit :: sigbit
  bwidth :: int
  bpos :: int
  bres :: "repeat_pattern list"

definition BitRepeatBuilder :: "sigbit \<Rightarrow> repeat_builder" where
  "BitRepeatBuilder first = \<lparr>current_bit = first, bwidth = 0, bpos = 0, bres = []\<rparr>"

definition consume :: "repeat_builder \<Rightarrow> sigbit \<Rightarrow> repeat_builder" where
  "consume bu b =
     (if current_bit bu = b then bu\<lparr>bwidth := bwidth bu + 1\<rparr>
      else bu\<lparr>bres := bres bu @ [\<lparr>pat_bit = current_bit bu, pat_width = bwidth bu, pat_offset = bpos bu\<rparr>],
              bpos := bpos bu + bwidth bu, bwidth := 1, current_bit := b\<rparr>)"

definition build :: "repeat_builder \<Rightarrow> repeat_pattern list" where
  "build bu =
     (if bwidth bu \<noteq> 0
      then bres bu @ [\<lparr>pat_bit = current_bit bu, pat_width = bwidth bu, pat_offset = bpos bu\<rparr>]
      else [])"

text \<open>The patterns of a list of canonical bits, which starts with the bit the builder is made for.\<close>

definition repeats_of :: "sigbit list \<Rightarrow> repeat_pattern list" where
  "repeats_of bs = build (foldl consume (BitRepeatBuilder (hd bs)) bs)"

definition getRepeats :: "sigspec \<Rightarrow> sigmap \<Rightarrow> (repeat_pattern list \<times> sigspec \<times> sigmap) res" where
  "getRepeats sig sigmap =
     bindE (to_sigbit_vector sig) (\<lambda>(bs, sig).
     guardE (bs \<noteq> []) Log_error (
     bindE (sigmap_apply_bit sigmap (hd bs)) (\<lambda>(bit0, sigmap).
     bindE (foldE (\<lambda>(bu, sigmap) b. bindE (sigmap_apply_bit sigmap b) (\<lambda>(b, sigmap). Inr (consume bu b, sigmap)))
              (BitRepeatBuilder bit0, sigmap) bs) (\<lambda>(bu, sigmap).
     Inr (build bu, sig, sigmap)))))"

definition expand :: "repeat_pattern list \<Rightarrow> sigbit list" where
  "expand ps = concat (map (\<lambda>p. replicate (nat (pat_width p)) (pat_bit p)) ps)"

fun offsets_from :: "int \<Rightarrow> repeat_pattern list \<Rightarrow> bool" where
  "offsets_from n [] \<longleftrightarrow> True"
| "offsets_from n (p # ps) \<longleftrightarrow> pat_offset p = n \<and> pat_width p > 0 \<and> offsets_from (n + pat_width p) ps"

definition run_inv :: "sigbit \<Rightarrow> sigbit list \<Rightarrow> repeat_builder \<Rightarrow> bool" where
  "run_inv b0 bs bu \<longleftrightarrow>
     expand (bres bu) @ replicate (nat (bwidth bu)) (current_bit bu) = bs \<and> offsets_from 0 (bres bu) \<and>
     bpos bu = int (length (expand (bres bu))) \<and> bwidth bu \<ge> 0 \<and> (bs \<noteq> [] \<longrightarrow> bwidth bu > 0) \<and>
     (bs = [] \<longrightarrow> bres bu = [] \<and> current_bit bu = b0) \<and>
     distinct_adj (map pat_bit (bres bu) @ [current_bit bu])"

section \<open>Properties of split\<close>

text \<open>Joining with the delimiter is the inverse.\<close>

fun join :: "char \<Rightarrow> string list \<Rightarrow> string" where
  "join delim [] = []"
| "join delim [p] = p"
| "join delim (p # q # ps) = p @ delim # join delim (q # ps)"

lemma find_char_None: "find_char delim s = None \<longleftrightarrow> delim \<notin> set s"
proof -
  have "length (takeWhile (\<lambda>c. c \<noteq> delim) s) < length s \<longleftrightarrow> delim \<in> set s"
    by (metis (mono_tags, lifting) length_takeWhile_le nat_less_le takeWhile_eq_all_conv takeWhile_eq_take take_all_iff nat_le_linear)
  then show ?thesis by (simp add: find_char_def Let_def)
qed

lemma find_char_Some:
  "find_char delim s = Some n \<Longrightarrow> s = take n s @ delim # drop (Suc n) s \<and> delim \<notin> set (take n s)"
proof -
  assume f: "find_char delim s = Some n"
  then have n: "n = length (takeWhile (\<lambda>c. c \<noteq> delim) s)" "n < length s"
    by (simp_all add: find_char_def Let_def split: if_splits)
  have "s ! n = delim"
    using nth_length_takeWhile [of "\<lambda>c. c \<noteq> delim" s] n by simp
  then have "s = take n s @ delim # drop (Suc n) s"
    using n(2) by (metis id_take_nth_drop)
  moreover have "delim \<notin> set (take n s)"
    using n(1) by (metis set_takeWhileD takeWhile_eq_take)
  ultimately show ?thesis by simp
qed

lemma split_loop_not_Nil: "split_loop delim s \<noteq> []"
  by (subst split_loop.simps) (simp split: option.splits)

lemma split_loop_join: "join delim (split_loop delim s) = s \<and> (\<forall>p \<in> set (split_loop delim s). delim \<notin> set p)"
proof (induction delim s rule: split_loop.induct)
  case (1 delim s)
  show ?case
  proof (cases "find_char delim s")
    case None
    then show ?thesis
      by (subst (1 2) split_loop.simps) (simp add: find_char_None [symmetric])
  next
    case (Some n)
    note ih = 1 [OF Some] and f = find_char_Some [OF Some]
    obtain q qs where q: "split_loop delim (drop (Suc n) s) = q # qs"
      using split_loop_not_Nil by (meson neq_Nil_conv)
    have "split_loop delim s = take n s # q # qs"
      using Some q by (subst split_loop.simps) simp
    then show ?thesis
      using ih f q by auto
  qed
qed

text \<open>C8: \<open>split\<close> cuts a string exactly at the delimiters: no part contains one, joining the parts gives the
  string back, and the empty string has no parts.\<close>

theorem split_join:
  "join delim (split s delim) = s \<and> (\<forall>p \<in> set (split s delim). delim \<notin> set p) \<and>
   (split s delim = [] \<longleftrightarrow> s = [])"
  using split_loop_join [of delim s] split_loop_not_Nil [of delim s] by (simp add: split_def)

theorem split_join_witness: "split ''a,,b'' CHR '','' = [''a'', '''', ''b''] \<and> join CHR '','' (split ''a,,b'' CHR '','') = ''a,,b''"
  using split_join [of "CHR '',''" "''a,,b''"] by (simp add: split_def split_loop.simps find_char_def)

section \<open>Properties of the patterns\<close>

lemma expand_snoc: "expand (ps @ [p]) = expand ps @ replicate (nat (pat_width p)) (pat_bit p)"
  by (simp add: expand_def)

lemma expand_Cons: "expand (p # ps) = replicate (nat (pat_width p)) (pat_bit p) @ expand ps"
  by (simp add: expand_def)

lemma expand_Nil [simp]: "expand [] = []"
  by (simp add: expand_def)

lemma offsets_from_snoc:
  "offsets_from n (ps @ [p]) \<longleftrightarrow> offsets_from n ps \<and> pat_offset p = n + int (length (expand ps)) \<and> pat_width p > 0"
proof (induction ps arbitrary: n)
  case (Cons q ps)
  show ?case
    unfolding append_Cons offsets_from.simps Cons.IH by (auto simp: expand_Cons)
qed simp

lemma run_inv_consume:
  assumes "run_inv b0 bs bu" "bs = [] \<longrightarrow> b = b0"
  shows "run_inv b0 (bs @ [b]) (consume bu b)"
proof -
  have e: "expand (bres bu) @ replicate (nat (bwidth bu)) (current_bit bu) = bs"
    and o: "offsets_from 0 (bres bu)" "bpos bu = int (length (expand (bres bu)))"
    and w: "bwidth bu \<ge> 0" "bs \<noteq> [] \<longrightarrow> bwidth bu > 0"
    and f: "bs = [] \<longrightarrow> current_bit bu = b0"
    and d: "distinct_adj (map pat_bit (bres bu) @ [current_bit bu])"
    using assms(1) by (simp_all add: run_inv_def)
  show ?thesis
  proof (cases "current_bit bu = b")
    case True
    have "nat (bwidth bu + 1) = Suc (nat (bwidth bu))"
      using w(1) by linarith
    moreover have "replicate (Suc (nat (bwidth bu))) b = replicate (nat (bwidth bu)) b @ [b]"
      by (simp add: replicate_append_same)
    ultimately show ?thesis
      using True e o w d by (simp add: run_inv_def consume_def flip: append_assoc)
  next
    case False
    then have "bwidth bu > 0"
      using w f assms(2) by blast
    moreover have "distinct_adj (map pat_bit (bres bu) @ [current_bit bu, b])"
      using d False distinct_adj_append_iff [of "map pat_bit (bres bu) @ [current_bit bu]" "[b]"] by simp
    moreover have "length (expand (bres bu)) + nat (bwidth bu) = length bs"
      unfolding e [symmetric] by simp
    ultimately show ?thesis
      using False e o by (simp add: run_inv_def consume_def expand_snoc offsets_from_snoc)
  qed
qed

lemma run_inv_all: "bs = [] \<or> hd bs = b0 \<Longrightarrow> run_inv b0 bs (foldl consume (BitRepeatBuilder b0) bs)"
proof (induction bs rule: rev_induct)
  case Nil
  then show ?case
    by (simp add: run_inv_def BitRepeatBuilder_def)
next
  case (snoc b bs)
  have "run_inv b0 bs (foldl consume (BitRepeatBuilder b0) bs)"
    by (rule snoc.IH) (use snoc.prems in \<open>cases bs; simp\<close>)
  then show ?case
    using run_inv_consume [of b0 bs _ b] snoc.prems by (cases bs) simp_all
qed

lemma repeats_of_ok:
  assumes "bs \<noteq> []"
  shows "expand (repeats_of bs) = bs" "offsets_from 0 (repeats_of bs)" "distinct_adj (map pat_bit (repeats_of bs))"
proof -
  have c: "run_inv (hd bs) bs (foldl consume (BitRepeatBuilder (hd bs)) bs)"
    by (rule run_inv_all) simp
  show "expand (repeats_of bs) = bs" "offsets_from 0 (repeats_of bs)" "distinct_adj (map pat_bit (repeats_of bs))"
    using c assms by (auto simp: run_inv_def repeats_of_def build_def expand_snoc offsets_from_snoc)
qed

lemma getRepeats_fold:
  assumes "sigmap_inv m" "mfp_fits n m"
  shows "\<exists>m'. foldE (\<lambda>(bu, m) b. bindE (sigmap_apply_bit m b) (\<lambda>(b, m). Inr (consume bu b, m))) (bu, m) bs
      = Inr (foldl consume bu (map (mfp_rep m) bs), m') \<and> sigmap_inv m' \<and> mfp_fits n m' \<and> mfp_rep m' = mfp_rep m"
  using assms
proof (induction bs arbitrary: bu m)
  case (Cons b bs)
  obtain m1 where m1: "sigmap_apply_bit m b = Inr (mfp_rep m b, m1)" "sigmap_inv m1" "mfp_fits n m1" "mfp_rep m1 = mfp_rep m"
    using mfp_part.find_law [of bit_hash m n b] Cons.prems by (auto simp: sigmap_inv_def sigmap_apply_bit_def)
  obtain m2 where "foldE (\<lambda>(bu, m) b. bindE (sigmap_apply_bit m b) (\<lambda>(b, m). Inr (consume bu b, m)))
      (consume bu (mfp_rep m b), m1) bs = Inr (foldl consume (consume bu (mfp_rep m b)) (map (mfp_rep m1) bs), m2)"
    "sigmap_inv m2" "mfp_fits n m2" "mfp_rep m2 = mfp_rep m1"
    using Cons.IH [OF m1(2,3)] by blast
  then show ?case
    using m1(1,4) by (intro exI [of _ m2]) simp
qed simp

text \<open>C9: \<open>getRepeats\<close> describes the canonical bits of a signal as maximal runs: expanding the patterns gives the
  bits back, the offsets are the positions of the runs, every run is non-empty, and neighbouring runs
  have different bits.  An empty signal is an error.\<close>

theorem getRepeats_correct:
  assumes "sig_inv sig" "sigmap_inv m" "mfp_fits n m"
  shows "if sig_bits sig = [] then getRepeats sig m = Inl Log_error
    else \<exists>ps sig' m'. getRepeats sig m = Inr (ps, sig', m') \<and> expand ps = map (mfp_rep m) (sig_bits sig) \<and>
      offsets_from 0 ps \<and> distinct_adj (map pat_bit ps) \<and> sig_bits sig' = sig_bits sig \<and> mfp_rep m' = mfp_rep m"
proof -
  obtain u where u: "sig_unpack sig = Inr u" "sig_bits u = sig_bits sig" "sbits u = sig_bits sig"
    by (rule sig_unpack_ok [OF assms(1)]) blast
  show ?thesis
  proof (cases "sig_bits sig = []")
    case True
    then show ?thesis
      using u by (simp add: getRepeats_def to_sigbit_vector_def)
  next
    case False
    obtain m1 where m1: "sigmap_apply_bit m (hd (sig_bits sig)) = Inr (mfp_rep m (hd (sig_bits sig)), m1)"
      "sigmap_inv m1" "mfp_fits n m1" "mfp_rep m1 = mfp_rep m"
      using mfp_part.find_law [of bit_hash m n "hd (sig_bits sig)"] assms(2,3) by (auto simp: sigmap_inv_def sigmap_apply_bit_def)
    obtain m2 where m2: "foldE (\<lambda>(bu, m) b. bindE (sigmap_apply_bit m b) (\<lambda>(b, m). Inr (consume bu b, m)))
        (BitRepeatBuilder (mfp_rep m (hd (sig_bits sig))), m1) (sig_bits sig) =
        Inr (foldl consume (BitRepeatBuilder (mfp_rep m (hd (sig_bits sig)))) (map (mfp_rep m1) (sig_bits sig)), m2)"
      "mfp_rep m2 = mfp_rep m1"
      using getRepeats_fold [OF m1(2,3)] by blast
    have hd: "mfp_rep m (hd (sig_bits sig)) = hd (map (mfp_rep m) (sig_bits sig))"
      using False by (simp add: hd_map)
    have "getRepeats sig m = Inr (repeats_of (map (mfp_rep m) (sig_bits sig)), u, m2)"
      using u False m1(1) m2(1) [unfolded m1(4)]
      by (simp add: getRepeats_def to_sigbit_vector_def repeats_of_def hd)
    moreover have "map (mfp_rep m) (sig_bits sig) \<noteq> []"
      using False by simp
    note repeats_of_ok [OF this]
    moreover have "mfp_rep m2 = mfp_rep m"
      by (simp only: m1(4) m2(2))
    ultimately show ?thesis
      unfolding if_not_P [OF False] using u(2) by blast
  qed
qed

theorem getRepeats_correct_witness:
  "\<exists>ps sig' m'. getRepeats \<lparr>swidth = 3, shash = 0, schunks = [], sbits = [Bit_state S0, Bit_state S0, Bit_state S1]\<rparr> mfp_empty
     = Inr (ps, sig', m') \<and> expand ps = [Bit_state S0, Bit_state S0, Bit_state S1]"
proof -
  let ?s = "\<lparr>swidth = 3, shash = 0, schunks = [], sbits = [Bit_state S0, Bit_state S0, Bit_state S1]\<rparr>"
  have s: "sig_inv ?s" "sig_bits ?s = [Bit_state S0, Bit_state S0, Bit_state S1]"
    by (simp_all add: sig_inv_def packed_def sig_bits_def)
  have m: "sigmap_inv mfp_empty" "mfp_fits 0 (mfp_empty :: sigbit mfp)" "mfp_rep (mfp_empty :: sigbit mfp) = (\<lambda>x. x)"
    by (simp_all add: sigmap_inv_def mfp_empty_ok)
  show ?thesis
    using getRepeats_correct [OF s(1) m(1,2), unfolded s(2) m(3)] by auto
qed

end
