(* ===== verification/Netlist.thy ===== *)
theory Netlist
  imports ManticoreUtils
begin

text \<open>
  The parts of a netlist the Manticore passes read: objects with attributes (\<open>AttrObject\<close>), cells with
  parameters and ports, memories and modules, \<open>kernel/rtlil.h\<close> and \<open>kernel/rtlil.cc\<close>.  A signal of a
  port is given by its bits; \<open>sig_bits\<close> of theory SigSpec relates the two, and the chunks of a signal are
  the canonical ones of its bits (\<open>sig_pack_ok\<close>).  Identifiers are strings; the leading backslash of the names of ports,
  parameters and attributes (\<open>ID::A\<close> is \<open>\A\<close>) is left out.
\<close>

section \<open>Attributes\<close>

type_synonym attrs = "(string \<times> const_t) list"

definition has_attribute :: "attrs \<Rightarrow> string \<Rightarrow> bool" where
  "has_attribute a name \<longleftrightarrow> map_of a name \<noteq> None"

definition get_bool_attribute :: "attrs \<Rightarrow> string \<Rightarrow> bool" where
  "get_bool_attribute a name = (case map_of a name of None \<Rightarrow> False | Some v \<Rightarrow> as_bool v)"

definition get_string_attribute :: "attrs \<Rightarrow> string \<Rightarrow> string" where
  "get_string_attribute a name = (case map_of a name of None \<Rightarrow> [] | Some v \<Rightarrow> decode_string v)"

definition get_const_attribute :: "attrs \<Rightarrow> string \<Rightarrow> const_t" where
  "get_const_attribute a name = (case map_of a name of None \<Rightarrow> Const_empty | Some v \<Rightarrow> v)"

definition get_src_attribute :: "attrs \<Rightarrow> string" where
  "get_src_attribute a = get_string_attribute a ''src''"

section \<open>Cells, memories and modules\<close>

record cell_t =
  cell_ptr :: nat
  cell_name :: string
  cell_type :: string
  cell_params :: "(string \<times> const_t) list"
  cell_ports :: "(string \<times> sigbit list) list"
  cell_attrs :: attrs

text \<open>\<open>parameters.at\<close> and \<open>connections_.at\<close> throw on a missing key.  When the type of a cell
  is a module of the design \<open>getParam\<close> falls back on the default value that module has; the cells here are primitive ones.\<close>

definition hasParam :: "cell_t \<Rightarrow> string \<Rightarrow> bool" where
  "hasParam c name \<longleftrightarrow> map_of (cell_params c) name \<noteq> None"

definition getParam :: "cell_t \<Rightarrow> string \<Rightarrow> const_t res" where
  "getParam c name = (case map_of (cell_params c) name of None \<Rightarrow> Inl Out_of_range | Some v \<Rightarrow> Inr v)"

definition getPort :: "cell_t \<Rightarrow> string \<Rightarrow> sigbit list res" where
  "getPort c name = (case map_of (cell_ports c) name of None \<Rightarrow> Inl Out_of_range | Some v \<Rightarrow> Inr v)"

abbreviation param_int :: "cell_t \<Rightarrow> string \<Rightarrow> int res" where
  "param_int c name \<equiv> bindE (getParam c name) (\<lambda>v. as_int v False)"

abbreviation param_bool :: "cell_t \<Rightarrow> string \<Rightarrow> bool res" where
  "param_bool c name \<equiv> bindE (getParam c name) (\<lambda>v. Inr (as_bool v))"

abbreviation param_string :: "cell_t \<Rightarrow> string \<Rightarrow> string res" where
  "param_string c name \<equiv> bindE (getParam c name) (\<lambda>v. Inr (decode_string v))"

record memory_t =
  mem_name :: string
  mem_width :: int
  mem_start_offset :: int
  mem_size :: int
  mem_attrs :: attrs

text \<open>What the Manticore passes read of a module: the names and attributes of its wires, its cells, memories and
  connections in the order the containers give them, and the alias map of its \<open>SigMap\<close>.\<close>

record module_t =
  mod_wire_name :: "wire_t \<Rightarrow> string"
  mod_wire_attrs :: "wire_t \<Rightarrow> attrs"
  mod_cells :: "cell_t list"
  mod_memories :: "(string \<times> memory_t) list"
  mod_connections :: "(sigbit list \<times> sigbit list) list"
  mod_sigmap :: "sigbit \<Rightarrow> sigbit"

section \<open>Numbers in text\<close>

text \<open>Decimal digits, as \<open>%d\<close> and \<open>operator<<\<close> print them.\<close>

function print_nat :: "nat \<Rightarrow> string" where
  "print_nat n = (if n < 10 then [char_of (48 + n)] else print_nat (n div 10) @ [char_of (48 + n mod 10)])"
  by auto
termination
  by (relation "measure id") auto

declare print_nat.simps [simp del]

definition print_int :: "int \<Rightarrow> string" where
  "print_int i = (if i < 0 then CHR ''-'' # print_nat (nat (- i)) else print_nat (nat i))"

text \<open>\<open>std::stoi\<close>: blanks, a sign, then digits; it throws when there is no digit and when the number is not an
  \<open>int\<close>.\<close>

definition is_space :: "char \<Rightarrow> bool" where
  "is_space c \<longleftrightarrow> (let n = (of_char c :: nat) in n = 32 \<or> 9 \<le> n \<and> n \<le> 13)"

definition is_digit :: "char \<Rightarrow> bool" where
  "is_digit c \<longleftrightarrow> (let n = (of_char c :: nat) in 48 \<le> n \<and> n \<le> 57)"

definition digits_value :: "string \<Rightarrow> int" where
  "digits_value ds = foldl (\<lambda>v c. 10 * v + (of_char c - 48)) 0 ds"

definition stoi :: "string \<Rightarrow> int res" where
  "stoi s =
     (let t = dropWhile is_space s;
          neg = (t \<noteq> [] \<and> hd t = CHR ''-'');
          u = (if t \<noteq> [] \<and> (hd t = CHR ''-'' \<or> hd t = CHR ''+'') then tl t else t);
          ds = takeWhile is_digit u;
          v = (if neg then - digits_value ds else digits_value ds)
      in guardE (ds \<noteq> []) Invalid_argument (guardE (- (2 ^ 31) \<le> v \<and> v < 2 ^ 31) Out_of_range (Inr v)))"

lemma print_nat_unfold: "n < 10 \<Longrightarrow> print_nat n = [char_of (48 + n)]"
  "\<not> n < 10 \<Longrightarrow> print_nat n = print_nat (n div 10) @ [char_of (48 + n mod 10)]"
  by (subst print_nat.simps, simp)+

lemma of_char_digit: "m < 10 \<Longrightarrow> (of_char (char_of (48 + m) :: char) :: nat) = 48 + m" for m :: nat
  by simp

lemma print_nat_digits: "list_all is_digit (print_nat n) \<and> print_nat n \<noteq> []"
proof (induction n rule: less_induct)
  case (less n)
  show ?case
  proof (cases "n < 10")
    case True
    then show ?thesis
      by (simp add: print_nat_unfold(1) is_digit_def Let_def of_char_digit del: of_char_of)
  next
    case False
    then have "n div 10 < n" by simp
    with less False show ?thesis
      by (simp add: print_nat_unfold(2) is_digit_def Let_def of_char_digit del: of_char_of)
  qed
qed

lemma of_char_digit_int: "m < 10 \<Longrightarrow> (of_char (char_of (48 + m) :: char) :: int) = 48 + int m" for m :: nat
  using of_char_digit [of m] of_nat_of_char [of "char_of (48 + m)", where 'a = int] by simp

lemma digits_value_snoc: "digits_value (ds @ [c]) = 10 * digits_value ds + (of_char c - 48)"
  by (simp add: digits_value_def)

lemma digits_value_print: "digits_value (print_nat n) = int n"
proof (induction n rule: less_induct)
  case (less n)
  show ?case
  proof (cases "n < 10")
    case True
    then show ?thesis
      by (simp add: print_nat_unfold(1) digits_value_def of_char_digit_int del: of_char_of)
  next
    case False
    have e: "int n = 10 * int (n div 10) + int (n mod 10)" by presburger
    have m: "n mod 10 < 10" "n div 10 < n" using False by simp_all
    have "digits_value (print_nat n) = 10 * digits_value (print_nat (n div 10)) + (of_char (char_of (48 + n mod 10) :: char) - 48)"
      by (simp only: print_nat_unfold(2) [OF False] digits_value_snoc)
    also have "\<dots> = 10 * int (n div 10) + int (n mod 10)"
      by (simp only: less [OF m(2)] of_char_digit_int [OF m(1)])
    finally show ?thesis
      using e by (simp only:)
  qed
qed

lemma print_nat_inject: "print_nat m = print_nat n \<Longrightarrow> m = n"
  by (metis digits_value_print of_nat_eq_iff)

text \<open>\<open>std::stoi\<close> reads back what \<open>%d\<close> prints.\<close>

lemma stoi_print_int:
  assumes "- (2 ^ 31) \<le> i" "i < 2 ^ 31"
  shows "stoi (print_int i) = Inr i"
proof -
  have d: "takeWhile is_digit (print_nat n) = print_nat n" for n
    using print_nat_digits [of n] by (simp add: takeWhile_eq_all_conv list_all_iff)
  have h: "is_digit (hd (print_nat n))" for n
    using print_nat_digits [of n] by (cases "print_nat n") auto
  have s: "dropWhile is_space (print_nat n) = print_nat n" "hd (print_nat n) \<noteq> CHR ''-''" "hd (print_nat n) \<noteq> CHR ''+''" for n
    using h [of n] print_nat_digits [of n]
    by (cases "print_nat n"; auto simp: is_digit_def is_space_def Let_def)+
  show ?thesis
  proof (cases "i < 0")
    case True
    then show ?thesis
      using assms print_nat_digits [of "nat (- i)"]
      by (simp add: stoi_def print_int_def Let_def is_space_def d digits_value_print)
  next
    case False
    then show ?thesis
      using assms print_nat_digits [of "nat i"]
      by (simp add: stoi_def print_int_def Let_def d s digits_value_print)
  qed
qed

end
