(* ===== verification/Writer.thy ===== *)
theory Writer
  imports Netlist
begin

text \<open>
  The Manticore assembly writer, \<open>passes/manticore/manticore_writer.cc\<close>: the builders of names, wires,
  constants and instructions, and the worker that turns cells, system calls, memories and connections of the
  top module into Manticore instructions.  The text streams of the builders are lists of items with a
  printing function; the object itself is the record \<open>writer\<close>, and a member function is a state
  transformer that may fail.  The order of evaluation of function arguments, which the language leaves open, is
  from left to right; it only affects the numbering of names.  \<open>std::sort\<close> is not stable; the model sorts stably.
\<close>

section \<open>Format strings and small helpers\<close>

text \<open>The argument of \<open>bitLength\<close> is an \<open>unsigned int\<close>.\<close>

function bit_length_loop :: "nat \<Rightarrow> nat \<Rightarrow> nat" where
  "bit_length_loop v len = (if v > 0 then bit_length_loop (v div 2) (len + 1) else len)"
  by auto
termination
  by (relation "measure fst") auto

declare bit_length_loop.simps [simp del]

definition bitLength :: "int \<Rightarrow> int" where
  "bitLength value =
     (let v = nat (value mod 2 ^ 32) in if v = 0 then 1 else int (bit_length_loop v 0))"

definition find_first_of :: "string \<Rightarrow> string \<Rightarrow> nat option" where
  "find_first_of p cs =
     (let n = length (takeWhile (\<lambda>c. c \<notin> set cs) p) in if n < length p then Some n else None)"

text \<open>The loop over the parts after the first \<open>%\<close>; \<open>p[0]\<close> of an empty part is the null character.\<close>

fun convert_parts :: "string list \<Rightarrow> string list \<Rightarrow> string res" where
  "convert_parts [] sizes = Inr []"
| "convert_parts (p # ps) sizes =
     (case find_first_of p ''hbdHBD'' of
        None \<Rightarrow> Inl Log_error
      | Some spec_type_pos \<Rightarrow>
          guardE (sizes \<noteq> []) Assert_failed (
          guardE (case find_first_of p ''123456789'' of None \<Rightarrow> True | Some size_begin \<Rightarrow> \<not> size_begin < spec_type_pos)
            Log_error (
          bindE (convert_parts ps (tl sizes)) (\<lambda>r.
          Inr ((if p \<noteq> [] \<and> hd p = CHR ''0'' then ''%0'' else ''%'') @ hd sizes @ [p ! spec_type_pos] @
               drop (spec_type_pos + 1) p @ r)))))"

definition convertFmt :: "string \<Rightarrow> string list \<Rightarrow> string res" where
  "convertFmt original sizes =
     (if original = [] then Inr original
      else let parts = split original CHR ''%'' in
        if length parts = 1 then Inr (hd parts)
        else bindE (convert_parts (tl parts) sizes) (\<lambda>r. Inr (hd parts @ r)))"

definition quote :: string where "quote = [CHR 0x22]"
definition endl :: string where "endl = [CHR 0x0A]"
definition tab :: string where "tab = [CHR 0x09]"

definition sourceInfo :: "attrs \<Rightarrow> string" where
  "sourceInfo a =
     (if has_attribute a ''src''
      then ''@SOURCEINFO [ file = '' @ quote @ get_src_attribute a @ quote @ '' ]'' else [])"

section \<open>Names, declarations and instructions\<close>

text \<open>A name: the prefix and the index it was printed from.\<close>

datatype rname = Rname (rprefix: char) (rindex: int)

definition print_name :: "rname \<Rightarrow> string" where
  "print_name r = ''ys_'' @ [rprefix r] @ print_int (rindex r)"

text \<open>The items of the stream \<open>defs\<close> of the wire builder: temporaries, wires, and lines of text.\<close>

datatype def_item = Def_temp rname int | Def_wire rname int | Def_line string

record reg_item =
  reg_name :: rname
  reg_width :: int
  reg_input :: rname
  reg_init :: "const_t option"
  reg_output :: rname

record mem_item =
  memi_name :: rname
  memi_memory :: memory_t

record const_item =
  consti_name :: rname
  consti_size :: int
  consti_value :: const_t

datatype binop =
    OP_ADD | OP_SUB | OP_MUL | OP_AND | OP_OR | OP_XOR
  | OP_SLL | OP_SRL | OP_SRA | OP_SEQ | OP_SLT | OP_SLTS

datatype instr =
    LOAD rname rname rname int
  | STORE rname rname rname rname int
  | PADZERO rname rname int
  | MOV rname rname
  | SLICE rname rname int int
  | PARMUX rname "rname list" rname "rname list"
  | MUX rname rname rname rname
  | PUT int rname rname
  | FLUSH int string rname
  | FINISH int rname
  | ASSERT int rname
  | STOP int rname
  | BINOP binop rname rname rname
  | Emit string
  | Comment string
  | Comment_sig "sigbit list"
  | Comment_cell string string
  | Comment_uses rname

primrec print_binop :: "binop \<Rightarrow> string" where
  "print_binop OP_ADD = ''ADD''"
| "print_binop OP_SUB = ''SUB''"
| "print_binop OP_MUL = ''MUL''"
| "print_binop OP_AND = ''AND''"
| "print_binop OP_OR = ''OR''"
| "print_binop OP_XOR = ''XOR''"
| "print_binop OP_SLL = ''SLL''"
| "print_binop OP_SRL = ''SRL''"
| "print_binop OP_SRA = ''SRA''"
| "print_binop OP_SEQ = ''SEQ''"
| "print_binop OP_SLT = ''SLT''"
| "print_binop OP_SLTS = ''SLTS''"

primrec print_def :: "def_item \<Rightarrow> string" where
  "print_def (Def_temp r w) = tab @ ''.wire '' @ '' '' @ print_name r @ '' '' @ print_int w @ endl"
| "print_def (Def_wire r w) = tab @ ''.wire '' @ print_name r @ '' '' @ print_int w @ endl"
| "print_def (Def_line s) = s @ endl"

definition print_reg :: "reg_item \<Rightarrow> string" where
  "print_reg g = tab @ ''.reg '' @ print_name (reg_name g) @ '' '' @ print_int (reg_width g) @ '' .input '' @
     print_name (reg_input g) @ '' '' @
     (case reg_init g of None \<Rightarrow> [] | Some c \<Rightarrow> ''0b'' @ as_string c @ '' '') @
     ''.output '' @ print_name (reg_output g) @ endl"

definition print_mem :: "mem_item \<Rightarrow> string" where
  "print_mem i = (let m = memi_memory i in
     tab @ ''@MEMBLOCK [block = '' @ quote @ mem_name m @ quote @ '', width = '' @ print_int (mem_width m) @
       '', capacity = '' @ print_int (mem_size m) @ '']'' @ endl @
     (if has_attribute (mem_attrs m) ''MEM_INIT_FILE'' then
        tab @ ''@MEMINIT [ file = '' @ quote @ get_string_attribute (mem_attrs m) ''MEM_INIT_FILE'' @ quote @
          '', width = '' @ print_int (mem_width m) @ '', count = '' @ print_int (mem_size m) @ '']'' @ endl
      else []) @
     tab @ ''.mem '' @ print_name (memi_name i) @ '' '' @ print_int (mem_width m) @ '' '' @ print_int (mem_size m) @ endl)"

definition print_const :: "const_item \<Rightarrow> string" where
  "print_const i = tab @ ''.const '' @ print_name (consti_name i) @ '' '' @ print_int (consti_size i) @
     '' 0b'' @ as_string (consti_value i) @ endl"

text \<open>The text of a signal, \<open>log_signal\<close> of \<open>kernel/log.cc\<close>, occurs in comments only; it is a parameter.\<close>

fun print_instr :: "(sigbit list \<Rightarrow> string) \<Rightarrow> instr \<Rightarrow> string" where
  "print_instr ls (LOAD rd addr mem order) = tab @ ''('' @ print_name mem @ '', '' @ print_int order @ '') LLD '' @
     print_name rd @ '', '' @ print_name mem @ ''[ '' @ print_name addr @ '' ];'' @ endl"
| "print_instr ls (STORE rs addr pred mem order) = tab @ ''('' @ print_name mem @ '', '' @ print_int order @ '') LST '' @
     print_name rs @ '', '' @ print_name mem @ ''[ '' @ print_name addr @ '' ], '' @ print_name pred @ '';'' @ endl"
| "print_instr ls (PADZERO rd rs width) =
     tab @ ''PADZERO '' @ print_name rd @ '', '' @ print_name rs @ '', '' @ print_int width @ '';'' @ endl"
| "print_instr ls (MOV rd rs) = tab @ ''MOV '' @ print_name rd @ '', '' @ print_name rs @ '';'' @ endl"
| "print_instr ls (SLICE rd rs offset len) = tab @ ''SLICE '' @ print_name rd @ '', '' @ print_name rs @ '', '' @
     print_int offset @ '', '' @ print_int len @ '';'' @ endl"
| "print_instr ls (PARMUX rd choices def_case conds) = tab @ ''PARMUX '' @ print_name rd @ '', '' @
     concat (map (\<lambda>(k, c). print_name k @ '' ? '' @ print_name c @ '', '') (zip conds choices)) @
     print_name def_case @ '';'' @ endl"
| "print_instr ls (MUX rd sel rfalse rtrue) = tab @ ''MUX '' @ print_name rd @ '', '' @ print_name sel @ '', '' @
     print_name rfalse @ '', '' @ print_name rtrue @ '';'' @ endl"
| "print_instr ls (PUT n rs pred) =
     tab @ ''('' @ print_int n @ '') PUT '' @ print_name rs @ '', '' @ print_name pred @ '';'' @ endl"
| "print_instr ls (FLUSH n fmt pred) =
     tab @ ''('' @ print_int n @ '') FLUSH '' @ quote @ fmt @ quote @ '', '' @ print_name pred @ '';'' @ endl"
| "print_instr ls (FINISH n pred) = tab @ ''('' @ print_int n @ '') FINISH '' @ print_name pred @ '';'' @ endl"
| "print_instr ls (ASSERT n pred) = tab @ ''('' @ print_int n @ '') ASSERT '' @ print_name pred @ '';'' @ endl"
| "print_instr ls (STOP n pred) = tab @ ''('' @ print_int n @ '') STOP '' @ print_name pred @ '';'' @ endl"
| "print_instr ls (BINOP b rd rs1 rs2) =
     tab @ print_binop b @ '' '' @ print_name rd @ '', '' @ print_name rs1 @ '', '' @ print_name rs2 @ '';'' @ endl"
| "print_instr ls (Emit str) = (if str = [] then [] else tab @ str @ endl)"
| "print_instr ls (Comment msg) = ''// '' @ msg @ endl"
| "print_instr ls (Comment_sig sig) = ''// '' @ ''Concat gen '' @ ls sig @ endl"
| "print_instr ls (Comment_cell name type) = ''// '' @ name @ '' : '' @ type @ endl"
| "print_instr ls (Comment_uses r) = ''// '' @ ''// uses '' @ print_name r @ endl"

text \<open>\<open>log_id\<close>, which \<open>id2cstr\<close> calls: the name without its backslash where that is unambiguous.\<close>

definition log_id :: "string \<Rightarrow> string" where
  "log_id p =
     (if p = [] \<or> hd p \<noteq> CHR 0x5C then p
      else if tl p = [] \<or> p ! 1 = CHR ''$'' \<or> p ! 1 = CHR 0x5C then p
      else if is_digit (p ! 1) then p
      else tl p)"

section \<open>The object\<close>

text \<open>The fields of the worker and of its builders: \<open>def_wire\<close> (index of the name builder, dictionaries, streams),
  \<open>def_const\<close>, \<open>instr\<close>, the signals already converted, the postponed system calls and memory
  ports.  The name builder of the constants is a different object from the one of the wires.\<close>

record writer =
  wmod :: module_t
  wire_index :: int
  wires :: "(wire_t \<times> rname) list"
  states :: "(nat \<times> rname \<times> rname) list"
  memories :: "(string \<times> rname) list"
  wdefs :: "def_item list"
  regs :: "reg_item list"
  mems :: "mem_item list"
  const_index :: int
  constants :: "(state list \<times> rname) list"
  cdefs :: "const_item list"
  instrs :: "instr list"
  interrupt_order :: int
  available_sigs :: "(sigbit list \<times> rname) list"
  syscalls :: "cell_t list"
  memory_writes :: "(string \<times> cell_t) list"
  memory_reads :: "(string \<times> cell_t) list"

definition writer_new :: "module_t \<Rightarrow> writer" where
  "writer_new m = \<lparr>wmod = m, wire_index = 0, wires = [], states = [], memories = [], wdefs = [], regs = [],
     mems = [], const_index = 0, constants = [], cdefs = [], instrs = [], interrupt_order = 0,
     available_sigs = [], syscalls = [], memory_writes = [], memory_reads = []\<rparr>"

type_synonym 'a wm = "writer \<Rightarrow> ('a \<times> writer) res"

definition retW :: "'a \<Rightarrow> 'a wm" where
  "retW x = (\<lambda>w. Inr (x, w))"

definition bindW :: "'a wm \<Rightarrow> ('a \<Rightarrow> 'b wm) \<Rightarrow> 'b wm" where
  "bindW m f = (\<lambda>w. case m w of Inl e \<Rightarrow> Inl e | Inr (x, w') \<Rightarrow> f x w')"

definition liftW :: "'a res \<Rightarrow> 'a wm" where
  "liftW r = (\<lambda>w. case r of Inl e \<Rightarrow> Inl e | Inr x \<Rightarrow> Inr (x, w))"

definition guardW :: "bool \<Rightarrow> error \<Rightarrow> 'a wm \<Rightarrow> 'a wm" where
  "guardW ok e m = (if ok then m else (\<lambda>w. Inl e))"

definition emitW :: "instr \<Rightarrow> unit wm" where
  "emitW i = (\<lambda>w. Inr ((), w\<lparr>instrs := instrs w @ [i]\<rparr>))"

fun foldW :: "('s \<Rightarrow> 'a \<Rightarrow> 's wm) \<Rightarrow> 's \<Rightarrow> 'a list \<Rightarrow> 's wm" where
  "foldW f s [] = retW s"
| "foldW f s (x # xs) = bindW (f s x) (\<lambda>s'. foldW f s' xs)"

section \<open>Wires, states and memories\<close>

text \<open>The index of the name builder is an \<open>int\<close> that is incremented for every name; programs with fewer than \<open>2 ^ 31\<close> names are modelled.\<close>

definition next_name :: "char \<Rightarrow> rname wm" where
  "next_name p = (\<lambda>w. Inr (Rname p (wire_index w), w\<lparr>wire_index := wire_index w + 1\<rparr>))"

definition add_def :: "def_item \<Rightarrow> unit wm" where
  "add_def d = (\<lambda>w. Inr ((), w\<lparr>wdefs := wdefs w @ [d]\<rparr>))"

definition temp :: "int \<Rightarrow> rname wm" where
  "temp width = bindW (next_name CHR ''w'') (\<lambda>name. bindW (add_def (Def_temp name width)) (\<lambda>_. retW name))"

text \<open>The lines before the declaration of a wire: its debug symbol, its source and its name.\<close>

definition debug_symbol :: "string \<Rightarrow> string" where
  "debug_symbol s = tab @ ''@DEBUGSYMBOL [ symbol = '' @ quote @ s @ quote @ '' ]''"

definition source_line :: "attrs \<Rightarrow> def_item list" where
  "source_line a = (let srcinfo = sourceInfo a in if srcinfo \<noteq> [] then [Def_line (tab @ srcinfo)] else [])"

definition wire_lines :: "string \<Rightarrow> attrs \<Rightarrow> def_item list" where
  "wire_lines name a =
     (if has_attribute a ''hdlname'' then
        [Def_line (debug_symbol (map (\<lambda>c. if c = CHR '' '' then CHR ''.'' else c) (get_string_attribute a ''hdlname'')))]
      else if name \<noteq> [] \<and> hd name = CHR 0x5C then [Def_line (debug_symbol (drop 1 name))]
      else []) @ source_line a @ [Def_line (''// '' @ name)]"

definition get_wire :: "wire_t \<Rightarrow> rname wm" where
  "get_wire v = (\<lambda>w. case map_of (wires w) v of
     Some name \<Rightarrow> Inr (name, w)
   | None \<Rightarrow>
       bindW (next_name CHR ''w'') (\<lambda>name w.
         Inr (name, w\<lparr>wdefs := wdefs w @ wire_lines (mod_wire_name (wmod w) v) (mod_wire_attrs (wmod w) v) @
                                [Def_wire name (wire_width v)],
                      wires := (v, name) # wires w\<rparr>)) w)"

definition resolveInitBits :: "const_t \<Rightarrow> const_t" where
  "resolveInitBits initval = Const_bits (map (\<lambda>b. if b = S0 \<or> b = S1 then b else S0) (bits initval))"

definition tryCreateState :: "cell_t \<Rightarrow> unit wm" where
  "tryCreateState dff =
     guardW (cell_type dff = ''$dff'' \<or> cell_type dff = ''$memrd_v2'') Assert_failed (\<lambda>w.
       if map_of (states w) (cell_ptr dff) \<noteq> None then Inr ((), w)
       else
         bindW (liftW (param_int dff ''WIDTH'')) (\<lambda>width.
         bindW (next_name CHR ''r'') (\<lambda>r_name.
         bindW (next_name CHR ''i'') (\<lambda>q_name.
         bindW (next_name CHR ''o'') (\<lambda>d_name w.
         let init = (if has_attribute (cell_attrs dff) ''INIT''
                     then Some (resolveInitBits (get_const_attribute (cell_attrs dff) ''INIT''))
                     else map_option resolveInitBits (map_of (cell_params dff) ''INIT_VALUE''))
         in Inr ((), w\<lparr>wdefs := wdefs w @ source_line (cell_attrs dff),
              regs := regs w @ [\<lparr>reg_name = r_name, reg_width = width, reg_input = q_name, reg_init = init,
                                 reg_output = d_name\<rparr>],
              states := (cell_ptr dff, q_name, d_name) # states w\<rparr>))))) w)"

text \<open>\<open>states[dff]\<close> after \<open>tryCreateState\<close> always finds its entry.\<close>

definition getCurrent :: "cell_t \<Rightarrow> rname wm" where
  "getCurrent dff = bindW (tryCreateState dff) (\<lambda>_ w. case map_of (states w) (cell_ptr dff) of
     Some (q, d) \<Rightarrow> Inr (q, w) | None \<Rightarrow> Inl Undefined_behaviour)"

definition getNext :: "cell_t \<Rightarrow> rname wm" where
  "getNext dff = bindW (tryCreateState dff) (\<lambda>_ w. case map_of (states w) (cell_ptr dff) of
     Some (q, d) \<Rightarrow> Inr (d, w) | None \<Rightarrow> Inl Undefined_behaviour)"

definition getMemory :: "memory_t \<Rightarrow> rname wm" where
  "getMemory m = (\<lambda>w. case map_of (memories w) (mem_name m) of
     Some name \<Rightarrow> Inr (name, w)
   | None \<Rightarrow>
       bindW (next_name CHR ''m'') (\<lambda>name w.
         Inr (name, w\<lparr>wdefs := wdefs w @ source_line (mem_attrs m),
                      mems := mems w @ [\<lparr>memi_name = name, memi_memory = m\<rparr>],
                      memories := (mem_name m, name) # memories w\<rparr>)) w)"

section \<open>Constants\<close>

definition get_const :: "const_t \<Rightarrow> rname wm" where
  "get_const value = (\<lambda>w. case map_of (constants w) (bits value) of
     Some name \<Rightarrow> Inr (name, w)
   | None \<Rightarrow>
       let name = Rname CHR ''c'' (const_index w);
           item = \<lparr>consti_name = name, consti_size = int (length (bits value)),
                   consti_value = (if \<not> is_fully_def value
                     then Const_bits (map (\<lambda>b. if b = S0 \<or> b = S1 then b else S0) (bits value)) else value)\<rparr>
       in Inr (name, w\<lparr>const_index := const_index w + 1, cdefs := cdefs w @ [item],
                       constants := (bits value, name) # constants w\<rparr>))"

section \<open>Signals\<close>

definition emplace_sig :: "sigbit list \<Rightarrow> rname \<Rightarrow> unit wm" where
  "emplace_sig sig name = (\<lambda>w. Inr ((),
     if map_of (available_sigs w) sig \<noteq> None then w
     else w\<lparr>available_sigs := (sig, name) # available_sigs w\<rparr>))"

text \<open>\<open>convert(const SigChunk&)\<close>; the key of the dictionary is the signal made of the chunk, that is, its bits.\<close>

definition convert_chunk :: "sigchunk \<Rightarrow> rname wm" where
  "convert_chunk c = (\<lambda>w. case map_of (available_sigs w) (chunk_bits c) of
     Some name \<Rightarrow> Inr (name, w)
   | None \<Rightarrow>
       (case cwire c of
          Some v \<Rightarrow>
            if wire_width v = cwidth c then
              bindW (get_wire v) (\<lambda>n. bindW (emplace_sig (chunk_bits c) n) (\<lambda>_. retW n))
            else
              bindW (temp (cwidth c)) (\<lambda>chunk_name.
              bindW (get_wire v) (\<lambda>n.
              bindW (emitW (SLICE chunk_name n (coffset c) (cwidth c))) (\<lambda>_.
              bindW (emplace_sig (chunk_bits c) chunk_name) (\<lambda>_. retW chunk_name))))
        | None \<Rightarrow> get_const (Const_bits (cdata c))) w)"

text \<open>The body of the loop over the chunks after the first: \<open>concat_sig\<close>, \<open>prev_res\<close> and \<open>pos\<close>.\<close>

definition concat_step :: "sigbit list \<times> rname \<times> int \<Rightarrow> sigchunk \<Rightarrow> (sigbit list \<times> rname \<times> int) wm" where
  "concat_step acc c =
     (let (concat_sig, prev_res, pos) = acc;
          concat_sig = concat_sig @ chunk_bits c;
          concat_width = int (length concat_sig)
      in bindW (temp concat_width) (\<lambda>op1.
         bindW (temp concat_width) (\<lambda>op2.
         bindW (emitW (PADZERO op1 prev_res concat_width)) (\<lambda>_.
         bindW (convert_chunk c) (\<lambda>n.
         bindW (emitW (PADZERO op2 n concat_width)) (\<lambda>_.
         bindW (temp concat_width) (\<lambda>shifted.
         bindW (liftW (Const_int pos 32)) (\<lambda>k.
         bindW (get_const k) (\<lambda>kn.
         bindW (emitW (BINOP OP_SLL shifted op2 kn)) (\<lambda>_.
         bindW (temp concat_width) (\<lambda>this_res.
         bindW (emitW (BINOP OP_OR this_res shifted op1)) (\<lambda>_.
         bindW (emplace_sig concat_sig this_res) (\<lambda>_.
         retW (concat_sig, this_res, concat_width))))))))))))))"

text \<open>\<open>is_wire\<close> and \<open>as_wire\<close> of the signal with these bits.\<close>

definition whole_wire :: "sigbit list \<Rightarrow> wire_t option" where
  "whole_wire sig = (case canon sig of
     [c] \<Rightarrow> (case cwire c of Some v \<Rightarrow> if wire_width v = int (length sig) then Some v else None | None \<Rightarrow> None)
   | _ \<Rightarrow> None)"

definition convert_sig :: "sigbit list \<Rightarrow> rname wm" where
  "convert_sig sig = (\<lambda>w. case map_of (available_sigs w) sig of
     Some name \<Rightarrow> Inr (name, w)
   | None \<Rightarrow>
       (case whole_wire sig of
          Some v \<Rightarrow> get_wire v
        | None \<Rightarrow>
            (case canon sig of
               [] \<Rightarrow> (\<lambda>w. Inl Assert_failed)
             | c # cs \<Rightarrow>
                 bindW (convert_chunk c) (\<lambda>prev_res.
                 if cs = [] then retW prev_res
                 else
                   bindW (emitW (Comment_sig sig)) (\<lambda>_.
                   bindW (foldW concat_step (chunk_bits c, prev_res, cwidth c) cs) (\<lambda>(_, res, _).
                   retW res))))) w)"

section \<open>Checks of a cell\<close>

definition equalOperandWidth :: "cell_t \<Rightarrow> bool res" where
  "equalOperandWidth cell =
     bindE (getParam cell ''A_WIDTH'') (\<lambda>a. bindE (getParam cell ''B_WIDTH'') (\<lambda>b. Inr (Const_eq a b)))"

definition equalSign :: "cell_t \<Rightarrow> bool res" where
  "equalSign cell =
     bindE (getParam cell ''A_SIGNED'') (\<lambda>a. bindE (getParam cell ''B_SIGNED'') (\<lambda>b. Inr (Const_eq a b)))"

text \<open>\<open>getParam(ID::B_SIGNED) == false\<close> compares with the 32-bit constant made of \<open>false\<close>.\<close>

definition bothUnsigned :: "cell_t \<Rightarrow> bool res" where
  "bothUnsigned cell =
     bindE (param_bool cell ''A_SIGNED'') (\<lambda>a.
     if a then Inr False
     else bindE (getParam cell ''B_SIGNED'') (\<lambda>b. bindE (Const_int 0 32) (\<lambda>z. Inr (Const_eq b z))))"

definition signedOperandsRequireEqualWidth :: "cell_t \<Rightarrow> bool res" where
  "signedOperandsRequireEqualWidth cell =
     bindE (param_bool cell ''A_SIGNED'') (\<lambda>a_signed. if a_signed then equalOperandWidth cell else Inr True)"

definition outputWidthIsMax :: "cell_t \<Rightarrow> bool res" where
  "outputWidthIsMax cell =
     bindE (param_int cell ''A_WIDTH'') (\<lambda>a. bindE (param_int cell ''B_WIDTH'') (\<lambda>b.
     bindE (param_int cell ''Y_WIDTH'') (\<lambda>y. Inr (max a b \<le> y))))"

definition boolOutput :: "cell_t \<Rightarrow> bool res" where
  "boolOutput cell = bindE (param_int cell ''Y_WIDTH'') (\<lambda>y. Inr (y = 1))"

definition require :: "bool res \<Rightarrow> unit res" where
  "require r = bindE r (\<lambda>ok. guardE ok Log_error (Inr ()))"

definition assertEqualOperandWidth :: "cell_t \<Rightarrow> unit res" where
  "assertEqualOperandWidth cell = require (equalOperandWidth cell)"

definition assertEqualSigns :: "cell_t \<Rightarrow> unit res" where
  "assertEqualSigns cell = require (equalSign cell)"

definition assertSignedOperandsRequireEqualWidth :: "cell_t \<Rightarrow> unit res" where
  "assertSignedOperandsRequireEqualWidth cell = require (signedOperandsRequireEqualWidth cell)"

definition assertBothUnsigned :: "cell_t \<Rightarrow> unit res" where
  "assertBothUnsigned cell = require (bothUnsigned cell)"

definition assertAll :: "cell_t \<Rightarrow> unit res" where
  "assertAll cell = bindE (assertEqualOperandWidth cell) (\<lambda>_.
     bindE (assertEqualSigns cell) (\<lambda>_. assertSignedOperandsRequireEqualWidth cell))"

definition assertBoolOutput :: "cell_t \<Rightarrow> unit res" where
  "assertBoolOutput cell = require (boolOutput cell)"

definition assertOutputIsMaxWidth :: "cell_t \<Rightarrow> unit res" where
  "assertOutputIsMaxWidth cell = require (outputWidthIsMax cell)"

section \<open>Operands\<close>

definition port_name :: "cell_t \<Rightarrow> string \<Rightarrow> rname wm" where
  "port_name cell p = bindW (liftW (getPort cell p)) convert_sig"

definition const_rep :: "state \<Rightarrow> int \<Rightarrow> rname wm" where
  "const_rep s width = bindW (liftW (Const_state s width)) get_const"

definition const_num :: "int \<Rightarrow> int \<Rightarrow> rname wm" where
  "const_num v width = bindW (liftW (Const_int v width)) get_const"

definition padConvert :: "sigbit list \<Rightarrow> int \<Rightarrow> rname wm" where
  "padConvert sig width =
     guardW (int (length sig) \<le> width) Assert_failed (
     if int (length sig) < width then
       bindW (temp width) (\<lambda>padded.
       bindW (convert_sig sig) (\<lambda>n.
       bindW (emitW (PADZERO padded n width)) (\<lambda>_. retW padded)))
     else convert_sig sig)"

definition sextConvert :: "sigbit list \<Rightarrow> int \<Rightarrow> rname wm" where
  "sextConvert sig width =
     guardW (int (length sig) \<le> width) Assert_failed (
     if int (length sig) < width then
       bindW (temp 1) (\<lambda>sign.
       bindW (convert_sig sig) (\<lambda>orig.
       bindW (const_num (int (length sig) - 1) 32) (\<lambda>k.
       bindW (emitW (BINOP OP_SRL sign orig k)) (\<lambda>_.
       bindW (temp width) (\<lambda>resolved_mask.
       bindW (const_rep S0 width) (\<lambda>pos_mask.
       bindW (get_const (Const_bits (replicate (length sig) S0 @ replicate (nat width - length sig) S1))) (\<lambda>neg_mask.
       bindW (emitW (MUX resolved_mask sign pos_mask neg_mask)) (\<lambda>_.
       bindW (temp width) (\<lambda>sextended.
       bindW (temp width) (\<lambda>zextended.
       bindW (emitW (PADZERO zextended orig width)) (\<lambda>_.
       bindW (emitW (BINOP OP_OR sextended zextended resolved_mask)) (\<lambda>_. retW sextended))))))))))))
     else convert_sig sig)"

definition extendOrSlice :: "sigbit list \<Rightarrow> int \<Rightarrow> bool \<Rightarrow> rname wm" where
  "extendOrSlice sig width is_signed =
     (if int (length sig) \<le> width \<and> is_signed then sextConvert sig width
      else if int (length sig) \<le> width \<and> \<not> is_signed then padConvert sig width
      else convert_sig (take (nat width) sig))"

definition extend_port :: "cell_t \<Rightarrow> string \<Rightarrow> int \<Rightarrow> bool \<Rightarrow> rname wm" where
  "extend_port cell p width is_signed =
     bindW (liftW (getPort cell p)) (\<lambda>sig. if is_signed then sextConvert sig width else padConvert sig width)"

definition mkSeq :: "cell_t \<Rightarrow> rname \<Rightarrow> unit wm" where
  "mkSeq cell res =
     bindW (liftW (assertEqualSigns cell)) (\<lambda>_.
     bindW (liftW (param_bool cell ''A_SIGNED'')) (\<lambda>a_signed.
     bindW (liftW (param_int cell ''A_WIDTH'')) (\<lambda>a_width.
     bindW (liftW (param_int cell ''B_WIDTH'')) (\<lambda>b_width.
     bindW (extend_port cell ''A'' (max a_width b_width) a_signed) (\<lambda>x.
     bindW (extend_port cell ''B'' (max a_width b_width) a_signed) (\<lambda>y.
     emitW (BINOP OP_SEQ res x y)))))))"

definition mkCompare :: "cell_t \<Rightarrow> rname \<Rightarrow> bool \<Rightarrow> unit wm" where
  "mkCompare cell res lessthan =
     bindW (liftW (assertEqualSigns cell)) (\<lambda>_.
     bindW (liftW (param_bool cell ''A_SIGNED'')) (\<lambda>a_signed.
     bindW (liftW (param_int cell ''A_WIDTH'')) (\<lambda>a_width.
     bindW (liftW (param_int cell ''B_WIDTH'')) (\<lambda>b_width.
     bindW (extend_port cell (if lessthan then ''A'' else ''B'') (max a_width b_width) a_signed) (\<lambda>x.
     bindW (extend_port cell (if lessthan then ''B'' else ''A'') (max a_width b_width) a_signed) (\<lambda>y.
     emitW (BINOP (if a_signed then OP_SLTS else OP_SLT) res x y)))))))"

definition convertBinaryOperands :: "cell_t \<Rightarrow> (rname \<times> rname) wm" where
  "convertBinaryOperands cell =
     bindW (liftW (param_int cell ''Y_WIDTH'')) (\<lambda>y_width.
     bindW (liftW (param_bool cell ''A_SIGNED'')) (\<lambda>a_signed.
     bindW (liftW (assertEqualSigns cell)) (\<lambda>_.
     bindW (bindW (liftW (getPort cell ''A'')) (\<lambda>s. extendOrSlice s y_width a_signed)) (\<lambda>x.
     bindW (bindW (liftW (getPort cell ''B'')) (\<lambda>s. extendOrSlice s y_width a_signed)) (\<lambda>y.
     retW (x, y))))))"

section \<open>Cells\<close>

text \<open>The branches of \<open>convert(Cell*)\<close>.  \<open>UNARY_OP_HEADER\<close> reads the widths and converts the two ports.\<close>

definition unary_header :: "cell_t \<Rightarrow> (int \<times> int \<times> rname \<times> rname) wm" where
  "unary_header cell =
     bindW (liftW (param_int cell ''A_WIDTH'')) (\<lambda>a_width.
     bindW (liftW (param_int cell ''Y_WIDTH'')) (\<lambda>y_width.
     bindW (port_name cell ''A'') (\<lambda>a_name.
     bindW (port_name cell ''Y'') (\<lambda>y_name. retW (a_width, y_width, a_name, y_name)))))"

definition convert_not :: "cell_t \<Rightarrow> unit wm" where
  "convert_not cell =
     bindW (liftW (param_int cell ''A_WIDTH'')) (\<lambda>width.
     bindW (liftW (param_int cell ''Y_WIDTH'')) (\<lambda>y_width.
     guardW (width = y_width) Assert_failed (
     bindW (port_name cell ''Y'') (\<lambda>y.
     bindW (port_name cell ''A'') (\<lambda>a.
     bindW (const_rep S1 width) (\<lambda>k. emitW (BINOP OP_XOR y a k)))))))"

definition convert_pos :: "cell_t \<Rightarrow> unit wm" where
  "convert_pos cell =
     bindW (unary_header cell) (\<lambda>(a_width, y_width, a_name, y_name).
     bindW (liftW (param_bool cell ''A_SIGNED'')) (\<lambda>a_signed.
     if a_signed \<and> a_width < y_width then
       bindW (temp 1) (\<lambda>a_sign.
       bindW (emitW (SLICE a_sign a_name 0 1)) (\<lambda>_.
       bindW (temp y_width) (\<lambda>extension.
       bindW (const_rep S0 y_width) (\<lambda>zero.
       bindW (get_const (Const_bits (replicate (nat a_width) S0 @ replicate (nat (y_width - a_width)) S1))) (\<lambda>mask.
       bindW (emitW (MUX extension a_sign zero mask)) (\<lambda>_.
       bindW (temp y_width) (\<lambda>padded.
       bindW (emitW (PADZERO padded a_name y_width)) (\<lambda>_.
       emitW (BINOP OP_OR y_name padded extension)))))))))
     else if a_width > y_width then emitW (SLICE y_name a_name 0 y_width)
     else emitW (MOV y_name a_name)))"

definition convert_neg :: "cell_t \<Rightarrow> unit wm" where
  "convert_neg cell =
     bindW (liftW (param_int cell ''Y_WIDTH'')) (\<lambda>y_width.
     bindW (liftW (param_int cell ''A_WIDTH'')) (\<lambda>a_width.
     guardW (a_width \<le> y_width) Assert_failed (
     bindW (extend_port cell ''A'' y_width True) (\<lambda>a_name.
     bindW (port_name cell ''Y'') (\<lambda>y_name.
     bindW (temp y_width) (\<lambda>bits_flipped.
     bindW (const_rep S1 y_width) (\<lambda>ones.
     bindW (emitW (BINOP OP_XOR bits_flipped a_name ones)) (\<lambda>_.
     bindW (const_num 1 y_width) (\<lambda>one.
     emitW (BINOP OP_ADD y_name bits_flipped one))))))))))"

text \<open>A result of one bit goes to \<open>Y\<close> directly, or through a temporary that is zero-extended.\<close>

definition to_bool_port :: "int \<Rightarrow> rname \<Rightarrow> (rname \<Rightarrow> unit wm) \<Rightarrow> unit wm" where
  "to_bool_port y_width y_name f =
     (if y_width = 1 then f y_name
      else bindW (temp 1) (\<lambda>t. bindW (f t) (\<lambda>_. emitW (PADZERO y_name t y_width))))"

definition convert_reduce_and :: "cell_t \<Rightarrow> unit wm" where
  "convert_reduce_and cell =
     bindW (unary_header cell) (\<lambda>(a_width, y_width, a_name, y_name).
     bindW (const_rep S1 a_width) (\<lambda>all_ones.
     to_bool_port y_width y_name (\<lambda>r. emitW (BINOP OP_SEQ r a_name all_ones))))"

definition convert_reduce_or :: "cell_t \<Rightarrow> unit wm" where
  "convert_reduce_or cell =
     bindW (unary_header cell) (\<lambda>(a_width, y_width, a_name, y_name).
     bindW (temp 1) (\<lambda>b0.
     bindW (const_rep S0 a_width) (\<lambda>zero.
     bindW (emitW (BINOP OP_SEQ b0 a_name zero)) (\<lambda>_.
     bindW (const_rep S1 1) (\<lambda>const_true.
     to_bool_port y_width y_name (\<lambda>r. emitW (BINOP OP_XOR r b0 const_true)))))))"

definition xor_step :: "rname \<Rightarrow> rname \<Rightarrow> int \<Rightarrow> rname wm" where
  "xor_step a_name prevres i =
     bindW (temp 1) (\<lambda>thisbit.
     bindW (emitW (SLICE thisbit a_name i 1)) (\<lambda>_.
     bindW (temp 1) (\<lambda>thisres.
     bindW (emitW (BINOP OP_XOR thisres prevres thisbit)) (\<lambda>_. retW thisres))))"

definition move_bool :: "int \<Rightarrow> rname \<Rightarrow> rname \<Rightarrow> unit wm" where
  "move_bool y_width y_name r =
     (if y_width = 1 then emitW (MOV y_name r) else emitW (PADZERO y_name r y_width))"

definition convert_reduce_xor :: "cell_t \<Rightarrow> unit wm" where
  "convert_reduce_xor cell =
     bindW (unary_header cell) (\<lambda>(a_width, y_width, a_name, y_name).
     bindW (temp 1) (\<lambda>prevres.
     bindW (emitW (SLICE prevres a_name 0 1)) (\<lambda>_.
     bindW (foldW (xor_step a_name) prevres [1..a_width - 1]) (\<lambda>res.
     move_bool y_width y_name res))))"

definition xnor_step :: "rname \<Rightarrow> rname \<Rightarrow> rname \<Rightarrow> int \<Rightarrow> rname wm" where
  "xnor_step a_name const_true prevres i =
     bindW (temp 1) (\<lambda>thisbit.
     bindW (emitW (SLICE thisbit a_name i 1)) (\<lambda>_.
     bindW (temp 1) (\<lambda>t.
     bindW (emitW (BINOP OP_XOR t thisbit prevres)) (\<lambda>_.
     bindW (temp 1) (\<lambda>thisres.
     bindW (emitW (BINOP OP_XOR thisres t const_true)) (\<lambda>_. retW thisres))))))"

definition convert_reduce_xnor :: "cell_t \<Rightarrow> unit wm" where
  "convert_reduce_xnor cell =
     bindW (unary_header cell) (\<lambda>(a_width, y_width, a_name, y_name).
     bindW (temp 1) (\<lambda>prevres.
     bindW (const_rep S1 1) (\<lambda>const_true.
     bindW (if a_width mod 2 = 1 then
              bindW (temp 1) (\<lambda>prevbit.
              bindW (emitW (SLICE prevbit a_name 0 1)) (\<lambda>_.
              emitW (BINOP OP_XOR prevres prevbit const_true)))
            else emitW (SLICE prevres a_name 0 1)) (\<lambda>_.
     bindW (foldW (xnor_step a_name const_true) prevres [1..a_width - 1]) (\<lambda>res.
     move_bool y_width y_name res)))))"

definition convert_logic_not :: "cell_t \<Rightarrow> unit wm" where
  "convert_logic_not cell =
     bindW (unary_header cell) (\<lambda>(a_width, y_width, a_name, y_name).
     to_bool_port y_width y_name (\<lambda>r.
       bindW (const_rep S0 a_width) (\<lambda>zero. emitW (BINOP OP_SEQ r a_name zero))))"

definition convert_binary :: "binop \<Rightarrow> cell_t \<Rightarrow> unit wm" where
  "convert_binary b cell =
     bindW (convertBinaryOperands cell) (\<lambda>(x, y).
     bindW (port_name cell ''Y'') (\<lambda>y_name. emitW (BINOP b y_name x y)))"

definition convert_xnor :: "cell_t \<Rightarrow> unit wm" where
  "convert_xnor cell =
     bindW (convertBinaryOperands cell) (\<lambda>(x, y).
     bindW (liftW (param_int cell ''Y_WIDTH'')) (\<lambda>y_width.
     bindW (temp y_width) (\<lambda>t.
     bindW (emitW (BINOP OP_XOR t x y)) (\<lambda>_.
     bindW (port_name cell ''Y'') (\<lambda>y_name.
     bindW (const_rep S1 y_width) (\<lambda>ones. emitW (BINOP OP_XOR y_name t ones)))))))"

definition convert_eq :: "cell_t \<Rightarrow> unit wm" where
  "convert_eq cell =
     bindW (liftW (param_int cell ''Y_WIDTH'')) (\<lambda>y_width.
     bindW (port_name cell ''Y'') (\<lambda>y_name.
     to_bool_port y_width y_name (mkSeq cell)))"

definition convert_ne :: "cell_t \<Rightarrow> unit wm" where
  "convert_ne cell =
     bindW (liftW (param_int cell ''Y_WIDTH'')) (\<lambda>y_width.
     bindW (port_name cell ''Y'') (\<lambda>y_name.
     bindW (temp 1) (\<lambda>seq_res.
     bindW (mkSeq cell seq_res) (\<lambda>_.
     bindW (const_rep S1 1) (\<lambda>const_true.
     to_bool_port y_width y_name (\<lambda>r. emitW (BINOP OP_XOR r seq_res const_true)))))))"

definition convert_lt_gt :: "cell_t \<Rightarrow> unit wm" where
  "convert_lt_gt cell =
     bindW (port_name cell ''Y'') (\<lambda>y_name.
     bindW (liftW (param_int cell ''Y_WIDTH'')) (\<lambda>y_width.
     to_bool_port y_width y_name (\<lambda>r. mkCompare cell r (cell_type cell = ''$lt''))))"

definition convert_le_ge :: "cell_t \<Rightarrow> unit wm" where
  "convert_le_ge cell =
     bindW (port_name cell ''Y'') (\<lambda>y_name.
     bindW (liftW (param_int cell ''Y_WIDTH'')) (\<lambda>y_width.
     bindW (temp 1) (\<lambda>equal.
     bindW (temp 1) (\<lambda>comp.
     bindW (mkSeq cell equal) (\<lambda>_.
     bindW (mkCompare cell comp (cell_type cell = ''$le'')) (\<lambda>_.
     to_bool_port y_width y_name (\<lambda>r. emitW (BINOP OP_OR r comp equal))))))))"

definition convert_logic :: "cell_t \<Rightarrow> unit wm" where
  "convert_logic cell =
     bindW (temp 1) (\<lambda>a_zero.
     bindW (temp 1) (\<lambda>b_zero.
     bindW (temp 1) (\<lambda>a_nonzero.
     bindW (temp 1) (\<lambda>b_nonzero.
     bindW (port_name cell ''A'') (\<lambda>a_name.
     bindW (port_name cell ''B'') (\<lambda>b_name.
     bindW (liftW (param_int cell ''A_WIDTH'')) (\<lambda>a_width.
     bindW (liftW (param_int cell ''B_WIDTH'')) (\<lambda>b_width.
     bindW (const_rep S0 a_width) (\<lambda>za.
     bindW (emitW (BINOP OP_SEQ a_zero a_name za)) (\<lambda>_.
     bindW (const_rep S0 b_width) (\<lambda>zb.
     bindW (emitW (BINOP OP_SEQ b_zero b_name zb)) (\<lambda>_.
     bindW (const_rep S1 1) (\<lambda>const_true.
     bindW (emitW (BINOP OP_XOR a_nonzero a_zero const_true)) (\<lambda>_.
     bindW (emitW (BINOP OP_XOR b_nonzero b_zero const_true)) (\<lambda>_.
     bindW (liftW (param_int cell ''Y_WIDTH'')) (\<lambda>y_width.
     bindW (port_name cell ''Y'') (\<lambda>y_name.
     bindW (emitW (Emit (sourceInfo (cell_attrs cell)))) (\<lambda>_.
     to_bool_port y_width y_name (\<lambda>r. emitW (BINOP (if cell_type cell = ''$logic_and'' then OP_AND else OP_OR)
       r a_nonzero b_nonzero))))))))))))))))))))"

definition convert_mux :: "cell_t \<Rightarrow> unit wm" where
  "convert_mux cell =
     bindW (port_name cell ''A'') (\<lambda>a_name.
     bindW (port_name cell ''B'') (\<lambda>b_name.
     bindW (port_name cell ''Y'') (\<lambda>y_name.
     bindW (port_name cell ''S'') (\<lambda>s_name.
     bindW (emitW (Emit (sourceInfo (cell_attrs cell)))) (\<lambda>_.
     emitW (MUX y_name s_name a_name b_name))))))"

text \<open>\<open>data_bits[case_ix * width + i]\<close> and \<open>cond_bits[case_ix]\<close> are unchecked accesses.\<close>

definition pmux_step :: "int \<Rightarrow> sigbit list \<Rightarrow> sigbit list \<Rightarrow> rname list \<times> rname list \<Rightarrow> int \<Rightarrow>
    (rname list \<times> rname list) wm" where
  "pmux_step width data_bits cond_bits acc case_ix =
     guardW (width \<le> 0 \<or> (case_ix + 1) * width \<le> int (length data_bits)) Undefined_behaviour (
     bindW (convert_sig (take (nat width) (drop (nat (case_ix * width)) data_bits))) (\<lambda>c.
     guardW (case_ix < int (length cond_bits)) Undefined_behaviour (
     bindW (convert_sig [cond_bits ! nat case_ix]) (\<lambda>k.
     retW (fst acc @ [c], snd acc @ [k])))))"

definition convert_pmux :: "cell_t \<Rightarrow> unit wm" where
  "convert_pmux cell =
     bindW (port_name cell ''A'') (\<lambda>a_name.
     bindW (liftW (param_int cell ''WIDTH'')) (\<lambda>width.
     bindW (liftW (param_int cell ''S_WIDTH'')) (\<lambda>num_cases.
     bindW (liftW (getPort cell ''B'')) (\<lambda>data_bits.
     bindW (liftW (getPort cell ''S'')) (\<lambda>cond_bits.
     bindW (foldW (pmux_step width data_bits cond_bits) ([], []) [0..num_cases - 1]) (\<lambda>(cases, conditions).
     bindW (emitW (Emit (sourceInfo (cell_attrs cell)))) (\<lambda>_.
     bindW (port_name cell ''Y'') (\<lambda>y_name.
     guardW (length cases = length conditions) Assert_failed
       (emitW (PARMUX y_name cases a_name conditions))))))))))"

text \<open>The header of the shifts: \<open>B\<close> must be unsigned.\<close>

definition shift_header :: "cell_t \<Rightarrow> (bool \<times> int \<times> int) wm" where
  "shift_header cell =
     bindW (liftW (param_bool cell ''B_SIGNED'')) (\<lambda>b_signed.
     guardW (b_signed = False) Assert_failed (
     bindW (liftW (param_bool cell ''A_SIGNED'')) (\<lambda>a_signed.
     bindW (liftW (param_int cell ''A_WIDTH'')) (\<lambda>a_width.
     bindW (liftW (param_int cell ''Y_WIDTH'')) (\<lambda>y_width. retW (a_signed, a_width, y_width))))))"

text \<open>\<open>$shl\<close> and \<open>$sshl\<close> with \<open>SLL\<close>, \<open>$shr\<close> with \<open>SRL\<close>.\<close>

definition convert_shift :: "binop \<Rightarrow> cell_t \<Rightarrow> unit wm" where
  "convert_shift b cell =
     bindW (shift_header cell) (\<lambda>(a_signed, a_width, y_width).
     bindW (port_name cell ''Y'') (\<lambda>y_name.
     bindW (extend_port cell ''A'' (max a_width y_width) a_signed) (\<lambda>x.
     bindW (port_name cell ''B'') (\<lambda>y. emitW (BINOP b y_name x y)))))"

definition convert_sshr :: "cell_t \<Rightarrow> unit wm" where
  "convert_sshr cell =
     bindW (shift_header cell) (\<lambda>(a_signed, a_width, y_width).
     bindW (port_name cell ''Y'') (\<lambda>y_name.
     if a_signed then
       if y_width < max a_width y_width then
         bindW (temp (max a_width y_width)) (\<lambda>widened.
         bindW (port_name cell ''A'') (\<lambda>x.
         bindW (port_name cell ''B'') (\<lambda>y.
         bindW (emitW (BINOP OP_SRA widened x y)) (\<lambda>_.
         emitW (SLICE y_name widened 0 y_width)))))
       else
         bindW (extend_port cell ''A'' (max a_width y_width) True) (\<lambda>x.
         bindW (port_name cell ''B'') (\<lambda>y. emitW (BINOP OP_SRA y_name x y)))
     else
       bindW (extend_port cell ''A'' (max a_width y_width) False) (\<lambda>x.
       bindW (port_name cell ''B'') (\<lambda>y. emitW (BINOP OP_SRL y_name x y)))))"

text \<open>\<open>IdString(std::string)\<close> of a new name: it starts with \<open>$\<close> or a backslash, has a second character and no
  control character or blank.  The empty name and names already in the table are accepted without a look; the
  identifiers of the module's memories are in the table.\<close>

definition memid :: "cell_t \<Rightarrow> string wm" where
  "memid cell = bindW (liftW (param_string cell ''MEMID'')) (\<lambda>s w.
     if s = [] \<or> map_of (mod_memories (wmod w)) s \<noteq> None then Inr (s, w)
     else guardE ((hd s = CHR ''$'' \<or> hd s = CHR 0x5C) \<and> tl s \<noteq> []) Assert_failed (
          guardE (list_all (\<lambda>c. (of_char c :: nat) > 32) s) Log_error (Inr (s, w))))"

definition convert_dff :: "cell_t \<Rightarrow> unit wm" where
  "convert_dff cell =
     bindW (getCurrent cell) (\<lambda>current_state.
     bindW (getNext cell) (\<lambda>next_state.
     bindW (port_name cell ''Q'') (\<lambda>q.
     bindW (emitW (MOV q current_state)) (\<lambda>_.
     bindW (port_name cell ''D'') (\<lambda>d. emitW (MOV next_state d))))))"

definition convert_cell :: "cell_t \<Rightarrow> unit wm" where
  "convert_cell cell =
     bindW (emitW (Comment_cell (log_id (cell_name cell)) (log_id (cell_type cell)))) (\<lambda>_.
     let t = cell_type cell in
     if t = ''$not'' then convert_not cell
     else if t = ''$pos'' then convert_pos cell
     else if t = ''$neg'' then convert_neg cell
     else if t = ''$reduce_and'' then convert_reduce_and cell
     else if t = ''$reduce_or'' \<or> t = ''$reduce_bool'' then convert_reduce_or cell
     else if t = ''$reduce_xor'' then convert_reduce_xor cell
     else if t = ''$reduce_xnor'' then convert_reduce_xnor cell
     else if t = ''$logic_not'' then convert_logic_not cell
     else if t = ''$and'' then convert_binary OP_AND cell
     else if t = ''$or'' then convert_binary OP_OR cell
     else if t = ''$xor'' then convert_binary OP_XOR cell
     else if t = ''$xnor'' then convert_xnor cell
     else if t = ''$add'' then convert_binary OP_ADD cell
     else if t = ''$sub'' then convert_binary OP_SUB cell
     else if t = ''$mul'' then convert_binary OP_MUL cell
     else if t = ''$eq'' then convert_eq cell
     else if t = ''$ne'' then convert_ne cell
     else if t = ''$lt'' \<or> t = ''$gt'' then convert_lt_gt cell
     else if t = ''$le'' \<or> t = ''$ge'' then convert_le_ge cell
     else if t = ''$logic_and'' \<or> t = ''$logic_or'' then convert_logic cell
     else if t = ''$mux'' then convert_mux cell
     else if t = ''$pmux'' then convert_pmux cell
     else if t = ''$sshl'' \<or> t = ''$shl'' then convert_shift OP_SLL cell
     else if t = ''$shr'' then convert_shift OP_SRL cell
     else if t = ''$sshr'' then convert_sshr cell
     else if t = ''$shift'' \<or> t = ''$shiftx'' then (\<lambda>w. Inl Log_error)
     else if t = ''$memwr_v2'' then
       bindW (memid cell) (\<lambda>m w. Inr ((), w\<lparr>memory_writes := memory_writes w @ [(m, cell)]\<rparr>))
     else if t = ''$memrd_v2'' then
       bindW (memid cell) (\<lambda>m w. Inr ((), w\<lparr>memory_reads := memory_reads w @ [(m, cell)]\<rparr>))
     else if t = ''$dff'' then convert_dff cell
     else if t = ''$manticore'' then (\<lambda>w. Inr ((), w\<lparr>syscalls := syscalls w @ [cell]\<rparr>))
     else (\<lambda>w. Inl Log_error))"

section \<open>System calls\<close>

text \<open>\<open>interrupt_order++\<close> numbers the instructions that talk to the host.\<close>

definition emit_ordered :: "(int \<Rightarrow> instr) \<Rightarrow> unit wm" where
  "emit_ordered f = (\<lambda>w. Inr ((), w\<lparr>instrs := instrs w @ [f (interrupt_order w)],
     interrupt_order := interrupt_order w + 1\<rparr>))"

text \<open>One argument of \<open>$display\<close>; the state is the bits not consumed yet.\<close>

definition display_arg :: "cell_t \<Rightarrow> rname \<Rightarrow> sigbit list \<Rightarrow> string \<Rightarrow> sigbit list wm" where
  "display_arg cell en_name rest sz_str =
     bindW (liftW (stoi sz_str)) (\<lambda>sz.
     guardW (0 \<le> sz \<and> sz \<le> int (length rest)) Undefined_behaviour (
     bindW (convert_sig (take (nat sz) rest)) (\<lambda>arg_name.
     bindW (emitW (Emit (sourceInfo (cell_attrs cell)))) (\<lambda>_.
     bindW (emit_ordered (\<lambda>n. PUT n arg_name en_name)) (\<lambda>_.
     retW (drop (nat sz) rest))))))"

definition convertSyscall :: "cell_t \<Rightarrow> unit wm" where
  "convertSyscall cell =
     bindW (liftW (param_string cell ''TYPE'')) (\<lambda>call_type.
     bindW (emitW (Comment_cell (log_id (cell_name cell)) (log_id (cell_type cell)))) (\<lambda>_.
     let source = emitW (Emit (sourceInfo (cell_attrs cell))) in
     if call_type = ''$display'' then
       bindW (liftW (param_string cell ''FMT'')) (\<lambda>fmt.
       bindW (liftW (param_string cell ''VAR_ARG_SIZE'')) (\<lambda>sizes_str.
       bindW (liftW (getPort cell ''B'')) (\<lambda>data_bits.
       bindW (liftW (getPort cell ''EN'')) (\<lambda>en_sig.
       bindW (convert_sig en_sig) (\<lambda>en_name.
       guardW (length en_sig = 1) Assert_failed (
       bindW (foldW (display_arg cell en_name) data_bits (split sizes_str CHR '','')) (\<lambda>_.
       bindW source (\<lambda>_.
       bindW (liftW (convertFmt fmt (split sizes_str CHR '',''))) (\<lambda>f.
       emit_ordered (\<lambda>n. FLUSH n f en_name))))))))))
     else if call_type = ''$stop'' \<or> call_type = ''$finish'' then
       bindW (port_name cell ''EN'') (\<lambda>en_name.
       bindW source (\<lambda>_.
       emit_ordered (\<lambda>n. if call_type = ''$stop'' then STOP n en_name else FINISH n en_name)))
     else if call_type = ''$assert'' then
       bindW (port_name cell ''EN'') (\<lambda>en_name.
       bindW (port_name cell ''A'') (\<lambda>cond_name.
       bindW (temp 1) (\<lambda>dis_name.
       bindW (const_rep S1 1) (\<lambda>one.
       bindW (emitW (BINOP OP_XOR dis_name en_name one)) (\<lambda>_.
       bindW (temp 1) (\<lambda>implication.
       bindW (emitW (BINOP OP_OR implication dis_name cond_name)) (\<lambda>_.
       bindW source (\<lambda>_.
       emit_ordered (\<lambda>n. ASSERT n implication)))))))))
     else (\<lambda>w. Inl Log_error)))"

section \<open>Memories\<close>

text \<open>The local functions of \<open>convertMemoryCell\<close>.  \<open>1 << n\<close> on \<open>int\<close> is undefined from 31 on.\<close>

definition mem_addr_bits :: "memory_t \<Rightarrow> int" where
  "mem_addr_bits m = bitLength (mem_size m + mem_start_offset m - 1)"

definition hasUpperBoundCheck :: "memory_t \<Rightarrow> cell_t \<Rightarrow> bool res" where
  "hasUpperBoundCheck m mcell =
     bindE (getPort mcell ''ADDR'') (\<lambda>addr.
     guardE (length addr < 31 \<and> mem_addr_bits m < 31) Undefined_behaviour (
     Inr (mem_size m \<noteq> 2 ^ nat (mem_addr_bits m) \<or> (2 :: int) ^ length addr > 2 ^ nat (mem_addr_bits m))))"

definition addrFromLowerBound :: "memory_t \<Rightarrow> cell_t \<Rightarrow> rname wm" where
  "addrFromLowerBound m mcell =
     bindW (liftW (getPort mcell ''ADDR'')) (\<lambda>addr.
     bindW (convert_sig addr) (\<lambda>cell_addr.
     if mem_start_offset m \<noteq> 0 then
       bindW (temp (int (length addr))) (\<lambda>real_addr.
       bindW (const_num (mem_start_offset m) (int (length addr))) (\<lambda>k.
       bindW (emitW (BINOP OP_SUB real_addr cell_addr k)) (\<lambda>_. retW real_addr)))
     else retW cell_addr))"

definition createBoundOk :: "memory_t \<Rightarrow> rname \<Rightarrow> int \<Rightarrow> rname wm" where
  "createBoundOk m real_addr sig_addr_bits =
     bindW (emitW (Comment ''Bound check'')) (\<lambda>_.
     let max_width = max sig_addr_bits (mem_addr_bits m) in
     bindW (temp (max_width + 1)) (\<lambda>addr_padded.
     bindW (temp 1) (\<lambda>bound_ok.
     bindW (emitW (PADZERO addr_padded real_addr (max_width + 1))) (\<lambda>_.
     bindW (const_num (mem_size m) (max_width + 1)) (\<lambda>k.
     bindW (emitW (BINOP OP_SLT bound_ok addr_padded k)) (\<lambda>_. retW bound_ok))))))"

text \<open>A predicate with the bound check of the memory, where it has one.\<close>

definition checked_predicate :: "memory_t \<Rightarrow> cell_t \<Rightarrow> rname \<Rightarrow> int \<Rightarrow> rname \<Rightarrow> rname wm" where
  "checked_predicate m wr_cell addr_name sig_addr_bits predicate =
     bindW (liftW (hasUpperBoundCheck m wr_cell)) (\<lambda>check.
     if check then
       bindW (createBoundOk m addr_name sig_addr_bits) (\<lambda>bound_ok.
       bindW (temp 1) (\<lambda>r.
       bindW (emitW (BINOP OP_AND r predicate bound_ok)) (\<lambda>_. retW r)))
     else retW predicate)"

definition all_state :: "state \<Rightarrow> sigbit list \<Rightarrow> bool" where
  "all_state s sig \<longleftrightarrow> list_all (\<lambda>b. b = Bit_state s) sig"

text \<open>The asynchronous reset of a read port's register; the value to load has a name of its own.\<close>

definition read_arst :: "cell_t \<Rightarrow> int \<Rightarrow> bool \<Rightarrow> rname \<Rightarrow> rname \<Rightarrow> rname \<Rightarrow> rname wm" where
  "read_arst cell port_width has_dyn_en data_name current next_q =
     bindW (temp port_width) (\<lambda>loaded_value.
     bindW (port_name cell ''ARST'') (\<lambda>arst_name.
     bindW (bindW (liftW (getParam cell ''ARST_VALUE'')) get_const) (\<lambda>arst_value.
     bindW (emitW (MUX data_name arst_name current arst_value)) (\<lambda>_.
     bindW (if has_dyn_en then
              bindW (emitW (Comment ''adffe'')) (\<lambda>_.
              bindW (temp port_width) (\<lambda>loaded_en.
              bindW (port_name cell ''EN'') (\<lambda>en.
              bindW (emitW (MUX loaded_en en current loaded_value)) (\<lambda>_.
              bindW (port_name cell ''ARST'') (\<lambda>arst.
              bindW (bindW (liftW (getParam cell ''ARST_VALUE'')) get_const) (\<lambda>v.
              emitW (MUX next_q arst loaded_en v)))))))
            else
              bindW (emitW (Comment ''adff'')) (\<lambda>_.
              bindW (port_name cell ''ARST'') (\<lambda>arst.
              bindW (bindW (liftW (getParam cell ''ARST_VALUE'')) get_const) (\<lambda>v.
              emitW (MUX next_q arst loaded_value v))))) (\<lambda>_.
     retW loaded_value)))))"

definition read_srst :: "cell_t \<Rightarrow> int \<Rightarrow> bool \<Rightarrow> rname \<Rightarrow> rname \<Rightarrow> rname \<Rightarrow> rname wm" where
  "read_srst cell port_width has_dyn_en data_name current next_q =
     bindW (emitW (MOV data_name current)) (\<lambda>_.
     bindW (temp port_width) (\<lambda>loaded_value.
     bindW (liftW (param_bool cell ''CE_OVER_SRST'')) (\<lambda>ce_override.
     bindW (port_name cell ''SRST'') (\<lambda>srst_name.
     bindW (bindW (liftW (getParam cell ''SRST_VALUE'')) get_const) (\<lambda>srst_value.
     bindW (if has_dyn_en \<and> ce_override then
              bindW (emitW (Comment ''sdffce'')) (\<lambda>_.
              bindW (temp port_width) (\<lambda>loaded_rst.
              bindW (emitW (MUX loaded_rst srst_name loaded_value srst_value)) (\<lambda>_.
              bindW (port_name cell ''EN'') (\<lambda>en.
              emitW (MUX next_q en current loaded_rst)))))
            else if has_dyn_en \<and> \<not> ce_override then
              bindW (emitW (Comment ''sdffe'')) (\<lambda>_.
              bindW (temp port_width) (\<lambda>loaded_en.
              bindW (port_name cell ''EN'') (\<lambda>en.
              bindW (emitW (MUX loaded_en en current loaded_value)) (\<lambda>_.
              emitW (MUX next_q srst_name loaded_en srst_value)))))
            else
              bindW (emitW (Comment ''sdff'')) (\<lambda>_.
              guardW (\<not> has_dyn_en) Assert_failed
                (emitW (MUX next_q srst_name loaded_value srst_value)))) (\<lambda>_.
     bindW (emitW (Comment_uses loaded_value)) (\<lambda>_.
     retW loaded_value)))))))"

definition read_plain :: "cell_t \<Rightarrow> int \<Rightarrow> bool \<Rightarrow> rname \<Rightarrow> rname \<Rightarrow> rname \<Rightarrow> rname wm" where
  "read_plain cell port_width has_dyn_en data_name current next_q =
     bindW (if has_dyn_en then
              bindW (emitW (Comment ''dffe'')) (\<lambda>_.
              bindW (emitW (MOV data_name current)) (\<lambda>_.
              bindW (temp port_width) (\<lambda>loaded_value.
              bindW (port_name cell ''EN'') (\<lambda>en.
              bindW (emitW (MUX next_q en current loaded_value)) (\<lambda>_. retW loaded_value)))))
            else bindW (emitW (MOV data_name current)) (\<lambda>_. retW next_q)) (\<lambda>loaded_value.
     bindW (emitW (Comment_uses loaded_value)) (\<lambda>_. retW loaded_value))"

text \<open>The register inside a read port: the name the loaded word goes to.\<close>

definition convertReadData :: "cell_t \<Rightarrow> rname wm" where
  "convertReadData cell =
     bindW (emitW (Comment ''memory internal dff'')) (\<lambda>_.
     bindW (liftW (param_bool cell ''CLK_ENABLE'')) (\<lambda>clocked.
     bindW (port_name cell ''DATA'') (\<lambda>data_name.
     if clocked then
       bindW (getCurrent cell) (\<lambda>current.
       bindW (getNext cell) (\<lambda>next_q.
       bindW (liftW (getPort cell ''ARST'')) (\<lambda>arst.
       bindW (liftW (getPort cell ''SRST'')) (\<lambda>srst.
       bindW (liftW (getPort cell ''EN'')) (\<lambda>en.
       let has_arst = (\<not> all_state S0 arst); has_rst = (\<not> all_state S0 srst); has_dyn_en = (\<not> all_state S1 en) in
       guardW (\<not> (has_arst \<and> has_rst)) Assert_failed (
       bindW (liftW (param_int cell ''WIDTH'')) (\<lambda>port_width.
       if has_arst then read_arst cell port_width has_dyn_en data_name current next_q
       else if has_rst then read_srst cell port_width has_dyn_en data_name current next_q
       else read_plain cell port_width has_dyn_en data_name current next_q)))))))
     else
       bindW (liftW (getPort cell ''EN'')) (\<lambda>en. guardW (all_state S1 en) Assert_failed (
       bindW (liftW (getPort cell ''SRST'')) (\<lambda>srst. guardW (all_state S0 srst) Assert_failed (
       bindW (liftW (getPort cell ''ARST'')) (\<lambda>arst. guardW (all_state S0 arst) Assert_failed (
       retW data_name)))))))))"

text \<open>\<open>mask.bits[i]\<close> is an unchecked access; the mask is as wide as the memory.\<close>

definition createMask :: "int \<Rightarrow> repeat_pattern \<Rightarrow> bool \<Rightarrow> const_t res" where
  "createMask width p write_data_mask =
     bindE (Const_state (if write_data_mask then S0 else S1) width) (\<lambda>mask.
     guardE (pat_offset p + pat_width p \<le> width) Undefined_behaviour (
     Inr (mask\<lparr>bits := map (\<lambda>i. if pat_offset p \<le> int i \<and> int i < pat_offset p + pat_width p
                                then (if write_data_mask then S1 else S0) else bits mask ! i)
                          [0..<length (bits mask)]\<rparr>)))"

text \<open>One part of a write with a partial enable: combine with the word loaded before and store it.\<close>

definition store_part :: "memory_t \<Rightarrow> cell_t \<Rightarrow> rname \<Rightarrow> rname \<Rightarrow> int \<Rightarrow> rname \<Rightarrow> rname \<Rightarrow> int \<Rightarrow> repeat_pattern \<Rightarrow>
    int wm" where
  "store_part m wr_cell mname addr_name sig_addr_bits original_value write_word order en_part =
     (if bit_wire (pat_bit en_part) \<noteq> None \<or> pat_bit en_part = Bit_state S1 then
        bindW (liftW (createMask (mem_width m) en_part False)) (\<lambda>load_mask.
        bindW (liftW (createMask (mem_width m) en_part True)) (\<lambda>store_mask.
        bindW (temp (mem_width m)) (\<lambda>wdata.
        bindW (temp (mem_width m)) (\<lambda>rdata.
        bindW (get_const store_mask) (\<lambda>sm.
        bindW (emitW (BINOP OP_AND wdata write_word sm)) (\<lambda>_.
        bindW (get_const load_mask) (\<lambda>lm.
        bindW (emitW (BINOP OP_AND rdata original_value lm)) (\<lambda>_.
        bindW (temp (mem_width m)) (\<lambda>combined_word.
        bindW (emitW (BINOP OP_OR combined_word wdata rdata)) (\<lambda>_.
        bindW (emitW (Emit (sourceInfo (cell_attrs wr_cell)))) (\<lambda>_.
        bindW (convert_sig [pat_bit en_part]) (\<lambda>pred.
        bindW (checked_predicate m wr_cell addr_name sig_addr_bits pred) (\<lambda>checked_pred.
        bindW (emitW (STORE combined_word addr_name checked_pred mname order)) (\<lambda>_.
        retW (order + 1)))))))))))))))
      else retW order)"

text \<open>A write port: \<open>order\<close> and \<open>write_port_order\<close> are the state of the loop.\<close>

definition convert_write :: "memory_t \<Rightarrow> rname \<Rightarrow> int \<times> int list \<Rightarrow> cell_t \<Rightarrow> (int \<times> int list) wm" where
  "convert_write m mname acc wr_cell =
     (let (order, write_port_order) = acc in
      bindW (liftW (param_int wr_cell ''PORTID'')) (\<lambda>_.
      bindW (liftW (param_bool wr_cell ''CLK_ENABLE'')) (\<lambda>clk. guardW clk Assert_failed (
      bindW (liftW (param_int wr_cell ''WIDTH'')) (\<lambda>width. guardW (width = mem_width m) Assert_failed (
      bindW (liftW (param_int wr_cell ''ABITS'')) (\<lambda>sig_addr_bits.
      bindW (liftW (getPort wr_cell ''EN'')) (\<lambda>en_sig. guardW (en_sig \<noteq> []) Log_error (\<lambda>w.
      let pattern = repeats_of (map (mod_sigmap (wmod w)) en_sig) in
      bindW (addrFromLowerBound m wr_cell) (\<lambda>addr_name.
      bindW (
        if length pattern = 1 then
          bindW (emitW (Emit (sourceInfo (cell_attrs wr_cell)))) (\<lambda>_.
          bindW (convert_sig [pat_bit (hd pattern)]) (\<lambda>predicate.
          bindW (port_name wr_cell ''DATA'') (\<lambda>wdata_name.
          bindW (checked_predicate m wr_cell addr_name sig_addr_bits predicate) (\<lambda>checked_pred.
          bindW (emitW (STORE wdata_name addr_name checked_pred mname order)) (\<lambda>_.
          retW (order + 1))))))
        else if \<not> all_state S1 en_sig then
          bindW (temp (mem_width m)) (\<lambda>original_value.
          bindW (emitW (LOAD original_value addr_name mname order)) (\<lambda>_.
          bindW (port_name wr_cell ''DATA'') (\<lambda>write_word.
          foldW (store_part m wr_cell mname addr_name sig_addr_bits original_value write_word) (order + 1) pattern)))
        else (\<lambda>w. Inl Log_error)) (\<lambda>order.
      bindW (liftW (param_int wr_cell ''PORTID'')) (\<lambda>portid.
      guardW (int (length write_port_order) = portid) Assert_failed (
      retW (order, write_port_order @ [order]))))) w)))))))))"

definition read_order :: "state list \<Rightarrow> int list \<Rightarrow> int res" where
  "read_order transparency_mask write_port_order =
     foldE (\<lambda>order port_ix.
       if transparency_mask ! port_ix = S1 then
         guardE (port_ix < length write_port_order) Undefined_behaviour (Inr (max order (write_port_order ! port_ix)))
       else Inr order) 0 [0..<length transparency_mask]"

definition convert_read :: "memory_t \<Rightarrow> rname \<Rightarrow> int list \<Rightarrow> cell_t \<Rightarrow> unit wm" where
  "convert_read m mname write_port_order rd_cell =
     bindW (liftW (getParam rd_cell ''TRANSPARENCY_MASK'')) (\<lambda>mask.
     bindW (liftW (read_order (bits mask) write_port_order)) (\<lambda>order.
     bindW (if order > 0 then
              guardW (\<not> is_fully_zero mask) Assert_failed (
              bindW (liftW (getParam rd_cell ''COLLISION_X_MASK'')) (\<lambda>cx.
              guardW (is_fully_zero cx) Assert_failed (retW ())))
            else retW ()) (\<lambda>_.
     bindW (liftW (param_int rd_cell ''WIDTH'')) (\<lambda>width. guardW (width = mem_width m) Assert_failed (
     bindW (liftW (param_int rd_cell ''ABITS'')) (\<lambda>sig_addr_bits.
     bindW (addrFromLowerBound m rd_cell) (\<lambda>addr_name.
     bindW (convertReadData rd_cell) (\<lambda>rdata_name.
     bindW (emitW (Emit (sourceInfo (cell_attrs rd_cell)))) (\<lambda>_.
     bindW (liftW (hasUpperBoundCheck m rd_cell)) (\<lambda>check.
     if \<not> check then emitW (LOAD rdata_name addr_name mname order)
     else
       bindW (liftW (param_int rd_cell ''WIDTH'')) (\<lambda>rd_width.
       bindW (temp rd_width) (\<lambda>raw_rd_name.
       bindW (emitW (LOAD raw_rd_name addr_name mname order)) (\<lambda>_.
       bindW (createBoundOk m addr_name sig_addr_bits) (\<lambda>bound_ok.
       bindW (const_num 0 rd_width) (\<lambda>zero.
       emitW (MUX rdata_name bound_ok zero raw_rd_name))))))))))))))))"

text \<open>\<open>std::sort\<close> by a parameter: it reads the keys only when there is something to compare.\<close>

fun read_keys :: "string \<Rightarrow> cell_t list \<Rightarrow> (int \<times> cell_t) list res" where
  "read_keys k [] = Inr []"
| "read_keys k (c # cs) = bindE (param_int c k) (\<lambda>v. bindE (read_keys k cs) (\<lambda>r. Inr ((v, c) # r)))"

definition sort_cells :: "string \<Rightarrow> cell_t list \<Rightarrow> cell_t list res" where
  "sort_cells k cs =
     (if length cs \<le> 1 then Inr cs
      else bindE (read_keys k cs) (\<lambda>kcs. Inr (map snd (sort_key fst kcs))))"

definition convertMemoryCell :: "string \<times> memory_t \<Rightarrow> unit wm" where
  "convertMemoryCell e =
     (let (mid, m) = e in
      bindW (getMemory m) (\<lambda>mname w.
      bindW (liftW (sort_cells ''PORTID'' [c. (k, c) \<leftarrow> memory_writes w, k = mid])) (\<lambda>write_operations.
      bindW (foldW (convert_write m mname) (1, []) write_operations) (\<lambda>(order, write_port_order) w.
      foldW (\<lambda>_. convert_read m mname write_port_order) () [c. (k, c) \<leftarrow> memory_reads w, k = mid] w)) w))"

section \<open>The pass\<close>

definition convert_connection :: "sigbit list \<times> sigbit list \<Rightarrow> unit wm" where
  "convert_connection con =
     bindW (emitW (Comment ''Connection'')) (\<lambda>_.
     bindW (convert_sig (fst con)) (\<lambda>l.
     bindW (convert_sig (snd con)) (\<lambda>r. emitW (MOV l r))))"

definition generate :: "unit wm" where
  "generate = (\<lambda>w.
     bindW (foldW (\<lambda>_. convert_cell) () (mod_cells (wmod w))) (\<lambda>_ w.
     bindW (liftW (sort_cells ''ORDER'' (syscalls w))) (\<lambda>cells w.
     bindW (\<lambda>w. foldW (\<lambda>_. convertSyscall) () cells (w\<lparr>syscalls := cells\<rparr>)) (\<lambda>_ w.
     bindW (foldW (\<lambda>_. convertMemoryCell) () (mod_memories (wmod w))) (\<lambda>_ w.
     foldW (\<lambda>_. convert_connection) () (mod_connections (wmod w)) w) w) w) w) w)"

text \<open>The text of the file.  The streams are written only when something was put into them.\<close>

definition append_section :: "string \<Rightarrow> string \<Rightarrow> string" where
  "append_section cmt s = ''// '' @ cmt @ endl @ (if s \<noteq> [] then s @ endl else [])"

definition emit_text :: "(sigbit list \<Rightarrow> string) \<Rightarrow> writer \<Rightarrow> string" where
  "emit_text ls w =
     ''.prog:'' @ endl @ ''.proc main:'' @ endl @
     append_section ''wires'' (concat (map print_def (wdefs w))) @
     append_section ''states'' (concat (map print_reg (regs w))) @
     append_section ''memories'' (concat (map print_mem (mems w))) @
     append_section ''constants'' (concat (map print_const (cdefs w))) @
     append_section ''instructions'' (concat (map (print_instr ls) (instrs w)))"

definition execute :: "(sigbit list \<Rightarrow> string) \<Rightarrow> string list \<Rightarrow> module_t \<Rightarrow> string res" where
  "execute ls args m =
     guardE (length args = 2) Log_error
       (bindE (generate (writer_new m)) (\<lambda>(_, w). Inr (emit_text ls w)))"

end
