(* ===== verification/WriterSem.thy ===== *)
theory WriterSem
  imports Writer Calc
begin

text \<open>
  The meaning of the generated instructions.  The instruction set of the Manticore processor is not part of the
  repository: an instruction holds of the values of the registers by a parameter \<open>sem\<close>, of which \<open>isa_ok\<close> states
  what the writer relies on, each law at the widths at which the writer uses the instruction.  The instructions of one cycle are read as a set of
  equations: \<open>models sem I w\<close> says that the
  values of the wires of the netlist and of the registers in \<open>I\<close> satisfy all declarations and
  instructions emitted so far.  Which register an instruction writes is not part of this reading; theory WriterDrive shows that
  every register is written by the instructions it should be written by.  \<open>computes\<close> is the specification of a member function that generates code, with one rule for each
  builder; the cells are proved against the constant evaluation of theory Calc.
\<close>

section \<open>Interpretations\<close>

record interp =
  env :: "rname \<Rightarrow> int"
  wd :: "rname \<Rightarrow> int"
  val :: "wire_t \<Rightarrow> nat \<Rightarrow> bool"
  reg_cur :: "nat \<Rightarrow> int"
  reg_next :: "nat \<Rightarrow> int"
  mem_reg :: "string \<Rightarrow> rname"

text \<open>Values and widths of the names of the program, the bits of the wires of the netlist, and the current and the
  next value of the register of a cell, by the identity of the cell, and the name a memory of the module has in the program.\<close>

fun bitv :: "interp \<Rightarrow> sigbit \<Rightarrow> bool" where
  "bitv I (Bit_state s) \<longleftrightarrow> s = S1"
| "bitv I (Bit_wire v i) \<longleftrightarrow> val I v (nat i)"

definition sigv :: "interp \<Rightarrow> sigbit list \<Rightarrow> int" where
  "sigv I sig = ubl (map (bitv I) sig)"

definition wirev :: "interp \<Rightarrow> wire_t \<Rightarrow> int" where
  "wirev I v = ubl (map (val I v) [0..<nat (wire_width v)])"

definition sig_const :: "interp \<Rightarrow> sigbit list \<Rightarrow> const_t" where
  "sig_const I sig = Const_bits (map (\<lambda>b. st (bitv I b)) sig)"

type_synonym isa = "(rname \<Rightarrow> int) \<Rightarrow> (rname \<Rightarrow> int) \<Rightarrow> instr \<Rightarrow> bool"

text \<open>The value of a register of a given width as a two's complement number.\<close>

definition signed_of :: "int \<Rightarrow> int \<Rightarrow> int" where
  "signed_of n v = (if 0 < n \<and> v \<ge> 2 ^ nat (n - 1) then v - 2 ^ nat n else v)"

definition alu_ok :: "isa \<Rightarrow> bool" where
  "alu_ok sem \<longleftrightarrow> (\<forall>wd env rd rs1 rs2.
     (wd rd = wd rs1 \<and> wd rs1 = wd rs2 \<longrightarrow>
        (sem wd env (BINOP OP_ADD rd rs1 rs2) \<longrightarrow> env rd = (env rs1 + env rs2) mod 2 ^ nat (wd rd)) \<and>
        (sem wd env (BINOP OP_SUB rd rs1 rs2) \<longrightarrow> env rd = (env rs1 - env rs2) mod 2 ^ nat (wd rd)) \<and>
        (sem wd env (BINOP OP_MUL rd rs1 rs2) \<longrightarrow> env rd = (env rs1 * env rs2) mod 2 ^ nat (wd rd)) \<and>
        (sem wd env (BINOP OP_AND rd rs1 rs2) \<longrightarrow> env rd = and (env rs1) (env rs2)) \<and>
        (sem wd env (BINOP OP_OR rd rs1 rs2) \<longrightarrow> env rd = or (env rs1) (env rs2)) \<and>
        (sem wd env (BINOP OP_XOR rd rs1 rs2) \<longrightarrow> env rd = xor (env rs1) (env rs2))) \<and>
     (wd rd = 1 \<and> wd rs1 = wd rs2 \<longrightarrow>
        (sem wd env (BINOP OP_SEQ rd rs1 rs2) \<longrightarrow> env rd = of_bool (env rs1 = env rs2)) \<and>
        (sem wd env (BINOP OP_SLT rd rs1 rs2) \<longrightarrow> env rd = of_bool (env rs1 < env rs2)) \<and>
        (sem wd env (BINOP OP_SLTS rd rs1 rs2) \<longrightarrow>
           env rd = of_bool (signed_of (wd rs1) (env rs1) < signed_of (wd rs2) (env rs2)))) \<and>
     (wd rd \<le> wd rs1 \<longrightarrow>
        (sem wd env (BINOP OP_SLL rd rs1 rs2) \<longrightarrow> env rd = (env rs1 * 2 ^ nat (env rs2)) mod 2 ^ nat (wd rd)) \<and>
        (sem wd env (BINOP OP_SRL rd rs1 rs2) \<longrightarrow> env rd = (env rs1 div 2 ^ nat (env rs2)) mod 2 ^ nat (wd rd))) \<and>
     (wd rd = wd rs1 \<longrightarrow> sem wd env (BINOP OP_SRA rd rs1 rs2) \<longrightarrow>
        env rd = (signed_of (wd rs1) (env rs1) div 2 ^ nat (env rs2)) mod 2 ^ nat (wd rd)))"

text \<open>Of the conditions of a \<open>PARMUX\<close> at most one holds.\<close>

definition parmux_value :: "(rname \<Rightarrow> int) \<Rightarrow> rname list \<Rightarrow> rname \<Rightarrow> rname list \<Rightarrow> int" where
  "parmux_value e choices def_case conds =
     (case filter (\<lambda>(k, c). e k = 1) (zip conds choices) of [] \<Rightarrow> e def_case | (k, c) # _ \<Rightarrow> e c)"

definition moves_ok :: "isa \<Rightarrow> bool" where
  "moves_ok sem \<longleftrightarrow> (\<forall>wd env rd rs.
     (\<forall>width. sem wd env (PADZERO rd rs width) \<longrightarrow> wd rd = width \<longrightarrow> wd rs \<le> width \<longrightarrow> env rd = env rs) \<and>
     (sem wd env (MOV rd rs) \<longrightarrow> wd rd = wd rs \<longrightarrow> env rd = env rs) \<and>
     (\<forall>offset len. sem wd env (SLICE rd rs offset len) \<longrightarrow> wd rd = len \<longrightarrow> 0 \<le> offset \<longrightarrow> offset + len \<le> wd rs \<longrightarrow>
        env rd = (env rs div 2 ^ nat offset) mod 2 ^ nat len) \<and>
     (\<forall>sel rtrue. sem wd env (MUX rd sel rs rtrue) \<longrightarrow> wd sel = 1 \<longrightarrow> wd rd = wd rs \<longrightarrow> wd rtrue = wd rs \<longrightarrow>
        env rd = (if env sel = 1 then env rtrue else env rs)) \<and>
     (\<forall>choices conds. sem wd env (PARMUX rd choices rs conds) \<longrightarrow> wd rd = wd rs \<longrightarrow>
        length choices = length conds \<longrightarrow> (\<forall>c\<in>set choices. wd c = wd rs) \<longrightarrow> (\<forall>k\<in>set conds. wd k = 1) \<longrightarrow>
        length (filter (\<lambda>k. env k = 1) conds) \<le> 1 \<longrightarrow> env rd = parmux_value env choices rs conds))"

definition isa_ok :: "isa \<Rightarrow> bool" where
  "isa_ok sem \<longleftrightarrow> alu_ok sem \<and> moves_ok sem"

primrec def_holds :: "interp \<Rightarrow> def_item \<Rightarrow> bool" where
  "def_holds I (Def_temp r n) \<longleftrightarrow> wd I r = n"
| "def_holds I (Def_wire r n) \<longleftrightarrow> wd I r = n"
| "def_holds I (Def_line s) \<longleftrightarrow> True"

definition const_holds :: "interp \<Rightarrow> const_item \<Rightarrow> bool" where
  "const_holds I c \<longleftrightarrow> wd I (consti_name c) = consti_size c \<and> env I (consti_name c) = uval (bits (consti_value c))"

definition reg_holds :: "interp \<Rightarrow> reg_item \<Rightarrow> bool" where
  "reg_holds I g \<longleftrightarrow> wd I (reg_input g) = reg_width g \<and> wd I (reg_output g) = reg_width g"

definition models :: "isa \<Rightarrow> interp \<Rightarrow> writer \<Rightarrow> bool" where
  "models sem I w \<longleftrightarrow>
     (\<forall>i\<in>set (instrs w). sem (wd I) (env I) i) \<and> (\<forall>d\<in>set (wdefs w). def_holds I d) \<and>
     (\<forall>c\<in>set (cdefs w). const_holds I c) \<and> (\<forall>g\<in>set (regs w). reg_holds I g) \<and>
     (\<forall>(v, n)\<in>set (wires w). env I n = wirev I v) \<and>
     (\<forall>(p, q, d)\<in>set (states w). env I q = reg_cur I p \<and> env I d = reg_next I p) \<and>
     (\<forall>(k, n)\<in>set (memories w). mem_reg I k = n)"

text \<open>Nothing that was emitted is taken back; system calls and memory ports are postponed by \<open>convert(Cell*)\<close> only.\<close>

definition emits :: "writer \<Rightarrow> writer \<Rightarrow> bool" where
  "emits w w' \<longleftrightarrow> set (instrs w) \<subseteq> set (instrs w') \<and> set (wdefs w) \<subseteq> set (wdefs w') \<and>
     set (cdefs w) \<subseteq> set (cdefs w') \<and> set (regs w) \<subseteq> set (regs w') \<and> set (wires w) \<subseteq> set (wires w') \<and>
     set (states w) \<subseteq> set (states w') \<and> set (memories w) \<subseteq> set (memories w') \<and> wmod w' = wmod w"

definition deferred :: "writer \<Rightarrow> cell_t list \<times> (string \<times> cell_t) list \<times> (string \<times> cell_t) list" where
  "deferred w = (syscalls w, memory_writes w, memory_reads w)"

definition extends :: "writer \<Rightarrow> writer \<Rightarrow> bool" where
  "extends w w' \<longleftrightarrow> emits w w' \<and> deferred w' = deferred w"

text \<open>The object while it translates the module \<open>md\<close>: every dictionary is covered by declarations, the signals already
  converted have their value in their register, and a register is as wide as the cell it was made for.\<close>

definition state_ok :: "module_t \<Rightarrow> nat \<Rightarrow> rname \<Rightarrow> rname \<Rightarrow> reg_item \<Rightarrow> bool" where
  "state_ok md p q d g \<longleftrightarrow> reg_input g = q \<and> reg_output g = d \<and>
     (\<forall>c\<in>set (mod_cells md). cell_ptr c = p \<longrightarrow> param_int c ''WIDTH'' = Inr (reg_width g))"

definition writer_wf :: "isa \<Rightarrow> module_t \<Rightarrow> writer \<Rightarrow> bool" where
  "writer_wf sem md w \<longleftrightarrow> wmod w = md \<and>
     (\<forall>(v, n)\<in>set (wires w). Def_wire n (wire_width v) \<in> set (wdefs w)) \<and>
     (\<forall>(bs, n)\<in>set (constants w). \<exists>c\<in>set (cdefs w).
        consti_name c = n \<and> consti_size c = int (length bs) \<and> uval (bits (consti_value c)) = uval bs) \<and>
     (\<forall>(sig, n)\<in>set (available_sigs w). \<forall>I. models sem I w \<longrightarrow> env I n = sigv I sig \<and> wd I n = int (length sig)) \<and>
     (\<forall>(p, q, d)\<in>set (states w). \<exists>g\<in>set (regs w). state_ok md p q d g)"

text \<open>A member function that succeeds from every well-formed state; \<open>H\<close> is what is known of the models of the state before,
  \<open>F\<close> what holds of the result in the models of the state after.\<close>

definition computes :: "isa \<Rightarrow> module_t \<Rightarrow> (interp \<Rightarrow> bool) \<Rightarrow> 'a wm \<Rightarrow> ('a \<Rightarrow> interp \<Rightarrow> bool) \<Rightarrow> bool" where
  "computes sem md H m F \<longleftrightarrow> (\<forall>w. writer_wf sem md w \<and> (\<forall>I. models sem I w \<longrightarrow> H I) \<longrightarrow>
     (\<exists>x w'. m w = Inr (x, w') \<and> writer_wf sem md w' \<and> extends w w' \<and> (\<forall>I. models sem I w' \<longrightarrow> F x I)))"

section \<open>Rules\<close>

lemma extends_refl [simp]: "extends w w"
  by (simp add: extends_def emits_def deferred_def)

lemma extends_trans: "extends u v \<Longrightarrow> extends v w \<Longrightarrow> extends u w"
  by (auto simp: extends_def emits_def deferred_def)

lemma ball_superset: "A \<subseteq> B \<Longrightarrow> Ball B P \<Longrightarrow> Ball A P"
  by blast

lemma emits_models: "emits w w' \<Longrightarrow> models sem I w' \<Longrightarrow> models sem I w"
  unfolding emits_def models_def by (elim conjE, intro conjI; erule (1) ball_superset)

lemma models_mono: "extends w w' \<Longrightarrow> models sem I w' \<Longrightarrow> models sem I w"
  unfolding extends_def using emits_models by blast

lemma extends_emits: "extends w w' \<Longrightarrow> emits w w'"
  by (simp add: extends_def)

lemma computesI:
  assumes "\<And>w. writer_wf sem md w \<Longrightarrow> (\<And>I. models sem I w \<Longrightarrow> H I) \<Longrightarrow>
    \<exists>x w'. m w = Inr (x, w') \<and> writer_wf sem md w' \<and> extends w w' \<and> (\<forall>I. models sem I w' \<longrightarrow> F x I)"
  shows "computes sem md H m F"
  using assms by (simp add: computes_def)

lemma computesE:
  assumes "computes sem md H m F" "writer_wf sem md w" "\<And>I. models sem I w \<Longrightarrow> H I"
  obtains x w' where "m w = Inr (x, w')" "writer_wf sem md w'" "extends w w'" "\<And>I. models sem I w' \<Longrightarrow> F x I"
  using assms unfolding computes_def by blast

lemma computes_ret:
  assumes "\<And>I. H I \<Longrightarrow> F x I"
  shows "computes sem md H (retW x) F"
  using assms by (auto simp: computes_def retW_def)

lemma computes_frame:
  assumes "computes sem md (\<lambda>_. True) m F"
  shows "computes sem md H m (\<lambda>x I. H I \<and> F x I)"
proof (rule computesI)
  fix w assume w: "writer_wf sem md w" and h: "\<And>I. models sem I w \<Longrightarrow> H I"
  obtain x w1 where 1: "m w = Inr (x, w1)" "writer_wf sem md w1" "extends w w1" "\<And>I. models sem I w1 \<Longrightarrow> F x I"
    using computesE [OF assms w] by blast
  then show "\<exists>x w'. m w = Inr (x, w') \<and> writer_wf sem md w' \<and> extends w w' \<and> (\<forall>I. models sem I w' \<longrightarrow> H I \<and> F x I)"
    using models_mono [OF 1(3)] h by blast
qed

lemma computes_seq:
  assumes "computes sem md H m F" "\<And>x. computes sem md (F x) (f x) G"
  shows "computes sem md H (bindW m f) G"
proof (rule computesI)
  fix w assume w: "writer_wf sem md w" and h: "\<And>I. models sem I w \<Longrightarrow> H I"
  obtain x w1 where 1: "m w = Inr (x, w1)" "writer_wf sem md w1" "extends w w1" "\<And>I. models sem I w1 \<Longrightarrow> F x I"
    using computesE [OF assms(1) w h] by blast
  obtain y w2 where 2: "f x w1 = Inr (y, w2)" "writer_wf sem md w2" "extends w1 w2" "\<And>I. models sem I w2 \<Longrightarrow> G y I"
    using computesE [OF assms(2) 1(2) 1(4)] by blast
  have "bindW m f w = Inr (y, w2)"
    by (simp add: bindW_def 1(1) 2(1))
  then show "\<exists>y w2. bindW m f w = Inr (y, w2) \<and> writer_wf sem md w2 \<and> extends w w2 \<and>
      (\<forall>I. models sem I w2 \<longrightarrow> G y I)"
    using 2 extends_trans [OF 1(3) 2(3)] by blast
qed

text \<open>The rule for a call whose specification does not depend on what is known before.\<close>

lemma computes_bind:
  assumes "computes sem md (\<lambda>_. True) m F" "\<And>x. computes sem md (\<lambda>I. H I \<and> F x I) (f x) G"
  shows "computes sem md H (bindW m f) G"
  by (rule computes_seq [OF computes_frame [OF assms(1)] assms(2)])

lemma computes_last:
  assumes "computes sem md (\<lambda>_. True) m F" "\<And>x I. H I \<Longrightarrow> F x I \<Longrightarrow> G x I"
  shows "computes sem md H m G"
proof -
  have "computes sem md H m (\<lambda>x I. H I \<and> F x I)" by (rule computes_frame [OF assms(1)])
  then show ?thesis
    using assms(2) unfolding computes_def by blast
qed

lemma bindW_lift [simp]: "bindW (liftW (Inr x)) f = f x"
  by (simp add: bindW_def liftW_def)

lemma guardW_simps [simp]: "guardW True e m = m" "ok \<Longrightarrow> guardW ok e m = m"
  by (simp_all add: guardW_def)

lemma bindW_ret [simp]: "bindW (retW x) f = f x"
  by (simp add: bindW_def retW_def)

lemma bindW_assoc: "bindW (bindW m f) g = bindW m (\<lambda>x. bindW (f x) g)"
  by (rule ext) (simp add: bindW_def split: sum.splits prod.splits)

lemma wf_step:
  assumes "writer_wf sem md w" "emits w w'"
    and "\<And>v n. (v, n) \<in> set (wires w') \<Longrightarrow> (v, n) \<notin> set (wires w) \<Longrightarrow> Def_wire n (wire_width v) \<in> set (wdefs w')"
    and "\<And>bs n. (bs, n) \<in> set (constants w') \<Longrightarrow> (bs, n) \<notin> set (constants w) \<Longrightarrow> \<exists>c\<in>set (cdefs w').
        consti_name c = n \<and> consti_size c = int (length bs) \<and> uval (bits (consti_value c)) = uval bs"
    and "\<And>sig n I. (sig, n) \<in> set (available_sigs w') \<Longrightarrow> (sig, n) \<notin> set (available_sigs w) \<Longrightarrow>
        models sem I w' \<Longrightarrow> env I n = sigv I sig \<and> wd I n = int (length sig)"
    and "\<And>p q d. (p, q, d) \<in> set (states w') \<Longrightarrow> (p, q, d) \<notin> set (states w) \<Longrightarrow>
        \<exists>g\<in>set (regs w'). state_ok md p q d g"
  shows "writer_wf sem md w'"
proof -
  have s: "set (wdefs w) \<subseteq> set (wdefs w')" "set (cdefs w) \<subseteq> set (cdefs w')" "set (regs w) \<subseteq> set (regs w')"
    using assms(2) by (simp_all add: extends_def emits_def deferred_def)
  have "Def_wire n (wire_width v) \<in> set (wdefs w')" if "(v, n) \<in> set (wires w')" for v n
    using assms(1) assms(3) [OF that] s(1) unfolding writer_wf_def by fast
  moreover have "\<exists>c\<in>set (cdefs w'). consti_name c = n \<and> consti_size c = int (length bs) \<and>
      uval (bits (consti_value c)) = uval bs" if "(bs, n) \<in> set (constants w')" for bs n
    using assms(1) assms(4) [OF that] s(2) unfolding writer_wf_def by fast
  moreover have "env I n = sigv I sig \<and> wd I n = int (length sig)"
    if "(sig, n) \<in> set (available_sigs w')" "models sem I w'" for sig n I
    using assms(1) assms(5) [OF that(1) _ that(2)] emits_models [OF assms(2) that(2)] unfolding writer_wf_def by fast
  moreover have "\<exists>g\<in>set (regs w'). state_ok md p q d g" if "(p, q, d) \<in> set (states w')" for p q d
    using assms(1) assms(6) [OF that] s(3) unfolding writer_wf_def by fast
  moreover have "wmod w' = md" using assms(1,2) by (simp add: writer_wf_def emits_def)
  ultimately show ?thesis
    unfolding writer_wf_def by blast
qed

lemma computes_emit: "computes sem md (\<lambda>_. True) (emitW i) (\<lambda>_ I. sem (wd I) (env I) i)"
proof (rule computesI)
  fix w assume w: "writer_wf sem md w"
  let ?w = "w\<lparr>instrs := instrs w @ [i]\<rparr>"
  have e: "extends w ?w" by (auto simp: extends_def emits_def deferred_def)
  have "writer_wf sem md ?w" by (rule wf_step [OF w extends_emits [OF e]]) simp_all
  then show "\<exists>x w'. emitW i w = Inr (x, w') \<and> writer_wf sem md w' \<and> extends w w' \<and>
      (\<forall>I. models sem I w' \<longrightarrow> sem (wd I) (env I) i)"
    using e by (auto simp: emitW_def models_def)
qed

lemma computes_temp: "computes sem md (\<lambda>_. True) (temp n) (\<lambda>x I. wd I x = n)"
proof (rule computesI)
  fix w assume w: "writer_wf sem md w"
  let ?r = "Rname CHR ''w'' (wire_index w)"
  let ?w = "w\<lparr>wire_index := wire_index w + 1, wdefs := wdefs w @ [Def_temp ?r n]\<rparr>"
  have e: "extends w ?w" by (auto simp: extends_def emits_def deferred_def)
  have "writer_wf sem md ?w" by (rule wf_step [OF w extends_emits [OF e]]) simp_all
  moreover have "temp n w = Inr (?r, ?w)"
    by (simp add: temp_def bindW_def next_name_def add_def_def retW_def)
  ultimately show "\<exists>x w'. temp n w = Inr (x, w') \<and> writer_wf sem md w' \<and> extends w w' \<and>
      (\<forall>I. models sem I w' \<longrightarrow> wd I x = n)"
    using e by (auto simp: models_def)
qed

lemma computes_get_wire:
  "computes sem md (\<lambda>_. True) (get_wire v) (\<lambda>n I. env I n = wirev I v \<and> wd I n = wire_width v)"
proof (rule computesI)
  fix w assume w: "writer_wf sem md w"
  show "\<exists>n w'. get_wire v w = Inr (n, w') \<and> writer_wf sem md w' \<and> extends w w' \<and>
      (\<forall>I. models sem I w' \<longrightarrow> env I n = wirev I v \<and> wd I n = wire_width v)"
  proof (cases "map_of (wires w) v")
    case None
    let ?r = "Rname CHR ''w'' (wire_index w)"
    let ?ls = "wire_lines (mod_wire_name (wmod w) v) (mod_wire_attrs (wmod w) v)"
    let ?w = "w\<lparr>wire_index := wire_index w + 1, wdefs := wdefs w @ ?ls @ [Def_wire ?r (wire_width v)],
                wires := (v, ?r) # wires w\<rparr>"
    have e: "extends w ?w" by (auto simp: extends_def emits_def deferred_def)
    have "writer_wf sem md ?w" by (rule wf_step [OF w extends_emits [OF e]]) auto
    moreover have "get_wire v w = Inr (?r, ?w)"
      by (simp add: get_wire_def None bindW_def next_name_def)
    ultimately show ?thesis
      using e by (auto simp: models_def)
  next
    case (Some n)
    then have n: "(v, n) \<in> set (wires w)" by (rule map_of_SomeD)
    then have "Def_wire n (wire_width v) \<in> set (wdefs w)"
      using w by (auto simp: writer_wf_def)
    then have "env I n = wirev I v \<and> wd I n = wire_width v" if "models sem I w" for I
      using that n by (force simp: models_def)
    then show ?thesis
      using w Some by (auto simp: get_wire_def)
  qed
qed

lemma uval_resolve: "uval (map (\<lambda>b. if b = S0 \<or> b = S1 then b else S0) bs) = uval bs"
proof -
  have "(\<lambda>b. (if b = S0 \<or> b = S1 then b else S0) = S1) = (\<lambda>b. b = S1)"
    by auto
  then show ?thesis
    by (simp add: uval_def comp_def)
qed

lemma computes_get_const:
  "computes sem md (\<lambda>_. True) (get_const c) (\<lambda>n I. env I n = uval (bits c) \<and> wd I n = int (length (bits c)))"
proof (rule computesI)
  fix w assume w: "writer_wf sem md w"
  show "\<exists>n w'. get_const c w = Inr (n, w') \<and> writer_wf sem md w' \<and> extends w w' \<and>
      (\<forall>I. models sem I w' \<longrightarrow> env I n = uval (bits c) \<and> wd I n = int (length (bits c)))"
  proof (cases "map_of (constants w) (bits c)")
    case None
    let ?r = "Rname CHR ''c'' (const_index w)"
    let ?v = "if \<not> is_fully_def c then Const_bits (map (\<lambda>b. if b = S0 \<or> b = S1 then b else S0) (bits c)) else c"
    let ?i = "\<lparr>consti_name = ?r, consti_size = int (length (bits c)), consti_value = ?v\<rparr>"
    let ?w = "w\<lparr>const_index := const_index w + 1, cdefs := cdefs w @ [?i], constants := (bits c, ?r) # constants w\<rparr>"
    have v: "uval (bits ?v) = uval (bits c)" by (simp add: uval_resolve)
    have e: "extends w ?w" by (auto simp: extends_def emits_def deferred_def)
    have "writer_wf sem md ?w"
      by (rule wf_step [OF w extends_emits [OF e]]) (use v in auto)
    moreover have "get_const c w = Inr (?r, ?w)"
      by (simp add: get_const_def None Let_def)
    ultimately show ?thesis
      using e v by (auto simp: models_def const_holds_def)
  next
    case (Some n)
    then have n: "(bits c, n) \<in> set (constants w)" by (rule map_of_SomeD)
    then obtain i where "i \<in> set (cdefs w)" "consti_name i = n" "consti_size i = int (length (bits c))"
      "uval (bits (consti_value i)) = uval (bits c)"
      using w unfolding writer_wf_def by fast
    then have "env I n = uval (bits c) \<and> wd I n = int (length (bits c))" if "models sem I w" for I
      using that unfolding models_def const_holds_def by metis
    then show ?thesis
      using w Some by (auto simp: get_const_def)
  qed
qed

lemma computes_emplace:
  assumes "\<And>I. H I \<Longrightarrow> env I n = sigv I sig \<and> wd I n = int (length sig)"
  shows "computes sem md H (emplace_sig sig n) (\<lambda>_. H)"
proof (rule computesI)
  fix w assume w: "writer_wf sem md w" and h: "\<And>I. models sem I w \<Longrightarrow> H I"
  obtain w2 where 2: "emplace_sig sig n w = Inr ((), w2)" by (simp add: emplace_sig_def)
  have e: "extends w w2" using 2 by (auto simp: emplace_sig_def extends_def emits_def deferred_def split: if_splits)
  have s: "set (available_sigs w2) \<subseteq> insert (sig, n) (set (available_sigs w))"
    "wires w2 = wires w" "constants w2 = constants w" "states w2 = states w"
    using 2 by (auto simp: emplace_sig_def split: if_splits)
  have h2: "H I" if "models sem I w2" for I
    using h models_mono [OF e that] by blast
  have "env I k = sigv I t \<and> wd I k = int (length t)"
    if "(t, k) \<in> set (available_sigs w2)" "(t, k) \<notin> set (available_sigs w)" "models sem I w2" for t k I
  proof -
    have "t = sig" "k = n" using that(1,2) s(1) by auto
    then show ?thesis using assms [OF h2 [OF that(3)]] by simp
  qed
  then have "writer_wf sem md w2"
    by (rule wf_step [OF w extends_emits [OF e], rotated 2]) (use s in simp_all)
  then show "\<exists>x w'. emplace_sig sig n w = Inr (x, w') \<and> writer_wf sem md w' \<and> extends w w' \<and>
      (\<forall>I. models sem I w' \<longrightarrow> H I)"
    using 2 e h2 by blast
qed

definition carries :: "sigbit list \<Rightarrow> rname \<Rightarrow> interp \<Rightarrow> bool" where
  "carries sig n I \<longleftrightarrow> env I n = sigv I sig \<and> wd I n = int (length sig)"

lemma emplace_ok:
  assumes "\<And>I. H I \<Longrightarrow> carries sig n I"
  shows "computes sem md H (emplace_sig sig n) (\<lambda>_. H)"
  using assms unfolding carries_def by (rule computes_emplace)

lemma isa_PADZERO:
  assumes "isa_ok sem" "sem e d (PADZERO rd rs n)" "e rd = n" "e rs \<le> n"
  shows "d rd = d rs"
  using assms unfolding isa_ok_def moves_ok_def by blast

lemma isa_MOV:
  assumes "isa_ok sem" "sem e d (MOV rd rs)" "e rd = e rs"
  shows "d rd = d rs"
  using assms unfolding isa_ok_def moves_ok_def by blast

lemma isa_SLICE:
  assumes "isa_ok sem" "sem e d (SLICE rd rs offset len)" "e rd = len" "0 \<le> offset" "offset + len \<le> e rs"
  shows "d rd = (d rs div 2 ^ nat offset) mod 2 ^ nat len"
  using assms unfolding isa_ok_def moves_ok_def by blast

lemma isa_MUX:
  assumes "isa_ok sem" "sem e d (MUX rd sel rfalse rtrue)" "e sel = 1" "e rd = e rfalse" "e rtrue = e rfalse"
  shows "d rd = (if d sel = 1 then d rtrue else d rfalse)"
  using assms unfolding isa_ok_def moves_ok_def by blast

lemma isa_equal_widths:
  assumes "isa_ok sem" "e rd = e rs1" "e rs1 = e rs2"
  shows "sem e d (BINOP OP_ADD rd rs1 rs2) \<Longrightarrow> d rd = (d rs1 + d rs2) mod 2 ^ nat (e rd)"
    "sem e d (BINOP OP_SUB rd rs1 rs2) \<Longrightarrow> d rd = (d rs1 - d rs2) mod 2 ^ nat (e rd)"
    "sem e d (BINOP OP_MUL rd rs1 rs2) \<Longrightarrow> d rd = (d rs1 * d rs2) mod 2 ^ nat (e rd)"
    "sem e d (BINOP OP_AND rd rs1 rs2) \<Longrightarrow> d rd = and (d rs1) (d rs2)"
    "sem e d (BINOP OP_OR rd rs1 rs2) \<Longrightarrow> d rd = or (d rs1) (d rs2)"
    "sem e d (BINOP OP_XOR rd rs1 rs2) \<Longrightarrow> d rd = xor (d rs1) (d rs2)"
  using assms unfolding isa_ok_def alu_ok_def by blast+

lemma isa_compare:
  assumes "isa_ok sem" "e rd = 1" "e rs1 = e rs2"
  shows "sem e d (BINOP OP_SEQ rd rs1 rs2) \<Longrightarrow> d rd = of_bool (d rs1 = d rs2)"
    "sem e d (BINOP OP_SLT rd rs1 rs2) \<Longrightarrow> d rd = of_bool (d rs1 < d rs2)"
    "sem e d (BINOP OP_SLTS rd rs1 rs2) \<Longrightarrow> d rd = of_bool (signed_of (e rs1) (d rs1) < signed_of (e rs2) (d rs2))"
  using assms unfolding isa_ok_def alu_ok_def by blast+

lemma isa_shift:
  assumes "isa_ok sem"
  shows "sem e d (BINOP OP_SLL rd rs1 rs2) \<Longrightarrow> e rd \<le> e rs1 \<Longrightarrow> d rd = (d rs1 * 2 ^ nat (d rs2)) mod 2 ^ nat (e rd)"
    "sem e d (BINOP OP_SRL rd rs1 rs2) \<Longrightarrow> e rd \<le> e rs1 \<Longrightarrow> d rd = (d rs1 div 2 ^ nat (d rs2)) mod 2 ^ nat (e rd)"
    "sem e d (BINOP OP_SRA rd rs1 rs2) \<Longrightarrow> e rd = e rs1 \<Longrightarrow> d rd = (signed_of (e rs1) (d rs1) div 2 ^ nat (d rs2)) mod 2 ^ nat (e rd)"
  using assms unfolding isa_ok_def alu_ok_def by blast+

section \<open>Values of signals\<close>

lemma sigv_bounds: "0 \<le> sigv I sig" "sigv I sig < 2 ^ length sig"
  using ubl_less [of "map (bitv I) sig"] by (simp_all add: sigv_def)

lemma sigv_append: "sigv I (xs @ ys) = sigv I xs + 2 ^ length xs * sigv I ys"
  by (simp add: sigv_def ubl_append)

lemma bit_sigv: "bit (sigv I sig) i \<longleftrightarrow> i < length sig \<and> bitv I (sig ! i)"
  by (auto simp: sigv_def bit_ubl)

lemma sigv_states: "sigv I (map Bit_state bs) = uval bs"
  by (simp add: sigv_def uval_def comp_def)

lemma sigv_slice:
  assumes "i + n \<le> length sig"
  shows "sigv I (take n (drop i sig)) = (sigv I sig div 2 ^ i) mod 2 ^ n"
proof -
  have "sigv I (take n (drop i sig)) = take_bit n (drop_bit i (sigv I sig))"
    by (rule bit_eqI) (use assms in \<open>auto simp: bit_sigv bit_take_bit_iff bit_drop_bit_eq\<close>)
  then show ?thesis
    by (simp add: take_bit_eq_mod drop_bit_eq_div)
qed

definition wire_sig :: "wire_t \<Rightarrow> sigbit list" where
  "wire_sig v = map (\<lambda>i. Bit_wire v (int i)) [0..<nat (wire_width v)]"

lemma wirev_sig: "wirev I v = sigv I (wire_sig v)"
  by (simp add: wirev_def sigv_def wire_sig_def comp_def)

lemma length_wire_sig [simp]: "length (wire_sig v) = nat (wire_width v)"
  by (simp add: wire_sig_def)

lemma chunk_slice:
  assumes "chunk_ok c" "cwire c = Some v"
  shows "chunk_bits c = take (nat (cwidth c)) (drop (nat (coffset c)) (wire_sig v))"
    "nat (coffset c) + nat (cwidth c) \<le> length (wire_sig v)"
proof -
  have o: "0 \<le> coffset c" "0 \<le> cwidth c" "coffset c + cwidth c \<le> wire_width v"
    using assms by (auto simp: chunk_ok_def)
  show *: "nat (coffset c) + nat (cwidth c) \<le> length (wire_sig v)"
    using o by simp
  show "chunk_bits c = take (nat (cwidth c)) (drop (nat (coffset c)) (wire_sig v))"
    by (rule nth_equalityI) (use o * assms in \<open>auto simp: chunk_bits_wire wire_sig_def\<close>)
qed

lemma length_chunk_bits [simp]: "length (chunk_bits c) = nat (cwidth c)"
  by (simp add: chunk_bits_def)

lemma chunk_ok_pos: "chunk_ok c \<Longrightarrow> 0 < cwidth c"
  by (auto simp: chunk_ok_def split: option.splits)

section \<open>Chunks and signals\<close>

lemma computes_available:
  assumes "\<And>w. map_of (available_sigs w) sig = None \<Longrightarrow> m w = g w" "computes sem md (\<lambda>_. True) g (carries sig)"
    and "\<And>w n. map_of (available_sigs w) sig = Some n \<Longrightarrow> m w = Inr (n, w)"
  shows "computes sem md (\<lambda>_. True) m (carries sig)"
proof (rule computesI)
  fix w assume w: "writer_wf sem md w"
  show "\<exists>x w'. m w = Inr (x, w') \<and> writer_wf sem md w' \<and> extends w w' \<and> (\<forall>I. models sem I w' \<longrightarrow> carries sig x I)"
  proof (cases "map_of (available_sigs w) sig")
    case None
    then show ?thesis
      using computesE [OF assms(2) w] assms(1) by metis
  next
    case (Some n)
    then have "(sig, n) \<in> set (available_sigs w)" by (rule map_of_SomeD)
    then have "\<forall>I. models sem I w \<longrightarrow> carries sig n I"
      using w unfolding writer_wf_def carries_def by fast
    then show ?thesis
      using w assms(3) [OF Some] by auto
  qed
qed

lemma convert_chunk_ok:
  assumes isa: "isa_ok sem" and c: "chunk_ok c"
  shows "computes sem md (\<lambda>_. True) (convert_chunk c) (carries (chunk_bits c))"
proof (cases "cwire c")
  case None
  have d: "int (length (cdata c)) = cwidth c"
    using c None by (simp add: chunk_ok_def)
  have "computes sem md (\<lambda>_. True) (get_const (Const_bits (cdata c))) (carries (chunk_bits c))"
    by (rule computes_last [OF computes_get_const])
      (use d in \<open>simp add: carries_def chunk_bits_const [OF None d] sigv_states\<close>)
  then show ?thesis
    by (rule computes_available [rotated]) (simp_all add: convert_chunk_def None)
next
  case (Some v)
  note sl = chunk_slice [OF c Some]
  note p = chunk_ok_pos [OF c]
  show ?thesis
  proof (cases "wire_width v = cwidth c")
    case True
    then have "coffset c = 0" using c Some by (auto simp: chunk_ok_def)
    then have b: "chunk_bits c = wire_sig v" using sl(1) True by simp
    have "computes sem md (\<lambda>_. True) (bindW (get_wire v) (\<lambda>n. bindW (emplace_sig (chunk_bits c) n) (\<lambda>_. retW n)))
        (carries (chunk_bits c))"
      by (rule computes_bind [OF computes_get_wire], rule computes_seq [OF computes_emplace], simp_all)
        (use b True p in \<open>auto intro!: computes_ret simp: carries_def wirev_sig\<close>)
    then show ?thesis
      by (rule computes_available [rotated]) (simp_all add: convert_chunk_def Some True)
  next
    case False
    have o: "0 \<le> coffset c" "coffset c + cwidth c \<le> wire_width v"
      using c Some by (auto simp: chunk_ok_def)
    have val: "carries (chunk_bits c) n I"
      if "wd I n = cwidth c" "env I k = wirev I v" "wd I k = wire_width v"
        "sem (wd I) (env I) (SLICE n k (coffset c) (cwidth c))" for n k I
      using isa_SLICE [OF isa that(4)] that(1-3) o p sigv_slice [OF sl(2), of I]
      unfolding carries_def length_chunk_bits unfolding sl(1) by (simp add: wirev_sig)
    have "computes sem md (\<lambda>_. True)
       (bindW (temp (cwidth c)) (\<lambda>chunk_name.
        bindW (get_wire v) (\<lambda>n.
        bindW (emitW (SLICE chunk_name n (coffset c) (cwidth c))) (\<lambda>_.
        bindW (emplace_sig (chunk_bits c) chunk_name) (\<lambda>_. retW chunk_name))))) (carries (chunk_bits c))"
      by (rule computes_bind [OF computes_temp], rule computes_bind [OF computes_get_wire],
          rule computes_bind [OF computes_emit], rule computes_seq [OF emplace_ok])
        (use val in \<open>auto intro!: computes_ret\<close>)
    then show ?thesis
      by (rule computes_available [rotated]) (simp_all add: convert_chunk_def Some False)
  qed
qed


lemma int_bits_eq: "int_bits n v = map st (bl_of_int n v)"
proof (induction n arbitrary: v)
  case (Suc n)
  have "bl_of_int (Suc n) v = odd v # bl_of_int n (drop_bit 1 v)"
    unfolding bl_of_int_def upt_conv_Cons [OF zero_less_Suc] map_Suc_upt [symmetric]
    by (simp add: bit_0 bit_Suc drop_bit_eq_div)
  then show ?case
    using Suc by (simp add: and_one_eq odd_iff_mod_2_eq_one)
qed (simp add: bl_of_int_def)

lemma const_num_ok:
  assumes "0 \<le> v" "v < 2 ^ nat n" "0 \<le> n"
  shows "computes sem md (\<lambda>_. True) (const_num v n) (\<lambda>k I. env I k = v \<and> wd I k = n)"
  unfolding const_num_def Const_int_def guardE_def using assms
  by (simp, intro computes_last [OF computes_get_const]) (simp add: int_bits_eq ubl_bl_of_int)

lemma or_disjoint:
  fixes a b :: int
  assumes "0 \<le> a" "a < 2 ^ n"
  shows "or (b * 2 ^ n) a = a + 2 ^ n * b"
proof -
  have "and (b * 2 ^ n) a = 0"
  proof (rule bit_eqI)
    fix i
    have "\<not> bit a i" if "n \<le> i"
      using assms that by (metis bit_take_bit_iff linorder_not_less mod_pos_pos_trivial take_bit_eq_mod)
    then show "bit (and (b * 2 ^ n) a) i \<longleftrightarrow> bit (0 :: int) i"
      by (auto simp: bit_and_iff bit_push_bit_iff push_bit_eq_mult [symmetric])
  qed
  then show ?thesis
    by (simp add: disjunctive_add_eq_or [symmetric] mult.commute)
qed

lemma concat_value:
  assumes isa: "isa_ok sem" and pre: "carries pre prev I" and c: "carries bs n I"
    and w: "cw = int (length pre + length bs)" "wd I op1 = cw" "wd I op2 = cw" "wd I sh = cw" "wd I r = cw"
    and k: "env I k = int (length pre)"
    and i: "sem (wd I) (env I) (PADZERO op1 prev cw)" "sem (wd I) (env I) (PADZERO op2 n cw)"
      "sem (wd I) (env I) (BINOP OP_SLL sh op2 k)" "sem (wd I) (env I) (BINOP OP_OR r sh op1)"
  shows "carries (pre @ bs) r I"
proof -
  have v: "env I op1 = sigv I pre" "env I op2 = sigv I bs"
    using isa_PADZERO [OF isa i(1)] isa_PADZERO [OF isa i(2)] w pre c by (simp_all add: carries_def)
  have "sigv I bs * 2 ^ length pre < 2 ^ nat cw"
    using sigv_bounds(2) [of I bs] w(1) by (simp add: power_add mult.commute nat_add_distrib)
  then have s: "env I sh = sigv I bs * 2 ^ length pre"
    using isa_shift(1) [OF isa i(3)] v(2) k w(3,4) sigv_bounds(1) [of I bs] by simp
  have "env I r = sigv I (pre @ bs)"
    using isa_equal_widths(5) [OF isa _ _ i(4)] w s v(1) or_disjoint [OF sigv_bounds [of I pre], of "sigv I bs"]
    by (simp add: sigv_append)
  then show ?thesis
    using w by (simp add: carries_def)
qed


lemma concat_step_ok:
  assumes isa: "isa_ok sem" and c: "chunk_ok c" and l: "length pre < 2 ^ 32"
  shows "computes sem md (carries pre prev) (concat_step (pre, prev, int (length pre)) c)
    (\<lambda>(s, r, p). carries (pre @ chunk_bits c) r)"
proof -
  let ?cw = "int (length (pre @ chunk_bits c))"
  have cw: "?cw = int (length pre + length (chunk_bits c))" by simp
  have num: "bindW (liftW (Const_int (int (length pre)) 32)) (\<lambda>k. bindW (get_const k) f) =
      bindW (const_num (int (length pre)) 32) f" for f :: "rname \<Rightarrow> (sigbit list \<times> rname \<times> int) wm"
    by (simp add: const_num_def bindW_assoc)
  have k: "computes sem md (\<lambda>_. True) (const_num (int (length pre)) 32) (\<lambda>k I. env I k = int (length pre) \<and> wd I k = 32)"
    by (rule const_num_ok) (use l in \<open>simp_all\<close>)
  show ?thesis
    unfolding concat_step_def Let_def prod.case num
    by (rule computes_bind [OF computes_temp], rule computes_bind [OF computes_temp],
        rule computes_bind [OF computes_emit], rule computes_bind [OF convert_chunk_ok [OF isa c]],
        rule computes_bind [OF computes_emit], rule computes_bind [OF computes_temp], rule computes_bind [OF k],
        rule computes_bind [OF computes_emit], rule computes_bind [OF computes_temp],
        rule computes_bind [OF computes_emit], rule computes_seq [OF emplace_ok];
        (rule computes_ret)?; (elim conjE)?; (intro prod.case [THEN iffD2] conjI refl)?)
      (blast intro: concat_value [OF isa _ _ cw])+
qed


lemma computes_seq_pure:
  assumes "computes sem md H m F" "\<And>w x w'. m w = Inr (x, w') \<Longrightarrow> P x" "\<And>x. P x \<Longrightarrow> computes sem md (F x) (f x) G"
  shows "computes sem md H (bindW m f) G"
proof (rule computesI)
  fix w assume w: "writer_wf sem md w" and h: "\<And>I. models sem I w \<Longrightarrow> H I"
  obtain x w1 where 1: "m w = Inr (x, w1)" "writer_wf sem md w1" "extends w w1" "\<And>I. models sem I w1 \<Longrightarrow> F x I"
    using computesE [OF assms(1) w h] by blast
  obtain y w2 where 2: "f x w1 = Inr (y, w2)" "writer_wf sem md w2" "extends w1 w2" "\<And>I. models sem I w2 \<Longrightarrow> G y I"
    using computesE [OF assms(3) [OF assms(2) [OF 1(1)]] 1(2) 1(4)] by blast
  have "bindW m f w = Inr (y, w2)"
    by (simp add: bindW_def 1(1) 2(1))
  then show "\<exists>y w2. bindW m f w = Inr (y, w2) \<and> writer_wf sem md w2 \<and> extends w w2 \<and>
      (\<forall>I. models sem I w2 \<longrightarrow> G y I)"
    using 2 extends_trans [OF 1(3) 2(3)] by blast
qed

lemma bindW_InrE:
  assumes "bindW m f w = Inr (y, w2)"
  obtains x w1 where "m w = Inr (x, w1)" "f x w1 = Inr (y, w2)"
  using assms by (auto simp: bindW_def split: sum.splits)

lemma concat_step_result:
  assumes "concat_step (pre, prev, pos) c w = Inr (x, w')"
  shows "\<exists>r. x = (pre @ chunk_bits c, r, int (length (pre @ chunk_bits c)))"
  using assms unfolding concat_step_def Let_def prod.case
  by (elim bindW_InrE) (auto simp: retW_def simp del: length_chunk_bits)

lemma concat_loop_ok:
  assumes "isa_ok sem" "list_all chunk_ok cs" "length (pre @ concat (map chunk_bits cs)) < 2 ^ 32"
  shows "computes sem md (carries pre prev) (foldW concat_step (pre, prev, int (length pre)) cs)
    (\<lambda>(s, r, p). carries (pre @ concat (map chunk_bits cs)) r)"
  using assms
proof (induction cs arbitrary: pre prev)
  case Nil
  then show ?case by (auto intro: computes_ret)
next
  case (Cons c cs)
  have step: "computes sem md (carries pre prev) (concat_step (pre, prev, int (length pre)) c)
      (\<lambda>(s, r, p). carries (pre @ chunk_bits c) r)"
    by (rule concat_step_ok) (use Cons.prems in auto)
  show ?case
    unfolding foldW.simps
  proof (rule computes_seq_pure [OF step, where P = "\<lambda>x. \<exists>r. x = (pre @ chunk_bits c, r, int (length (pre @ chunk_bits c)))"])
    show "\<exists>r. x = (pre @ chunk_bits c, r, int (length (pre @ chunk_bits c)))"
      if "concat_step (pre, prev, int (length pre)) c w = Inr (x, w')" for w x w'
      using that by (rule concat_step_result)
    show "computes sem md (case x of (s, r, p) \<Rightarrow> carries (pre @ chunk_bits c) r) (foldW concat_step x cs)
        (\<lambda>(s, r, p). carries (pre @ concat (map chunk_bits (c # cs))) r)"
      if "\<exists>r. x = (pre @ chunk_bits c, r, int (length (pre @ chunk_bits c)))" for x
      using that Cons.IH [of "pre @ chunk_bits c"] Cons.prems by auto
  qed
qed

lemma whole_wire_sig:
  assumes "list_all bit_ok sig" "whole_wire sig = Some v"
  shows "sig = wire_sig v" "wire_width v = int (length sig)"
proof -
  obtain c where c: "canon sig = [c]" "cwire c = Some v" "wire_width v = int (length sig)"
    using assms(2) by (auto simp: whole_wire_def split: list.splits option.splits if_splits)
  note k = canon_ok [OF assms(1)]
  have ok: "chunk_ok c" using k(1) c(1) by simp
  have wid: "cwidth c = wire_width v" using k(3) c(1,3) by simp
  have "coffset c = 0" using ok c(2) wid by (auto simp: chunk_ok_def)
  then have "chunk_bits c = wire_sig v"
    unfolding chunk_slice(1) [OF ok c(2)] wid by simp
  moreover have "chunk_bits c = sig" using k(4) unfolding c(1) by simp
  ultimately show "sig = wire_sig v" by simp
  show "wire_width v = int (length sig)" by (rule c(3))
qed

definition sig_ok :: "sigbit list \<Rightarrow> bool" where
  "sig_ok sig \<longleftrightarrow> sig \<noteq> [] \<and> list_all bit_ok sig \<and> length sig < 2 ^ 31"

lemma convert_sig_ok:
  assumes isa: "isa_ok sem" and sig: "sig_ok sig"
  shows "computes sem md (\<lambda>_. True) (convert_sig sig) (carries sig)"
proof (cases "whole_wire sig")
  case (Some v)
  have "list_all bit_ok sig" using sig by (simp add: sig_ok_def)
  note s = whole_wire_sig [OF this Some]
  have "computes sem md (\<lambda>_. True) (get_wire v) (carries sig)"
    by (rule computes_last [OF computes_get_wire]) (simp only: carries_def wirev_sig s(1) [symmetric] s(2) simp_thms)
  then show ?thesis
    by (rule computes_available [rotated]) (simp_all add: convert_sig_def Some)
next
  case None
  have b: "list_all bit_ok sig" "length sig < 2 ^ 32" using sig by (simp_all add: sig_ok_def)
  note k = canon_ok [OF b(1)]
  obtain c cs where cs: "canon sig = c # cs"
    using k(4) sig by (cases "canon sig") (auto simp: sig_ok_def)
  have cat: "chunk_bits c @ concat (map chunk_bits cs) = sig" "chunk_ok c" "list_all chunk_ok cs"
    using k(1,4) unfolding cs by simp_all
  have w: "cwidth c = int (length (chunk_bits c))" using chunk_ok_pos [OF cat(2)] by simp
  have "computes sem md (\<lambda>_. True)
      (bindW (convert_chunk c) (\<lambda>prev_res. if cs = [] then retW prev_res
        else bindW (emitW (Comment_sig sig)) (\<lambda>_.
             bindW (foldW concat_step (chunk_bits c, prev_res, cwidth c) cs) (\<lambda>(_, res, _). retW res)))) (carries sig)"
  proof (rule computes_seq [OF convert_chunk_ok [OF isa cat(2)]], cases "cs = []")
    fix n
    case True
    then show "computes sem md (carries (chunk_bits c) n) (if cs = [] then retW n
        else bindW (emitW (Comment_sig sig)) (\<lambda>_.
             bindW (foldW concat_step (chunk_bits c, n, cwidth c) cs) (\<lambda>(_, res, _). retW res))) (carries sig)"
      using cat(1) by (auto intro: computes_ret)
  next
    fix n
    case False
    have loop: "computes sem md (carries (chunk_bits c) n) (foldW concat_step (chunk_bits c, n, cwidth c) cs)
        (\<lambda>(s, r, p). carries sig r)"
      using concat_loop_ok [OF isa cat(3), of "chunk_bits c" md n] b(2) unfolding cat(1) w [symmetric] by blast
    have "computes sem md (carries (chunk_bits c) n) (emitW (Comment_sig sig)) (\<lambda>_. carries (chunk_bits c) n)"
      by (rule computes_last [OF computes_emit]) simp
    then show "computes sem md (carries (chunk_bits c) n) (if cs = [] then retW n
        else bindW (emitW (Comment_sig sig)) (\<lambda>_.
             bindW (foldW concat_step (chunk_bits c, n, cwidth c) cs) (\<lambda>(_, res, _). retW res))) (carries sig)"
      unfolding if_not_P [OF False]
      by (rule computes_seq, intro computes_seq [OF loop] computes_ret) (simp add: split_beta computes_ret)
  qed
  then show ?thesis
    by (rule computes_available [rotated]) (simp_all add: convert_sig_def None cs)
qed

section \<open>Operands\<close>

text \<open>The value of a signal as an operand, signed or not.\<close>

definition operand :: "interp \<Rightarrow> bool \<Rightarrow> sigbit list \<Rightarrow> int" where
  "operand I sg sig = cval sg (bits (sig_const I sig))"

definition extended :: "bool \<Rightarrow> int \<Rightarrow> sigbit list \<Rightarrow> rname \<Rightarrow> interp \<Rightarrow> bool" where
  "extended sg n sig k I \<longleftrightarrow> env I k = operand I sg sig mod 2 ^ nat n \<and> wd I k = n"

lemma sig_const_bits: "bits (sig_const I sig) = map st (map (bitv I) sig)"
  by (simp add: sig_const_def comp_def)

lemma sig_const_simps [simp]: "length (bits (sig_const I sig)) = length sig" "fully_def (bits (sig_const I sig))"
  by (simp_all add: sig_const_bits del: map_map)

lemma operand_eq: "operand I False sig = sigv I sig" "operand I True sig = sbl (map (bitv I) sig)"
  by (simp_all add: operand_def cval_def sig_const_bits sigv_def del: map_map)

lemma operand_mod: "operand I sg sig mod 2 ^ length sig = sigv I sig"
  using sbl_mod [of "map (bitv I) sig"] sigv_bounds [of I sig]
  by (cases sg) (simp_all add: operand_eq sigv_def)

lemma carries_extended: "carries sig k I \<Longrightarrow> extended sg (int (length sig)) sig k I"
  by (simp add: carries_def extended_def operand_mod)

lemma const_rep_ok:
  assumes "0 \<le> n" "s = S0 \<or> s = S1"
  shows "computes sem md (\<lambda>_. True) (const_rep s n) (\<lambda>k I. env I k = (if s = S1 then 2 ^ nat n - 1 else 0) \<and> wd I k = n)"
proof -
  have "uval (replicate (nat n) s) = (if s = S1 then 2 ^ nat n - 1 else 0)"
    using assms(2) by (auto simp: uval_def ubl_replicate_True)
  then show ?thesis
    unfolding const_rep_def Const_state_def guardE_def if_P [OF assms(1)] bindW_lift
    by (intro computes_last [OF computes_get_const]) (use assms(1) in simp)
qed

lemma padConvert_ok:
  assumes isa: "isa_ok sem" and sig: "sig_ok sig" and n: "int (length sig) \<le> n"
  shows "computes sem md (\<lambda>_. True) (padConvert sig n) (extended False n sig)"
proof (cases "int (length sig) < n")
  case True
  have le: "sigv I sig mod 2 ^ nat n = sigv I sig" for I
  proof (rule mod_pos_pos_trivial [OF sigv_bounds(1)])
    have "(2 :: int) ^ length sig \<le> 2 ^ nat n" using n by (intro power_increasing) auto
    then show "sigv I sig < 2 ^ nat n" using sigv_bounds(2) [of I sig] by linarith
  qed
  have v: "extended False n sig r I"
    if "wd I r = n" "carries sig k I" "sem (wd I) (env I) (PADZERO r k n)" for r k I
    using isa_PADZERO [OF isa that(3)] that(1,2) n by (simp add: carries_def extended_def operand_eq le)
  show ?thesis
    unfolding padConvert_def guardW_simps(2) [OF n] if_P [OF True]
    by (rule computes_bind [OF computes_temp], rule computes_bind [OF convert_sig_ok [OF isa sig]],
        rule computes_bind [OF computes_emit], rule computes_ret) (use v in blast)
next
  case False
  then have e: "n = int (length sig)" using n by simp
  show ?thesis
    unfolding padConvert_def guardW_simps(2) [OF n] if_not_P [OF False] unfolding e
    by (rule computes_last [OF convert_sig_ok [OF isa sig]]) (rule carries_extended)
qed

lemma sext_value:
  assumes isa: "isa_ok sem" and l: "sig \<noteq> []" "int (length sig) < n"
    and i: "carries sig orig I" "wd I sign = 1" "env I k = int (length sig) - 1"
      "sem (wd I) (env I) (BINOP OP_SRL sign orig k)" "wd I msk = n"
      "env I pm = 0 \<and> wd I pm = n" "env I nm = 2 ^ length sig * (2 ^ (nat n - length sig) - 1) \<and> wd I nm = n"
      "sem (wd I) (env I) (MUX msk sign pm nm)" "wd I res = n" "wd I z = n"
      "sem (wd I) (env I) (PADZERO z orig n)" "sem (wd I) (env I) (BINOP OP_OR res z msk)"
  shows "extended True n sig res I"
proof -
  let ?b = "last (map (bitv I) sig)"
  have kk: "nat (env I k) = length sig - 1" using i(3) l(1) by (cases sig) auto
  have "env I sign = of_bool (bit (sigv I sig) (length sig - 1))"
    using isa_shift(2) [OF isa i(4)] i(1,2) kk l(1) by (cases sig) (simp_all add: carries_def bit_iff_odd odd_iff_mod_2_eq_one of_bool_def)
  also have "\<dots> = of_bool ?b"
    using l(1) by (simp add: bit_sigv last_conv_nth)
  finally have s: "env I sign = of_bool ?b" .
  have m: "env I msk = 2 ^ length sig * ubl (replicate (nat n - length sig) ?b)"
    using isa_MUX [OF isa i(8)] i(2,5,6,7) s by (auto simp: ubl_replicate_True)
  have zv: "env I z = sigv I sig"
    using isa_PADZERO [OF isa i(11)] i(1,10) l(2) by (simp add: carries_def)
  have "env I res = or (env I z) (env I msk)"
    using isa_equal_widths(5) [OF isa _ _ i(12)] i(5,9,10) by simp
  also have "\<dots> = or (ubl (replicate (nat n - length sig) ?b) * 2 ^ length sig) (sigv I sig)"
    by (simp add: zv m or.commute mult.commute)
  also have "\<dots> = ubl (map (bitv I) sig @ replicate (nat n - length sig) ?b)"
    unfolding or_disjoint [OF sigv_bounds] by (simp add: ubl_append sigv_def)
  also have "\<dots> = sbl (map (bitv I) sig) mod 2 ^ nat n"
    using ubl_sext [of "map (bitv I) sig" "nat n - length sig"] l by (simp add: nat_less_iff)
  finally show ?thesis
    using i(9) by (simp add: extended_def operand_eq)
qed

lemma neg_mask_value:
  "uval (replicate a S0 @ replicate b S1) = 2 ^ a * (2 ^ b - 1)"
  by (simp add: uval_def ubl_append ubl_replicate_True)

lemma sextConvert_ok:
  assumes isa: "isa_ok sem" and sig: "sig_ok sig" and n: "int (length sig) \<le> n"
  shows "computes sem md (\<lambda>_. True) (sextConvert sig n) (extended True n sig)"
proof (cases "int (length sig) < n")
  case True
  have l: "sig \<noteq> []" using sig by (simp add: sig_ok_def)
  have k: "computes sem md (\<lambda>_. True) (const_num (int (length sig) - 1) 32) (\<lambda>k I. env I k = int (length sig) - 1 \<and> wd I k = 32)"
    by (rule const_num_ok) (use sig in \<open>auto simp: sig_ok_def Suc_le_eq\<close>)
  have p: "computes sem md (\<lambda>_. True) (const_rep S0 n) (\<lambda>k I. env I k = 0 \<and> wd I k = n)"
    by (rule computes_last [OF const_rep_ok]) (use n in auto)
  have m: "computes sem md (\<lambda>_. True) (get_const (Const_bits (replicate (length sig) S0 @ replicate (nat n - length sig) S1)))
      (\<lambda>k I. env I k = 2 ^ length sig * (2 ^ (nat n - length sig) - 1) \<and> wd I k = n)"
    by (rule computes_last [OF computes_get_const]) (use n in \<open>auto simp: neg_mask_value\<close>)
  show ?thesis
    unfolding sextConvert_def guardW_simps(2) [OF n] if_P [OF True]
    by (rule computes_bind [OF computes_temp], rule computes_bind [OF convert_sig_ok [OF isa sig]],
        rule computes_bind [OF k], rule computes_bind [OF computes_emit], rule computes_bind [OF computes_temp],
        rule computes_bind [OF p], rule computes_bind [OF m], rule computes_bind [OF computes_emit],
        rule computes_bind [OF computes_temp], rule computes_bind [OF computes_temp],
        rule computes_bind [OF computes_emit], rule computes_bind [OF computes_emit], rule computes_ret)
      (elim conjE, rule sext_value [OF isa l True]; blast)
next
  case False
  then have e: "n = int (length sig)" using n by simp
  show ?thesis
    unfolding sextConvert_def guardW_simps(2) [OF n] if_not_P [OF False] unfolding e
    by (rule computes_last [OF convert_sig_ok [OF isa sig]]) (rule carries_extended)
qed

end
