(* ===== verification/WriterCells.thy ===== *)
theory WriterCells
  imports WriterSem
begin

text \<open>
  The cells, \<open>ManticoreAssemblyWorker::convert(Cell*)\<close>: in every interpretation that satisfies the
  generated code the output of a cell is what the constant evaluation of theory Calc gives for the inputs.
\<close>

section \<open>Results\<close>

lemma sig_const_eqI:
  assumes "sigv I Y = v mod 2 ^ length Y"
  shows "Const_bits (map st (bl_of_int (length Y) v)) = sig_const I Y"
proof -
  have "bl_of_int (length Y) v = map (bitv I) Y"
    by (rule ubl_inj) (use assms in \<open>simp_all add: ubl_bl_of_int sigv_def\<close>)
  then show ?thesis
    by (simp add: sig_const_def)
qed

lemma sig_const_boolI:
  assumes "sigv I Y = of_bool b" "Y \<noteq> []"
  shows "pad_S0 (Const_bit (st b)) (int (length Y)) = sig_const I Y"
proof -
  obtain m where m: "length Y = Suc m" using assms(2) by (cases Y) auto
  have e: "map (bitv I) Y = b # replicate m False"
    by (rule ubl_inj) (use assms(1) m in \<open>simp_all add: sigv_def\<close>)
  have "map (\<lambda>x. st (bitv I x)) Y = map st (map (bitv I) Y)" by simp
  then have "map (\<lambda>x. st (bitv I x)) Y = st b # replicate m S0"
    unfolding e by (simp add: st_def)
  moreover have "pad_S0 (Const_bit (st b)) (int (length Y)) = Const_bits (st b # replicate m S0)"
    by (simp add: pad_S0_def Const_bit_def Const_bits_def m)
  ultimately show ?thesis
    by (simp add: sig_const_def)
qed

section \<open>Operands\<close>

lemma extendOrSlice_ok:
  assumes isa: "isa_ok sem" and sig: "sig_ok sig" and n: "0 < n"
  shows "computes sem md (\<lambda>_. True) (extendOrSlice sig n sg) (extended sg n sig)"
proof (cases "int (length sig) \<le> n")
  case True
  then show ?thesis
    using sextConvert_ok [OF isa sig True] padConvert_ok [OF isa sig True] by (cases sg) (simp_all add: extendOrSlice_def)
next
  case False
  let ?t = "take (nat n) sig"
  have t: "sig_ok ?t" using sig n False by (auto simp: sig_ok_def list_all_iff dest: in_set_takeD)
  have l: "nat n \<le> length sig" "length ?t = nat n" using False by auto
  have "operand I sg sig mod 2 ^ nat n = sigv I ?t" for I
  proof -
    have "operand I sg sig mod 2 ^ nat n = operand I sg sig mod 2 ^ length sig mod 2 ^ nat n"
      by (rule mod_mod_cancel [symmetric]) (use l(1) in \<open>simp add: le_imp_power_dvd\<close>)
    then show ?thesis
      using sigv_slice [of 0 "nat n" sig I] l(1) by (simp add: operand_mod)
  qed
  then have v: "extended sg n sig k I" if "carries ?t k I" for k I
    using that n unfolding carries_def extended_def l(2) by simp
  have e: "extendOrSlice sig n sg = convert_sig ?t"
    using False by (simp add: extendOrSlice_def)
  show ?thesis
    unfolding e by (rule computes_last [OF convert_sig_ok [OF isa t]]) (rule v)
qed

lemma port_name_ok:
  assumes "isa_ok sem" "getPort cell p = Inr sig" "sig_ok sig"
  shows "computes sem md (\<lambda>_. True) (port_name cell p) (carries sig)"
  using convert_sig_ok [OF assms(1,3)] assms(2) by (simp add: port_name_def)

lemma extend_port_ok:
  assumes "isa_ok sem" "getPort cell p = Inr sig" "sig_ok sig" "int (length sig) \<le> n"
  shows "computes sem md (\<lambda>_. True) (extend_port cell p n sg) (extended sg n sig)"
  using sextConvert_ok [OF assms(1,3,4)] padConvert_ok [OF assms(1,3,4)] assms(2)
  by (cases sg) (simp_all add: extend_port_def)

text \<open>The ports and parameters of a cell with two operands.\<close>

definition binary_cell :: "cell_t \<Rightarrow> bool \<Rightarrow> bool \<Rightarrow> sigbit list \<Rightarrow> sigbit list \<Rightarrow> sigbit list \<Rightarrow> bool" where
  "binary_cell cell sa sb A B Y \<longleftrightarrow>
     getPort cell ''A'' = Inr A \<and> getPort cell ''B'' = Inr B \<and> getPort cell ''Y'' = Inr Y \<and>
     sig_ok A \<and> sig_ok B \<and> sig_ok Y \<and>
     param_int cell ''A_WIDTH'' = Inr (int (length A)) \<and> param_int cell ''B_WIDTH'' = Inr (int (length B)) \<and>
     param_int cell ''Y_WIDTH'' = Inr (int (length Y)) \<and>
     param_bool cell ''A_SIGNED'' = Inr sa \<and> param_bool cell ''B_SIGNED'' = Inr sb"

definition unary_cell :: "cell_t \<Rightarrow> bool \<Rightarrow> sigbit list \<Rightarrow> sigbit list \<Rightarrow> bool" where
  "unary_cell cell sa A Y \<longleftrightarrow>
     getPort cell ''A'' = Inr A \<and> getPort cell ''Y'' = Inr Y \<and> sig_ok A \<and> sig_ok Y \<and>
     param_int cell ''A_WIDTH'' = Inr (int (length A)) \<and> param_int cell ''Y_WIDTH'' = Inr (int (length Y)) \<and>
     param_bool cell ''A_SIGNED'' = Inr sa"

lemma sig_ok_pos: "sig_ok sig \<Longrightarrow> 0 < int (length sig)" "sig_ok sig \<Longrightarrow> sig \<noteq> []"
  by (auto simp: sig_ok_def)

lemma convertBinaryOperands_ok:
  assumes isa: "isa_ok sem" and c: "binary_cell cell sa sb A B Y" "assertEqualSigns cell = Inr ()"
  shows "computes sem md (\<lambda>_. True) (convertBinaryOperands cell)
    (\<lambda>(x, y) I. extended sa (int (length Y)) A x I \<and> extended sa (int (length Y)) B y I)"
proof -
  have p: "getPort cell ''A'' = Inr A" "getPort cell ''B'' = Inr B" "sig_ok A" "sig_ok B" "0 < int (length Y)"
    "param_int cell ''Y_WIDTH'' = Inr (int (length Y))" "param_bool cell ''A_SIGNED'' = Inr sa"
    using c(1) sig_ok_pos(1) [of Y] by (simp_all add: binary_cell_def)
  show ?thesis
    unfolding convertBinaryOperands_def p c(2) bindW_lift
    by (rule computes_bind [OF extendOrSlice_ok [OF isa p(3,5)]], rule computes_bind [OF extendOrSlice_ok [OF isa p(4,5)]],
        rule computes_ret) simp
qed

definition alu_value :: "binop \<Rightarrow> int \<Rightarrow> int \<Rightarrow> int" where
  "alu_value b x y = (case b of OP_ADD \<Rightarrow> x + y | OP_SUB \<Rightarrow> x - y | OP_MUL \<Rightarrow> x * y
     | OP_AND \<Rightarrow> and x y | OP_OR \<Rightarrow> or x y | OP_XOR \<Rightarrow> xor x y | _ \<Rightarrow> 0)"

lemma bitwise_mod:
  fixes x y :: int
  shows "and (x mod 2 ^ n) (y mod 2 ^ n) = and x y mod 2 ^ n"
    "or (x mod 2 ^ n) (y mod 2 ^ n) = or x y mod 2 ^ n"
    "xor (x mod 2 ^ n) (y mod 2 ^ n) = xor x y mod 2 ^ n"
  unfolding take_bit_eq_mod [symmetric] by (simp_all add: take_bit_and take_bit_or take_bit_xor)

lemma alu_extended:
  assumes isa: "isa_ok sem" and b: "b \<in> {OP_ADD, OP_SUB, OP_MUL, OP_AND, OP_OR, OP_XOR}"
    and x: "extended sa n A x I" "extended sb n B y I" and r: "wd I r = n" "sem (wd I) (env I) (BINOP b r x y)"
  shows "env I r = alu_value b (operand I sa A) (operand I sb B) mod 2 ^ nat n"
proof -
  have w: "wd I r = wd I x" "wd I x = wd I y" using x r(1) by (simp_all add: extended_def)
  have e: "env I x = operand I sa A mod 2 ^ nat n" "env I y = operand I sb B mod 2 ^ nat n"
    using x by (simp_all add: extended_def)
  note i = isa_equal_widths [OF isa w, of "env I"]
  consider "b = OP_ADD" | "b = OP_SUB" | "b = OP_MUL" | "b = OP_AND" | "b = OP_OR" | "b = OP_XOR"
    using b by blast
  then show ?thesis
  proof cases
    case 1
    show ?thesis
      using i(1) [OF r(2) [unfolded 1]] unfolding e r(1) 1 by (simp add: alu_value_def mod_add_eq)
  next
    case 2
    show ?thesis
      using i(2) [OF r(2) [unfolded 2]] unfolding e r(1) 2 by (simp add: alu_value_def mod_diff_eq)
  next
    case 3
    show ?thesis
      using i(3) [OF r(2) [unfolded 3]] unfolding e r(1) 3 by (simp add: alu_value_def mod_mult_eq)
  next
    case 4
    show ?thesis
      using i(4) [OF r(2) [unfolded 4]] unfolding e r(1) 4 by (simp add: alu_value_def bitwise_mod)
  next
    case 5
    show ?thesis
      using i(5) [OF r(2) [unfolded 5]] unfolding e r(1) 5 by (simp add: alu_value_def bitwise_mod)
  next
    case 6
    show ?thesis
      using i(6) [OF r(2) [unfolded 6]] unfolding e r(1) 6 by (simp add: alu_value_def bitwise_mod)
  qed
qed

lemma convert_binary_ok:
  assumes isa: "isa_ok sem" and c: "binary_cell cell sa sb A B Y" "assertEqualSigns cell = Inr ()"
    and b: "b \<in> {OP_ADD, OP_SUB, OP_MUL, OP_AND, OP_OR, OP_XOR}"
  shows "computes sem md (\<lambda>_. True) (convert_binary b cell)
    (\<lambda>_ I. sigv I Y = alu_value b (operand I sa A) (operand I sa B) mod 2 ^ length Y)"
proof -
  have p: "getPort cell ''Y'' = Inr Y" "sig_ok Y" using c(1) by (simp_all add: binary_cell_def)
  have v: "sigv I Y = alu_value b (operand I sa A) (operand I sa B) mod 2 ^ length Y"
    if "extended sa (int (length Y)) A x I" "extended sa (int (length Y)) B y I" "carries Y r I"
      "sem (wd I) (env I) (BINOP b r x y)" for x y r I
    using alu_extended [OF isa b that(1,2) _ that(4)] that(3) by (simp add: carries_def)
  show ?thesis
    unfolding convert_binary_def
    by (rule computes_bind [OF convertBinaryOperands_ok [OF isa c]], simp only: split_beta,
        rule computes_bind [OF port_name_ok [OF isa p]], rule computes_last [OF computes_emit])
      (use v in blast)
qed

section \<open>Comparisons\<close>

lemma computes_keep:
  assumes "computes sem md H m F"
  shows "computes sem md H m (\<lambda>x I. H I \<and> F x I)"
proof (rule computesI)
  fix w assume w: "writer_wf sem md w" and h: "\<And>I. models sem I w \<Longrightarrow> H I"
  obtain x w1 where 1: "m w = Inr (x, w1)" "writer_wf sem md w1" "extends w w1" "\<And>I. models sem I w1 \<Longrightarrow> F x I"
    using computesE [OF assms w h] by blast
  then show "\<exists>x w'. m w = Inr (x, w') \<and> writer_wf sem md w' \<and> extends w w' \<and> (\<forall>I. models sem I w' \<longrightarrow> H I \<and> F x I)"
    using models_mono [OF 1(3)] h by blast
qed

lemma computes_weaken:
  assumes "computes sem md H m F" "\<And>I. H' I \<Longrightarrow> H I" "\<And>x I. H' I \<Longrightarrow> F x I \<Longrightarrow> G x I"
  shows "computes sem md H' m G"
proof -
  have "computes sem md H' m F" using assms(1,2) unfolding computes_def by blast
  from computes_keep [OF this] show ?thesis
    using assms(3) unfolding computes_def by blast
qed

definition bool_to :: "rname \<Rightarrow> bool \<Rightarrow> interp \<Rightarrow> bool" where
  "bool_to r b I \<longleftrightarrow> (wd I r = 1 \<longrightarrow> env I r = of_bool b)"

lemma to_bool_port_ok:
  assumes isa: "isa_ok sem" and Y: "sig_ok Y" and f: "\<And>r. computes sem md H (f r) (\<lambda>_ I. bool_to r (b I) I)"
    and y: "\<And>I. H I \<Longrightarrow> carries Y y I"
  shows "computes sem md H (to_bool_port (int (length Y)) y f) (\<lambda>_ I. sigv I Y = of_bool (b I))"
proof (cases "int (length Y) = 1")
  case True
  show ?thesis
    unfolding to_bool_port_def if_P [OF True]
    by (rule computes_weaken [OF f]) (use y True in \<open>auto simp: carries_def bool_to_def\<close>)
next
  case False
  have l: "1 \<le> int (length Y)" using sig_ok_pos(1) [OF Y] by linarith
  have v: "sigv I Y = of_bool (b I)"
    if "H I \<and> wd I t = 1" "bool_to t (b I) I" "sem (wd I) (env I) (PADZERO y t (int (length Y)))" for t I
    using isa_PADZERO [OF isa that(3)] that(1,2) y [of I] l by (simp add: carries_def bool_to_def)
  have g: "computes sem md (\<lambda>I. H I \<and> wd I t = 1) (f t) (\<lambda>_ I. (H I \<and> wd I t = 1) \<and> bool_to t (b I) I)" for t
    by (rule computes_keep, rule computes_weaken [OF f]) auto
  show ?thesis
    unfolding to_bool_port_def if_not_P [OF False]
    by (rule computes_bind [OF computes_temp], rule computes_seq [OF g], rule computes_last [OF computes_emit])
      (use v in blast)
qed

lemma operand_bounds:
  assumes "int (length A) \<le> n"
  shows "operand I sg A < (if sg then 2 ^ (nat n - 1) else 2 ^ nat n)"
    "- (if sg then 2 ^ (nat n - 1) else 0) \<le> operand I sg A"
  using cval_bounds [of "bits (sig_const I A)" "nat n" sg] assms by (simp_all add: operand_def nat_le_iff)

lemma extended_eq_iff:
  assumes "extended sg n A x I" "extended sg n B y I" "int (length A) \<le> n" "int (length B) \<le> n"
  shows "env I x = env I y \<longleftrightarrow> operand I sg A = operand I sg B"
proof -
  have "env I x = ubl (bl_of_int (nat n) (operand I sg A))" "env I y = ubl (bl_of_int (nat n) (operand I sg B))"
    using assms(1,2) by (simp_all add: extended_def ubl_bl_of_int)
  moreover have "bl_of_int (nat n) (operand I sg A) = bl_of_int (nat n) (operand I sg B) \<longleftrightarrow> operand I sg A = operand I sg B"
    using cval_eq_iff_bl [of "bits (sig_const I A)" "nat n" "bits (sig_const I B)" sg] assms(3,4)
    by (simp add: operand_def)
  ultimately show ?thesis
    using ubl_inj [of "bl_of_int (nat n) (operand I sg A)" "bl_of_int (nat n) (operand I sg B)"] by auto
qed

lemma extended_unsigned:
  assumes "extended False n A x I" "int (length A) \<le> n"
  shows "env I x = operand I False A"
  using assms(1) operand_bounds [OF assms(2), where I = I and sg = False] by (simp add: extended_def)

lemma extended_signed:
  assumes "extended True n A x I" "int (length A) \<le> n" "0 < n"
  shows "signed_of n (env I x) = operand I True A"
proof -
  let ?v = "operand I True A" and ?k = "nat n - 1"
  have p: "(2 :: int) ^ nat n = 2 * 2 ^ ?k" "nat (n - 1) = ?k"
    using assms(3) by (simp_all add: power_Suc [symmetric] nat_diff_distrib del: power_Suc)
  have b: "?v < 2 ^ ?k" "- (2 ^ ?k) \<le> ?v" using operand_bounds [OF assms(2), where I = I and sg = True] by simp_all
  have e: "env I x = ?v mod 2 ^ nat n" using assms(1) by (simp add: extended_def)
  show ?thesis
  proof (cases "?v < 0")
    case True
    have "?v mod 2 ^ nat n = (?v + 2 ^ nat n) mod 2 ^ nat n" by simp
    also have "\<dots> = ?v + 2 ^ nat n"
      by (rule mod_pos_pos_trivial) (use b True p(1) in linarith)+
    finally show ?thesis
      using e b True p assms(3) by (simp add: signed_of_def)
  next
    case False
    have "?v mod 2 ^ nat n = ?v"
      by (rule mod_pos_pos_trivial) (use b False p(1) in linarith)+
    then show ?thesis
      using e b False p assms(3) by (simp add: signed_of_def)
  qed
qed

lemma binary_cellD:
  assumes "binary_cell cell sa sb A B Y"
  shows "getPort cell ''A'' = Inr A" "getPort cell ''B'' = Inr B" "getPort cell ''Y'' = Inr Y"
    "sig_ok A" "sig_ok B" "sig_ok Y" "param_int cell ''A_WIDTH'' = Inr (int (length A))"
    "param_int cell ''B_WIDTH'' = Inr (int (length B))" "param_int cell ''Y_WIDTH'' = Inr (int (length Y))"
    "param_bool cell ''A_SIGNED'' = Inr sa" "param_bool cell ''B_SIGNED'' = Inr sb"
  using assms by (simp_all add: binary_cell_def)

lemma mkSeq_ok:
  assumes isa: "isa_ok sem" and c: "binary_cell cell sa sb A B Y" "assertEqualSigns cell = Inr ()"
  shows "computes sem md (\<lambda>_. True) (mkSeq cell r) (\<lambda>_ I. bool_to r (operand I sa A = operand I sa B) I)"
proof -
  note p = binary_cellD [OF c(1)]
  let ?n = "max (int (length A)) (int (length B))"
  have l: "int (length A) \<le> ?n" "int (length B) \<le> ?n" by auto
  have v: "bool_to r (operand I sa A = operand I sa B) I"
    if "extended sa ?n A x I" "extended sa ?n B y I" "sem (wd I) (env I) (BINOP OP_SEQ r x y)" for x y I
    using extended_eq_iff [OF that(1,2) l] isa_compare(1) [OF isa _ _ that(3)] that(1,2)
    by (simp add: bool_to_def extended_def)
  show ?thesis
    unfolding mkSeq_def c(2) p bindW_lift
    by (rule computes_bind [OF extend_port_ok [OF isa p(1,4) l(1)]],
        rule computes_bind [OF extend_port_ok [OF isa p(2,5) l(2)]], rule computes_last [OF computes_emit])
      (use v in blast)
qed

lemma mkCompare_ok:
  assumes isa: "isa_ok sem" and c: "binary_cell cell sa sb A B Y" "assertEqualSigns cell = Inr ()"
  shows "computes sem md (\<lambda>_. True) (mkCompare cell r lt) (\<lambda>_ I.
    bool_to r (if lt then operand I sa A < operand I sa B else operand I sa B < operand I sa A) I)"
proof -
  note p = binary_cellD [OF c(1)]
  let ?n = "max (int (length A)) (int (length B))"
  let ?P = "if lt then A else B" and ?Q = "if lt then B else A"
  have l: "int (length ?P) \<le> ?n" "int (length ?Q) \<le> ?n" by (cases lt; simp)+
  have l3: "0 < ?n" using sig_ok_pos(1) [OF p(4)] by (rule less_le_trans) simp
  note l = l l3
  have g: "getPort cell (if lt then ''A'' else ''B'') = Inr ?P" "getPort cell (if lt then ''B'' else ''A'') = Inr ?Q"
    "sig_ok ?P" "sig_ok ?Q"
    using p by simp_all
  have v: "bool_to r (operand I sa ?P < operand I sa ?Q) I"
    if "extended sa ?n ?P x I" "extended sa ?n ?Q y I"
      "sem (wd I) (env I) (BINOP (if sa then OP_SLTS else OP_SLT) r x y)" for x y I
  proof (cases sa)
    case True
    have e: "extended True ?n ?P x I" "extended True ?n ?Q y I" using that(1,2) True by simp_all
    have "wd I x = ?n" "wd I y = ?n" using that(1,2) by (simp_all add: extended_def)
    then show ?thesis
      using extended_signed [OF e(1) l(1,3)] extended_signed [OF e(2) l(2,3)]
        isa_compare(3) [OF isa, of "wd I" r x y "env I"] that(3) True
      unfolding bool_to_def by simp
  next
    case False
    have e: "extended False ?n ?P x I" "extended False ?n ?Q y I" using that(1,2) False by simp_all
    have "wd I x = ?n" "wd I y = ?n" using that(1,2) by (simp_all add: extended_def)
    then show ?thesis
      using extended_unsigned [OF e(1) l(1)] extended_unsigned [OF e(2) l(2)]
        isa_compare(2) [OF isa, of "wd I" r x y "env I"] that(3) False
      unfolding bool_to_def by simp
  qed
  show ?thesis
    unfolding mkCompare_def c(2) p bindW_lift
    by (rule computes_bind [OF extend_port_ok [OF isa g(1,3) l(1)]],
        rule computes_bind [OF extend_port_ok [OF isa g(2,4) l(2)]], rule computes_last [OF computes_emit])
      (use v in \<open>simp split: if_splits; blast\<close>)
qed

lemma xor_ones: "xor (v mod 2 ^ n) (2 ^ n - 1) = (not v) mod 2 ^ n" for v :: int
proof -
  have m: "2 ^ n - 1 = (Bit_Operations.mask n :: int)" by (simp add: mask_eq_exp_minus_1)
  show ?thesis
    unfolding m take_bit_eq_mod [symmetric]
    by (rule bit_eqI) (auto simp: bit_xor_iff bit_take_bit_iff bit_not_iff bit_mask_iff)
qed

lemma convert_xnor_ok:
  assumes isa: "isa_ok sem" and c: "binary_cell cell sa sb A B Y" "assertEqualSigns cell = Inr ()"
  shows "computes sem md (\<lambda>_. True) (convert_xnor cell)
    (\<lambda>_ I. sigv I Y = not (xor (operand I sa A) (operand I sa B)) mod 2 ^ length Y)"
proof -
  note p = binary_cellD [OF c(1)]
  let ?n = "int (length Y)"
  have v: "sigv I Y = not (xor (operand I sa A) (operand I sa B)) mod 2 ^ length Y"
    if "extended sa ?n A x I" "extended sa ?n B y I" "wd I t = ?n" "sem (wd I) (env I) (BINOP OP_XOR t x y)"
      "carries Y r I" "env I k = (if S1 = S1 then 2 ^ nat ?n - 1 else 0) \<and> wd I k = ?n"
      "sem (wd I) (env I) (BINOP OP_XOR r t k)" for x y t r k I
  proof -
    have "env I t = xor (operand I sa A) (operand I sa B) mod 2 ^ nat ?n"
      using alu_extended [OF isa _ that(1,2,3,4)] by (simp add: alu_value_def)
    then show ?thesis
      using isa_equal_widths(6) [OF isa _ _ that(7)] that(3,5,6) by (simp add: carries_def xor_ones)
  qed
  show ?thesis
    unfolding convert_xnor_def
    by (rule computes_bind [OF convertBinaryOperands_ok [OF isa c]], simp only: split_beta p bindW_lift,
        rule computes_bind [OF computes_temp], rule computes_bind [OF computes_emit],
        rule computes_bind [OF port_name_ok [OF isa p(3,6)]], rule computes_bind [OF const_rep_ok],
        simp, simp, rule computes_last [OF computes_emit])
      (elim conjE, rule v; blast)
qed

lemma convert_eq_ok:
  assumes isa: "isa_ok sem" and c: "binary_cell cell sa sb A B Y" "assertEqualSigns cell = Inr ()"
  shows "computes sem md (\<lambda>_. True) (convert_eq cell) (\<lambda>_ I. sigv I Y = of_bool (operand I sa A = operand I sa B))"
proof -
  note p = binary_cellD [OF c(1)]
  show ?thesis
    unfolding convert_eq_def p bindW_lift
    by (rule computes_bind [OF port_name_ok [OF isa p(3,6)]], rule to_bool_port_ok [OF isa p(6)],
        rule computes_last [OF mkSeq_ok [OF isa c]]) simp_all
qed

lemma const_true_ok: "computes sem md (\<lambda>_. True) (const_rep S1 1) (\<lambda>k I. env I k = 1 \<and> wd I k = 1)"
  by (rule computes_last [OF const_rep_ok]) simp_all

lemma xor_true:
  assumes "isa_ok sem" "sem (wd I) (env I) (BINOP OP_XOR r x k)" "wd I x = 1" "env I x = of_bool b"
    "env I k = 1 \<and> wd I k = 1"
  shows "bool_to r (\<not> b) I"
  using isa_equal_widths(6) [OF assms(1) _ _ assms(2)] assms(3-5) by (cases b) (auto simp: bool_to_def)

lemma convert_ne_ok:
  assumes isa: "isa_ok sem" and c: "binary_cell cell sa sb A B Y" "assertEqualSigns cell = Inr ()"
  shows "computes sem md (\<lambda>_. True) (convert_ne cell) (\<lambda>_ I. sigv I Y = of_bool (operand I sa A \<noteq> operand I sa B))"
proof -
  note p = binary_cellD [OF c(1)]
  have v: "bool_to r (operand I sa A \<noteq> operand I sa B) I"
    if "wd I s = 1" "bool_to s (operand I sa A = operand I sa B) I" "env I k = 1 \<and> wd I k = 1"
      "sem (wd I) (env I) (BINOP OP_XOR r s k)" for r s k I
    by (rule xor_true [OF isa that(4,1) _ that(3)]) (use that(1,2) in \<open>simp add: bool_to_def\<close>)
  show ?thesis
    unfolding convert_ne_def p bindW_lift
    by (rule computes_bind [OF port_name_ok [OF isa p(3,6)]], rule computes_bind [OF computes_temp],
        rule computes_bind [OF mkSeq_ok [OF isa c]], rule computes_bind [OF const_true_ok],
        rule to_bool_port_ok [OF isa p(6)], rule computes_last [OF computes_emit])
      (use v in blast)+
qed

lemma convert_lt_gt_ok:
  assumes isa: "isa_ok sem" and c: "binary_cell cell sa sb A B Y" "assertEqualSigns cell = Inr ()"
  shows "computes sem md (\<lambda>_. True) (convert_lt_gt cell) (\<lambda>_ I. sigv I Y = of_bool
    (if cell_type cell = ''$lt'' then operand I sa A < operand I sa B else operand I sa B < operand I sa A))"
proof -
  note p = binary_cellD [OF c(1)]
  show ?thesis
    unfolding convert_lt_gt_def p bindW_lift
    by (rule computes_bind [OF port_name_ok [OF isa p(3,6)]], rule to_bool_port_ok [OF isa p(6)],
        rule computes_last [OF mkCompare_ok [OF isa c]]) blast+
qed

lemma or_bools:
  assumes "isa_ok sem" "sem (wd I) (env I) (BINOP OP_OR r x y)" "wd I x = 1" "wd I y = 1"
    "env I x = of_bool a" "env I y = of_bool b"
  shows "bool_to r (a \<or> b) I"
  using isa_equal_widths(5) [OF assms(1) _ _ assms(2)] assms(3-6) by (cases a; cases b) (auto simp: bool_to_def)

lemma and_bools:
  assumes "isa_ok sem" "sem (wd I) (env I) (BINOP OP_AND r x y)" "wd I x = 1" "wd I y = 1"
    "env I x = of_bool a" "env I y = of_bool b"
  shows "bool_to r (a \<and> b) I"
  using isa_equal_widths(4) [OF assms(1) _ _ assms(2)] assms(3-6) by (cases a; cases b) (auto simp: bool_to_def)

lemma convert_le_ge_ok:
  assumes isa: "isa_ok sem" and c: "binary_cell cell sa sb A B Y" "assertEqualSigns cell = Inr ()"
  shows "computes sem md (\<lambda>_. True) (convert_le_ge cell) (\<lambda>_ I. sigv I Y = of_bool
    (if cell_type cell = ''$le'' then operand I sa A \<le> operand I sa B else operand I sa B \<le> operand I sa A))"
proof -
  note p = binary_cellD [OF c(1)]
  let ?lt = "\<lambda>I. if cell_type cell = ''$le'' then operand I sa A < operand I sa B else operand I sa B < operand I sa A"
  let ?le = "\<lambda>I. if cell_type cell = ''$le'' then operand I sa A \<le> operand I sa B else operand I sa B \<le> operand I sa A"
  have v: "bool_to r (?le I) I"
    if "wd I e = 1" "wd I l = 1" "bool_to e (operand I sa A = operand I sa B) I" "bool_to l (?lt I) I"
      "sem (wd I) (env I) (BINOP OP_OR r l e)" for r e l I
  proof -
    have "?le I \<longleftrightarrow> ?lt I \<or> operand I sa A = operand I sa B" by auto
    then show ?thesis
      using or_bools [OF isa that(5,2,1), of "?lt I" "operand I sa A = operand I sa B"] that(1-4)
      unfolding bool_to_def by simp
  qed
  show ?thesis
    unfolding convert_le_ge_def p bindW_lift
    by (rule computes_bind [OF port_name_ok [OF isa p(3,6)]], rule computes_bind [OF computes_temp],
        rule computes_bind [OF computes_temp], rule computes_bind [OF mkSeq_ok [OF isa c]],
        rule computes_bind [OF mkCompare_ok [OF isa c]], rule to_bool_port_ok [OF isa p(6)],
        rule computes_last [OF computes_emit])
      (use v in blast)+
qed

section \<open>Logic, reductions and shifts\<close>

lemma zero_ok:
  assumes "0 \<le> n"
  shows "computes sem md (\<lambda>_. True) (const_rep S0 n) (\<lambda>k I. env I k = 0 \<and> wd I k = n)"
  by (rule computes_last [OF const_rep_ok [OF assms]]) simp_all

lemma ones_ok:
  assumes "0 \<le> n"
  shows "computes sem md (\<lambda>_. True) (const_rep S1 n) (\<lambda>k I. env I k = 2 ^ nat n - 1 \<and> wd I k = n)"
  by (rule computes_last [OF const_rep_ok [OF assms]]) simp_all

lemma seq_carries:
  assumes "isa_ok sem" "sem (wd I) (env I) (BINOP OP_SEQ r a k)" "carries A a I" "env I k = v \<and> wd I k = int (length A)"
  shows "bool_to r (sigv I A = v) I"
  using isa_compare(1) [OF assms(1) _ _ assms(2)] assms(3,4) by (simp add: carries_def bool_to_def)

lemma convert_logic_ok:
  assumes isa: "isa_ok sem" and c: "binary_cell cell sa sb A B Y"
  shows "computes sem md (\<lambda>_. True) (convert_logic cell) (\<lambda>_ I. sigv I Y = of_bool
    (if cell_type cell = ''$logic_and'' then sigv I A \<noteq> 0 \<and> sigv I B \<noteq> 0 else sigv I A \<noteq> 0 \<or> sigv I B \<noteq> 0))"
proof -
  note p = binary_cellD [OF c]
  have v: "bool_to r (if cell_type cell = ''$logic_and'' then sigv I A \<noteq> 0 \<and> sigv I B \<noteq> 0
      else sigv I A \<noteq> 0 \<or> sigv I B \<noteq> 0) I"
    if "wd I az = 1" "wd I bz = 1" "wd I an = 1" "wd I bn = 1" "carries A a I" "carries B b I"
      "env I za = 0 \<and> wd I za = int (length A)" "sem (wd I) (env I) (BINOP OP_SEQ az a za)"
      "env I zb = 0 \<and> wd I zb = int (length B)" "sem (wd I) (env I) (BINOP OP_SEQ bz b zb)"
      "env I k = 1 \<and> wd I k = 1" "sem (wd I) (env I) (BINOP OP_XOR an az k)" "sem (wd I) (env I) (BINOP OP_XOR bn bz k)"
      "sem (wd I) (env I) (BINOP (if cell_type cell = ''$logic_and'' then OP_AND else OP_OR) r an bn)"
    for az bz an bn a b za zb k r I
  proof -
    have z: "env I az = of_bool (sigv I A = 0)" "env I bz = of_bool (sigv I B = 0)"
      using seq_carries [OF isa that(8,5,7)] seq_carries [OF isa that(10,6,9)] that(1,2) by (simp_all add: bool_to_def)
    have n: "env I an = of_bool (sigv I A \<noteq> 0)" "env I bn = of_bool (sigv I B \<noteq> 0)"
      using xor_true [OF isa that(12,1) z(1) that(11)] xor_true [OF isa that(13,2) z(2) that(11)] that(3,4)
      by (simp_all add: bool_to_def)
    show ?thesis
      using and_bools [OF isa _ that(3,4) n] or_bools [OF isa _ that(3,4) n] that(14)
      by (cases "cell_type cell = ''$logic_and''") simp_all
  qed
  show ?thesis
    unfolding convert_logic_def p bindW_lift
    by (rule computes_bind [OF computes_temp], rule computes_bind [OF computes_temp],
        rule computes_bind [OF computes_temp], rule computes_bind [OF computes_temp],
        rule computes_bind [OF port_name_ok [OF isa p(1,4)]], rule computes_bind [OF port_name_ok [OF isa p(2,5)]],
        rule computes_bind [OF zero_ok], simp, rule computes_bind [OF computes_emit],
        rule computes_bind [OF zero_ok], simp, rule computes_bind [OF computes_emit],
        rule computes_bind [OF const_true_ok], rule computes_bind [OF computes_emit],
        rule computes_bind [OF computes_emit], rule computes_bind [OF port_name_ok [OF isa p(3,6)]],
        rule computes_bind [OF computes_emit], rule to_bool_port_ok [OF isa p(6)], rule computes_last [OF computes_emit])
      (blast intro: v)+
qed

lemma unary_cellD:
  assumes "unary_cell cell sa A Y"
  shows "getPort cell ''A'' = Inr A" "getPort cell ''Y'' = Inr Y" "sig_ok A" "sig_ok Y"
    "param_int cell ''A_WIDTH'' = Inr (int (length A))" "param_int cell ''Y_WIDTH'' = Inr (int (length Y))"
    "param_bool cell ''A_SIGNED'' = Inr sa"
  using assms by (simp_all add: unary_cell_def)

lemma convert_not_ok:
  assumes isa: "isa_ok sem" and c: "unary_cell cell sa A Y" "length A = length Y"
  shows "computes sem md (\<lambda>_. True) (convert_not cell) (\<lambda>_ I. sigv I Y = not (operand I sa A) mod 2 ^ length Y)"
proof -
  note p = unary_cellD [OF c(1)]
  have v: "sigv I Y = not (operand I sa A) mod 2 ^ length Y"
    if "carries Y y I" "carries A a I" "env I k = 2 ^ nat (int (length A)) - 1 \<and> wd I k = int (length A)"
      "sem (wd I) (env I) (BINOP OP_XOR y a k)" for y a k I
    using isa_equal_widths(6) [OF isa _ _ that(4)] that(1-3) c(2) xor_ones [of "operand I sa A" "length A"] operand_mod [of I sa A]
    by (simp add: carries_def)
  have e: "(int (length A) = int (length Y)) = True" using c(2) by simp
  show ?thesis
    unfolding convert_not_def p bindW_lift e guardW_simps
    by (rule computes_bind [OF port_name_ok [OF isa p(2,4)]], rule computes_bind [OF port_name_ok [OF isa p(1,3)]],
        rule computes_bind [OF ones_ok], simp, rule computes_last [OF computes_emit]) (use v in blast)
qed

lemma convert_neg_ok:
  assumes isa: "isa_ok sem" and c: "unary_cell cell sa A Y" "length A \<le> length Y"
  shows "computes sem md (\<lambda>_. True) (convert_neg cell) (\<lambda>_ I. sigv I Y = (- operand I True A) mod 2 ^ length Y)"
proof -
  note p = unary_cellD [OF c(1)]
  let ?n = "int (length Y)"
  have l: "int (length A) \<le> ?n" "0 < ?n" "length Y > 0" using c(2) sig_ok_pos [OF p(4)] by simp_all
  have v: "sigv I Y = (- operand I True A) mod 2 ^ length Y"
    if "extended True ?n A a I" "carries Y y I" "wd I t = ?n" "env I k = 2 ^ nat ?n - 1 \<and> wd I k = ?n"
      "sem (wd I) (env I) (BINOP OP_XOR t a k)" "env I one = 1 \<and> wd I one = ?n"
      "sem (wd I) (env I) (BINOP OP_ADD y t one)" for a y t k one I
  proof -
    have "env I t = not (operand I True A) mod 2 ^ length Y"
      using isa_equal_widths(6) [OF isa _ _ that(5)] that(1,3,4) xor_ones [of "operand I True A" "length Y"]
      by (simp add: extended_def)
    then have "sigv I Y = (not (operand I True A) mod 2 ^ length Y + 1) mod 2 ^ length Y"
      using isa_equal_widths(1) [OF isa _ _ that(7)] that(2,3,6) by (simp add: carries_def)
    also have "\<dots> = (not (operand I True A) + 1) mod 2 ^ length Y" by (simp add: mod_add_left_eq)
    also have "not (operand I True A) + 1 = - operand I True A" by (simp add: not_int_def)
    finally show ?thesis .
  qed
  have one: "computes sem md (\<lambda>_. True) (const_num 1 ?n) (\<lambda>k I. env I k = 1 \<and> wd I k = ?n)"
    by (rule const_num_ok) (use l(3) in \<open>simp_all add: one_less_power\<close>)
  show ?thesis
    unfolding convert_neg_def p bindW_lift guardW_simps(2) [OF l(1)]
    by (rule computes_bind [OF extend_port_ok [OF isa p(1,3) l(1)]], rule computes_bind [OF port_name_ok [OF isa p(2,4)]],
        rule computes_bind [OF computes_temp], rule computes_bind [OF ones_ok], simp, rule computes_bind [OF computes_emit],
        rule computes_bind [OF one], rule computes_last [OF computes_emit]) (use v in blast)
qed

lemma unary_header_ok:
  assumes isa: "isa_ok sem" and c: "unary_cell cell sa A Y"
    and k: "\<And>a y. computes sem md (\<lambda>I. carries A a I \<and> carries Y y I) (f (int (length A), int (length Y), a, y)) G"
  shows "computes sem md (\<lambda>_. True) (bindW (unary_header cell) f) G"
proof -
  note p = unary_cellD [OF c]
  show ?thesis
    unfolding unary_header_def p bindW_lift bindW_assoc bindW_ret
    by (rule computes_bind [OF port_name_ok [OF isa p(1,3)]], rule computes_bind [OF port_name_ok [OF isa p(2,4)]],
        rule computes_weaken [OF k]) simp_all
qed

lemma convert_reduce_and_ok:
  assumes isa: "isa_ok sem" and c: "unary_cell cell sa A Y"
  shows "computes sem md (\<lambda>_. True) (convert_reduce_and cell) (\<lambda>_ I. sigv I Y = of_bool (sigv I A = 2 ^ length A - 1))"
  unfolding convert_reduce_and_def
  by (rule unary_header_ok [OF isa c], unfold prod.case, rule computes_bind [OF ones_ok], simp,
      rule to_bool_port_ok [OF isa unary_cellD(4) [OF c]], rule computes_last [OF computes_emit])
    (elim conjE, rule seq_carries [OF isa], auto)

lemma convert_reduce_or_ok:
  assumes isa: "isa_ok sem" and c: "unary_cell cell sa A Y"
  shows "computes sem md (\<lambda>_. True) (convert_reduce_or cell) (\<lambda>_ I. sigv I Y = of_bool (sigv I A \<noteq> 0))"
proof -
  have v: "bool_to r (sigv I A \<noteq> 0) I"
    if "carries A a I" "wd I b = 1" "env I z = 0 \<and> wd I z = int (length A)" "sem (wd I) (env I) (BINOP OP_SEQ b a z)"
      "env I k = 1 \<and> wd I k = 1" "sem (wd I) (env I) (BINOP OP_XOR r b k)" for a b z k r I
    by (rule xor_true [OF isa that(6,2) _ that(5)])
      (use seq_carries [OF isa that(4,1,3)] that(2) in \<open>simp add: bool_to_def\<close>)
  show ?thesis
    unfolding convert_reduce_or_def
    by (rule unary_header_ok [OF isa c], unfold prod.case, rule computes_bind [OF computes_temp],
        rule computes_bind [OF zero_ok], simp, rule computes_bind [OF computes_emit], rule computes_bind [OF const_true_ok],
        rule to_bool_port_ok [OF isa unary_cellD(4) [OF c]], rule computes_last [OF computes_emit])
      (use v in blast)+
qed

lemma convert_logic_not_ok:
  assumes isa: "isa_ok sem" and c: "unary_cell cell sa A Y"
  shows "computes sem md (\<lambda>_. True) (convert_logic_not cell) (\<lambda>_ I. sigv I Y = of_bool (sigv I A = 0))"
  unfolding convert_logic_not_def
  by (rule unary_header_ok [OF isa c], unfold prod.case, rule to_bool_port_ok [OF isa unary_cellD(4) [OF c]],
      rule computes_bind [OF zero_ok], simp, rule computes_last [OF computes_emit])
    (elim conjE, rule seq_carries [OF isa], auto)

lemma foldW_inv:
  assumes "\<And>i s. i < length xs \<Longrightarrow> computes sem md (P i s) (f s (xs ! i)) (P (Suc i))"
  shows "computes sem md (P 0 s) (foldW f s xs) (P (length xs))"
  using assms
proof (induction xs arbitrary: P s)
  case Nil
  then show ?case by (auto intro: computes_ret)
next
  case (Cons x xs)
  have "computes sem md (P (Suc 0) s') (foldW f s' xs) (P (Suc (length xs)))" for s'
    by (rule Cons.IH [of "\<lambda>i. P (Suc i)"]) (use Cons.prems [of "Suc _"] in auto)
  moreover have "computes sem md (P 0 s) (f s x) (P (Suc 0))"
    using Cons.prems [of 0] by simp
  ultimately show ?case
    by (auto intro: computes_seq)
qed

lemma upto_int: "[1..int n - 1] = map int [1..<n]"
proof (induction n)
  case (Suc n)
  show ?case
  proof (cases "n = 0")
    case False
    then have "[1..int n] = [1..int n - 1] @ [int n]" by (simp add: upto_rec2)
    then show ?thesis using Suc False by simp
  qed simp
qed simp

text \<open>The parity of the first bits of a signal.\<close>

definition parity_of :: "interp \<Rightarrow> sigbit list \<Rightarrow> bool" where
  "parity_of I sig = odd (count_list (map (bitv I) sig) True)"

lemma parity_take_Suc:
  "i < length A \<Longrightarrow> parity_of I (take (Suc i) A) \<longleftrightarrow> parity_of I (take i A) \<noteq> bitv I (A ! i)"
  by (simp add: parity_of_def take_Suc_conv_app_nth)

lemma slice_bit:
  assumes "isa_ok sem" "sem (wd I) (env I) (SLICE t a (int i) 1)" "wd I t = 1" "carries A a I" "i < length A"
  shows "env I t = of_bool (bitv I (A ! i))"
  using isa_SLICE [OF assms(1,2)] assms(3-5) bit_sigv [of I A i]
  by (simp add: carries_def bit_iff_odd mod_2_eq_odd)

lemma xor_of_bool: "xor (of_bool a) (of_bool b) = (of_bool (a \<noteq> b) :: int)"
  by (cases a; cases b) simp_all

lemma xor_bools:
  assumes "isa_ok sem" "sem (wd I) (env I) (BINOP OP_XOR r x y)" "wd I x = 1" "wd I y = 1" "wd I r = 1"
    "env I x = of_bool a" "env I y = of_bool b"
  shows "env I r = of_bool (a \<noteq> b)"
  using isa_equal_widths(6) [OF assms(1) _ _ assms(2)] assms(3-7) by (simp add: xor_of_bool)

definition loop_bit :: "sigbit list \<Rightarrow> rname \<Rightarrow> sigbit list \<Rightarrow> rname \<Rightarrow> (interp \<Rightarrow> bool) \<Rightarrow> rname \<Rightarrow> interp \<Rightarrow> bool" where
  "loop_bit A a Y y b r I \<longleftrightarrow> carries A a I \<and> carries Y y I \<and> wd I r = 1 \<and> env I r = of_bool (b I)"

lemma xor_step_ok:
  assumes isa: "isa_ok sem" and i: "i < length A"
  shows "computes sem md (loop_bit A a Y y (\<lambda>I. parity_of I (take i A)) r) (xor_step a r (int i))
    (loop_bit A a Y y (\<lambda>I. parity_of I (take (Suc i) A)))"
proof -
  have v: "loop_bit A a Y y (\<lambda>I. parity_of I (take (Suc i) A)) q I"
    if "loop_bit A a Y y (\<lambda>I. parity_of I (take i A)) r I" "wd I t = 1" "sem (wd I) (env I) (SLICE t a (int i) 1)"
      "wd I q = 1" "sem (wd I) (env I) (BINOP OP_XOR q r t)" for t q I
    using that xor_bools [OF isa that(5) _ that(2,4) _ slice_bit [OF isa that(3,2) _ i]]
    by (simp add: loop_bit_def parity_take_Suc [OF i])
  show ?thesis
    unfolding xor_step_def
    by (rule computes_bind [OF computes_temp], rule computes_bind [OF computes_emit],
        rule computes_bind [OF computes_temp], rule computes_bind [OF computes_emit], rule computes_ret)
      (use v in blast)
qed

lemma move_bool_ok:
  assumes isa: "isa_ok sem" and Y: "sig_ok Y"
  shows "computes sem md (loop_bit A a Y y b r) (move_bool (int (length Y)) y r) (\<lambda>_ I. sigv I Y = of_bool (b I))"
proof -
  have l: "1 \<le> int (length Y)" using sig_ok_pos(1) [OF Y] by linarith
  have "sigv I Y = of_bool (b I)"
    if "loop_bit A a Y y b r I" "sem (wd I) (env I) (MOV y r)" "int (length Y) = 1" for I
    using isa_MOV [OF isa that(2)] that by (simp add: loop_bit_def carries_def)
  moreover have "sigv I Y = of_bool (b I)"
    if "loop_bit A a Y y b r I" "sem (wd I) (env I) (PADZERO y r (int (length Y)))" for I
    using isa_PADZERO [OF isa that(2)] that l by (simp add: loop_bit_def carries_def)
  ultimately show ?thesis
    unfolding move_bool_def by (cases "int (length Y) = 1") (simp_all add: computes_last [OF computes_emit])
qed

lemma convert_reduce_xor_ok:
  assumes isa: "isa_ok sem" and c: "unary_cell cell sa A Y"
  shows "computes sem md (\<lambda>_. True) (convert_reduce_xor cell) (\<lambda>_ I. sigv I Y = of_bool (parity_of I A))"
proof -
  note p = unary_cellD [OF c]
  have n: "0 < length A" using sig_ok_pos [OF p(3)] by simp
  have len: "Suc (length A - 1) = length A" using n by simp
  have loop: "computes sem md (loop_bit A a Y y (\<lambda>I. parity_of I (take 1 A)) r)
      (foldW (xor_step a) r [1..int (length A) - 1]) (loop_bit A a Y y (\<lambda>I. parity_of I A))" for a y r
    using foldW_inv [of "map int [1..<length A]" sem md "\<lambda>i. loop_bit A a Y y (\<lambda>I. parity_of I (take (Suc i) A))" "xor_step a" r]
      xor_step_ok [OF isa, of "Suc _" A md a Y y]
    by (simp add: upto_int len)
  have v: "loop_bit A a Y y (\<lambda>I. parity_of I (take 1 A)) r I"
    if "carries A a I \<and> carries Y y I" "wd I r = 1" "sem (wd I) (env I) (SLICE r a 0 1)" for a y r I
    using slice_bit [OF isa _ that(2) _ n, of a] that parity_take_Suc [OF n, of I]
    by (simp add: loop_bit_def parity_of_def [of I "[]"])
  have start: "computes sem md (\<lambda>I. (carries A a I \<and> carries Y y I) \<and> wd I r = 1) (emitW (SLICE r a 0 1))
      (\<lambda>_. loop_bit A a Y y (\<lambda>I. parity_of I (take 1 A)) r)" for a y r
    by (rule computes_last [OF computes_emit]) (use v in blast)
  show ?thesis
    unfolding convert_reduce_xor_def
    by (rule unary_header_ok [OF isa c], unfold prod.case, rule computes_bind [OF computes_temp],
        rule computes_seq [OF start], rule computes_seq [OF loop], rule move_bool_ok [OF isa p(4)])
qed


text \<open>In the \<open>$reduce_xnor\<close> loop every step negates; the first bit is negated for an odd width.\<close>

definition xnor_bit :: "sigbit list \<Rightarrow> nat \<Rightarrow> interp \<Rightarrow> bool" where
  "xnor_bit A i I \<longleftrightarrow> (parity_of I (take i A) \<noteq> even (length A + i))"

lemma xnor_step_ok:
  assumes isa: "isa_ok sem" and i: "i < length A"
  shows "computes sem md (\<lambda>I. loop_bit A a Y y (xnor_bit A i) r I \<and> env I k = 1 \<and> wd I k = 1) (xnor_step a k r (int i))
    (\<lambda>r I. loop_bit A a Y y (xnor_bit A (Suc i)) r I \<and> env I k = 1 \<and> wd I k = 1)"
proof -
  have v: "loop_bit A a Y y (xnor_bit A (Suc i)) q I"
    if l: "loop_bit A a Y y (xnor_bit A i) r I" and k: "env I k = 1 \<and> wd I k = 1"
      and s: "wd I t = 1" "sem (wd I) (env I) (SLICE t a (int i) 1)" "wd I u = 1" "sem (wd I) (env I) (BINOP OP_XOR u t r)"
        "wd I q = 1" "sem (wd I) (env I) (BINOP OP_XOR q u k)" for t u q I
  proof -
    have b: "env I t = of_bool (bitv I (A ! i))"
      using slice_bit [OF isa s(2,1) _ i] l by (simp add: loop_bit_def)
    have "env I u = of_bool (bitv I (A ! i) \<noteq> xnor_bit A i I)"
      by (rule xor_bools [OF isa s(4) s(1) _ s(3) b]) (use l in \<open>simp_all add: loop_bit_def\<close>)
    then have "env I q = of_bool (\<not> (bitv I (A ! i) \<noteq> xnor_bit A i I))"
      using xor_true [OF isa s(6) s(3) _ k] s(5) by (simp add: bool_to_def)
    moreover have "\<not> (bitv I (A ! i) \<noteq> xnor_bit A i I) \<longleftrightarrow> xnor_bit A (Suc i) I"
      by (auto simp: xnor_bit_def parity_take_Suc [OF i])
    ultimately show ?thesis
      using l s(5) by (simp add: loop_bit_def)
  qed
  show ?thesis
    unfolding xnor_step_def
    by (rule computes_bind [OF computes_temp], rule computes_bind [OF computes_emit],
        rule computes_bind [OF computes_temp], rule computes_bind [OF computes_emit],
        rule computes_bind [OF computes_temp], rule computes_bind [OF computes_emit], rule computes_ret)
      (use v in blast)
qed

lemma convert_reduce_xnor_ok:
  assumes isa: "isa_ok sem" and c: "unary_cell cell sa A Y"
  shows "computes sem md (\<lambda>_. True) (convert_reduce_xnor cell) (\<lambda>_ I. sigv I Y = of_bool (\<not> parity_of I A))"
proof -
  note p = unary_cellD [OF c]
  have n: "0 < length A" using sig_ok_pos [OF p(3)] by simp
  have len: "Suc (length A - 1) = length A" using n by simp
  let ?P = "\<lambda>a y k i r I. loop_bit A a Y y (xnor_bit A (Suc i)) r I \<and> env I k = 1 \<and> wd I k = 1"
  have loop: "computes sem md (?P a y k 0 r) (foldW (xnor_step a k) r [1..int (length A) - 1]) (?P a y k (length A - 1))" for a y k r
    using foldW_inv [of "map int [1..<length A]" sem md "?P a y k" "xnor_step a k" r] xnor_step_ok [OF isa, of "Suc _" A md a Y y]
    by (simp add: upto_int)
  have fin: "xnor_bit A (Suc (length A - 1)) I \<longleftrightarrow> \<not> parity_of I A" for I
    unfolding len by (simp add: xnor_bit_def)
  have last: "computes sem md (?P a y k (length A - 1) r) (move_bool (int (length Y)) y r)
      (\<lambda>_ I. sigv I Y = of_bool (\<not> parity_of I A))" for a y k r
    by (rule computes_weaken [OF move_bool_ok [OF isa p(4), of md A a y "xnor_bit A (Suc (length A - 1))" r]])
      (simp_all only: fin)
  let ?H = "\<lambda>a y r k I. ((carries A a I \<and> carries Y y I) \<and> wd I r = 1) \<and> env I k = 1 \<and> wd I k = 1"
  have x1: "xnor_bit A 1 I \<longleftrightarrow> (bitv I (A ! 0) \<noteq> odd (length A))" for I
    using parity_take_Suc [OF n, of I] by (auto simp: xnor_bit_def parity_of_def [of I "[]"])
  have v0: "?P a y k 0 r I" if "?H a y r k I" "sem (wd I) (env I) (SLICE r a 0 1)" "even (length A)" for a y r k I
    using slice_bit [OF isa, of I r a 0 A] that n x1 [of I] by (simp add: loop_bit_def)
  have v1: "?P a y k 0 r I"
    if "?H a y r k I" "wd I t = 1" "sem (wd I) (env I) (SLICE t a 0 1)" "sem (wd I) (env I) (BINOP OP_XOR r t k)"
      "odd (length A)" for a y r k t I
  proof -
    have "env I t = of_bool (bitv I (A ! 0))" using slice_bit [OF isa, of I t a 0 A] that n by simp
    then have "env I r = of_bool (\<not> bitv I (A ! 0))"
      using xor_true [OF isa that(4,2), of "bitv I (A ! 0)"] that(1) by (simp add: bool_to_def)
    then show ?thesis using that(1,5) x1 [of I] by (simp add: loop_bit_def)
  qed
  have start: "computes sem md (?H a y r k)
      (if int (length A) mod 2 = 1 then bindW (temp 1) (\<lambda>prevbit. bindW (emitW (SLICE prevbit a 0 1)) (\<lambda>_.
          emitW (BINOP OP_XOR r prevbit k))) else emitW (SLICE r a 0 1)) (\<lambda>_. ?P a y k 0 r)" for a y r k
  proof (cases "odd (length A)")
    case True
    then have o: "int (length A) mod 2 = 1" by (simp add: mod_2_eq_odd)
    show ?thesis
      unfolding if_P [OF o]
      by (rule computes_bind [OF computes_temp], rule computes_bind [OF computes_emit], rule computes_last [OF computes_emit])
        (use v1 True in blast)
  next
    case False
    then have o: "\<not> int (length A) mod 2 = 1" by (simp add: mod_2_eq_odd)
    show ?thesis
      unfolding if_not_P [OF o] by (rule computes_last [OF computes_emit]) (use v0 False in blast)
  qed
  show ?thesis
    unfolding convert_reduce_xnor_def
    by (rule unary_header_ok [OF isa c], unfold prod.case, rule computes_bind [OF computes_temp],
        rule computes_bind [OF const_true_ok], rule computes_seq [OF start], rule computes_seq [OF loop], rule last)
qed

section \<open>Multiplexers, shifts and registers\<close>

definition mux_cell :: "cell_t \<Rightarrow> sigbit list \<Rightarrow> sigbit list \<Rightarrow> sigbit \<Rightarrow> sigbit list \<Rightarrow> bool" where
  "mux_cell cell A B S Y \<longleftrightarrow>
     getPort cell ''A'' = Inr A \<and> getPort cell ''B'' = Inr B \<and> getPort cell ''S'' = Inr [S] \<and> getPort cell ''Y'' = Inr Y \<and>
     sig_ok A \<and> sig_ok B \<and> bit_ok S \<and> sig_ok Y \<and> length A = length Y \<and> length B = length Y"

lemma sig_ok_single [simp]: "sig_ok [b] \<longleftrightarrow> bit_ok b"
  by (simp add: sig_ok_def)

lemma sigv_single [simp]: "sigv I [b] = of_bool (bitv I b)"
  by (simp add: sigv_def)

lemma convert_mux_ok:
  assumes isa: "isa_ok sem" and c: "mux_cell cell A B S Y"
  shows "computes sem md (\<lambda>_. True) (convert_mux cell) (\<lambda>_ I. sigv I Y = sigv I (if bitv I S then B else A))"
proof -
  have p: "getPort cell ''A'' = Inr A" "getPort cell ''B'' = Inr B" "getPort cell ''S'' = Inr [S]" "getPort cell ''Y'' = Inr Y"
    "sig_ok A" "sig_ok B" "sig_ok [S]" "sig_ok Y" "length A = length Y" "length B = length Y"
    using c by (simp_all add: mux_cell_def)
  have v: "sigv I Y = sigv I (if bitv I S then B else A)"
    if "carries A a I" "carries B b I" "carries Y y I" "carries [S] s I" "sem (wd I) (env I) (MUX y s a b)" for a b y s I
    using isa_MUX [OF isa that(5)] that(1-4) p(9,10) by (simp add: carries_def)
  show ?thesis
    unfolding convert_mux_def
    by (rule computes_bind [OF port_name_ok [OF isa p(1,5)]], rule computes_bind [OF port_name_ok [OF isa p(2,6)]],
        rule computes_bind [OF port_name_ok [OF isa p(4,8)]], rule computes_bind [OF port_name_ok [OF isa p(3,7)]],
        rule computes_bind [OF computes_emit], rule computes_last [OF computes_emit]) (blast intro: v)
qed

definition pmux_cell :: "cell_t \<Rightarrow> sigbit list \<Rightarrow> sigbit list \<Rightarrow> sigbit list \<Rightarrow> sigbit list \<Rightarrow> bool" where
  "pmux_cell cell A B S Y \<longleftrightarrow>
     getPort cell ''A'' = Inr A \<and> getPort cell ''B'' = Inr B \<and> getPort cell ''S'' = Inr S \<and> getPort cell ''Y'' = Inr Y \<and>
     sig_ok A \<and> sig_ok B \<and> sig_ok S \<and> sig_ok Y \<and> length A = length Y \<and> length B = length S * length Y \<and>
     param_int cell ''WIDTH'' = Inr (int (length Y)) \<and> param_int cell ''S_WIDTH'' = Inr (int (length S))"

definition pmux_case :: "sigbit list \<Rightarrow> nat \<Rightarrow> nat \<Rightarrow> sigbit list" where
  "pmux_case B n i = take n (drop (i * n) B)"

lemma pmux_case_ok:
  assumes "length B = m * n" "sig_ok B" "i < m" "0 < n"
  shows "sig_ok (pmux_case B n i)" "length (pmux_case B n i) = n" "int (Suc i) * int n \<le> int (length B)"
proof -
  have "Suc i * n \<le> m * n" using assms(3) by (intro mult_le_mono1) simp
  then have l: "i * n + n \<le> length B" using assms(1) by (simp add: algebra_simps)
  then show "length (pmux_case B n i) = n" by (simp add: pmux_case_def)
  then show "sig_ok (pmux_case B n i)"
    using assms(2,4) by (auto simp: sig_ok_def pmux_case_def list_all_iff dest!: in_set_takeD in_set_dropD)
  show "int (Suc i) * int n \<le> int (length B)"
    using l by (simp add: algebra_simps flip: of_nat_add of_nat_mult)
qed

definition pmux_inv :: "sigbit list \<Rightarrow> sigbit list \<Rightarrow> nat \<Rightarrow> nat \<Rightarrow> rname list \<times> rname list \<Rightarrow> interp \<Rightarrow> bool" where
  "pmux_inv B S n i acc I \<longleftrightarrow> length (fst acc) = i \<and> length (snd acc) = i \<and>
     (\<forall>j<i. carries (pmux_case B n j) (fst acc ! j) I \<and> carries [S ! j] (snd acc ! j) I)"

lemma pmux_step_ok:
  assumes isa: "isa_ok sem" and B: "length B = length S * n" "sig_ok B" "sig_ok S" "i < length S" "0 < n"
  shows "computes sem md (\<lambda>I. carries A a I \<and> pmux_inv B S n i acc I) (pmux_step (int n) B S acc (int i))
    (\<lambda>acc I. carries A a I \<and> pmux_inv B S n (Suc i) acc I)"
proof -
  note k = pmux_case_ok [OF B(1,2,4,5)]
  have s: "sig_ok [S ! i]" using B(3,4) by (simp add: sig_ok_def list_all_length)
  have g: "int n \<le> 0 \<or> (int i + 1) * int n \<le> int (length B)" "int i < int (length S)"
    using k(3) B(4) by (simp_all add: add.commute)
  have e: "take (nat (int n)) (drop (nat (int i * int n)) B) = pmux_case B n i" "S ! nat (int i) = S ! i"
    by (simp_all add: pmux_case_def nat_mult_distrib)
  have v: "carries A a I \<and> pmux_inv B S n (Suc i) (fst acc @ [c], snd acc @ [q]) I"
    if "carries A a I \<and> pmux_inv B S n i acc I" "carries (pmux_case B n i) c I" "carries [S ! i] q I" for c q I
    using that by (auto simp: pmux_inv_def nth_append less_Suc_eq)
  show ?thesis
    unfolding pmux_step_def guardW_simps(2) [OF g(1)] guardW_simps(2) [OF g(2)] e
    by (rule computes_bind [OF convert_sig_ok [OF isa k(1)]], rule computes_bind [OF convert_sig_ok [OF isa s]],
        rule computes_ret) (use v in blast)
qed

lemma upto0_int: "[0..int n - 1] = map int [0..<n]"
  by (induction n) (simp_all add: upto_rec2)

lemma filter_zip_none:
  "length ks = length cs \<Longrightarrow> (\<And>i. i < length ks \<Longrightarrow> \<not> P (ks ! i)) \<Longrightarrow> filter (\<lambda>(k, c). P k) (zip ks cs) = []"
  by (auto simp: filter_empty_conv in_set_conv_nth)

lemma filter_zip_one:
  assumes "length ks = length cs" "j < length ks" "P (ks ! j)" "\<And>i. i < length ks \<Longrightarrow> P (ks ! i) \<Longrightarrow> i = j"
  shows "filter (\<lambda>(k, c). P k) (zip ks cs) = [(ks ! j, cs ! j)]"
  using assms
proof (induction ks cs arbitrary: j rule: list_induct2)
  case (Cons k ks c cs)
  show ?case
  proof (cases j)
    case 0
    have "\<not> P (ks ! i)" if "i < length ks" for i
      using Cons.prems(3) [of "Suc i"] that 0 by auto
    then show ?thesis
      using 0 Cons.prems(2) Cons.hyps filter_zip_none [of ks cs P] by simp
  next
    case (Suc i)
    have "\<not> P k" using Cons.prems(3) [of 0] Suc by auto
    moreover have "filter (\<lambda>(k, c). P k) (zip ks cs) = [(ks ! i, cs ! i)]"
    proof (rule Cons.IH)
      show "i < length ks" "P (ks ! i)" using Cons.prems(1,2) Suc by simp_all
      show "l = i" if "l < length ks" "P (ks ! l)" for l
        using Cons.prems(3) [of "Suc l"] that Suc by simp
    qed
    ultimately show ?thesis
      using Suc by simp
  qed
qed simp

lemma length_filter_zip:
  assumes "length ks = length cs"
  shows "length (filter P ks) = length (filter (\<lambda>(k, c). P k) (zip ks cs))"
  using assms by (induction ks cs rule: list_induct2) simp_all

text \<open>At most one select bit of a \<open>$pmux\<close> is set: the word it selects, or \<open>A\<close>.\<close>

definition pmux_result :: "interp \<Rightarrow> sigbit list \<Rightarrow> sigbit list \<Rightarrow> sigbit list \<Rightarrow> nat \<Rightarrow> int \<Rightarrow> bool" where
  "pmux_result I A B S n v \<longleftrightarrow>
     ((\<forall>i<length S. \<not> bitv I (S ! i)) \<longrightarrow> v = sigv I A) \<and>
     (\<forall>i<length S. bitv I (S ! i) \<and> (\<forall>j<length S. bitv I (S ! j) \<longrightarrow> j = i) \<longrightarrow> v = sigv I (pmux_case B n i))"

lemma isa_PARMUX:
  assumes "isa_ok sem" "sem e d (PARMUX rd choices rs conds)" "e rd = e rs" "length choices = length conds"
    "\<forall>c\<in>set choices. e c = e rs" "\<forall>k\<in>set conds. e k = 1" "length (filter (\<lambda>k. d k = 1) conds) \<le> 1"
  shows "d rd = parmux_value d choices rs conds"
  using assms unfolding isa_ok_def moves_ok_def by blast

lemma parmux_result:
  assumes isa: "isa_ok sem" and i: "sem (wd I) (env I) (PARMUX y cs a ks)"
    and w: "carries A a I" "pmux_inv B S n (length S) (cs, ks) I" "wd I y = int (length A)" "n = length A"
      "\<And>j. j < length S \<Longrightarrow> length (pmux_case B n j) = n"
  shows "pmux_result I A B S n (env I y)"
proof -
  have l: "length cs = length S" "length ks = length S" using w(2) by (simp_all add: pmux_inv_def)
  have k: "env I (ks ! j) = of_bool (bitv I (S ! j))" "wd I (ks ! j) = 1" "env I (cs ! j) = sigv I (pmux_case B n j)"
    "wd I (cs ! j) = int n" if "j < length S" for j
    using w(2) w(5) [OF that] that by (simp_all add: pmux_inv_def carries_def)
  have c: "\<forall>c\<in>set cs. wd I c = wd I a" "\<forall>k\<in>set ks. wd I k = 1"
  proof -
    have "wd I (cs ! j) = wd I a" if "j < length cs" for j
      using k(4) [of j] that l w(1,4) by (simp add: carries_def)
    then show "\<forall>c\<in>set cs. wd I c = wd I a" by (metis in_set_conv_nth)
    have "wd I (ks ! j) = 1" if "j < length ks" for j
      using k(2) [of j] that l by simp
    then show "\<forall>k\<in>set ks. wd I k = 1" by (metis in_set_conv_nth)
  qed
  have law: "env I y = parmux_value (env I) cs a ks" if "length (filter (\<lambda>k. env I k = 1) ks) \<le> 1"
    by (rule isa_PARMUX [OF isa i _ _ c that]) (use w(1,3) l in \<open>simp_all add: carries_def\<close>)
  have "env I y = sigv I A" if "\<forall>i<length S. \<not> bitv I (S ! i)"
  proof -
    have f: "filter (\<lambda>(k, c). env I k = 1) (zip ks cs) = []"
    proof (rule filter_zip_none)
      show "\<not> env I (ks ! j) = 1" if "j < length ks" for j
        using k(1) [of j] that l \<open>\<forall>i<length S. \<not> bitv I (S ! i)\<close> by simp
    qed (use l in simp)
    then show ?thesis
      using law length_filter_zip [of ks cs "\<lambda>k. env I k = 1"] l w(1) by (simp add: parmux_value_def carries_def)
  qed
  moreover have "env I y = sigv I (pmux_case B n i)"
    if "i < length S" "bitv I (S ! i)" "\<forall>j<length S. bitv I (S ! j) \<longrightarrow> j = i" for i
  proof -
    have f: "filter (\<lambda>(k, c). env I k = 1) (zip ks cs) = [(ks ! i, cs ! i)]"
    proof (rule filter_zip_one)
      show "i < length ks" "env I (ks ! i) = 1" using l k(1) [OF that(1)] that(1,2) by simp_all
      show "j = i" if "j < length ks" "env I (ks ! j) = 1" for j
        using k(1) [of j] that l \<open>\<forall>j<length S. bitv I (S ! j) \<longrightarrow> j = i\<close> by (cases "bitv I (S ! j)") simp_all
    qed (use l in simp)
    then show ?thesis
      using law length_filter_zip [of ks cs "\<lambda>k. env I k = 1"] l k(3) [OF that(1)] by (simp add: parmux_value_def)
  qed
  ultimately show ?thesis
    unfolding pmux_result_def by blast
qed

lemma convert_pmux_ok:
  assumes isa: "isa_ok sem" and c: "pmux_cell cell A B S Y"
  shows "computes sem md (\<lambda>_. True) (convert_pmux cell) (\<lambda>_ I. pmux_result I A B S (length Y) (sigv I Y))"
proof -
  have p: "getPort cell ''A'' = Inr A" "getPort cell ''B'' = Inr B" "getPort cell ''S'' = Inr S" "getPort cell ''Y'' = Inr Y"
    "sig_ok A" "sig_ok B" "sig_ok S" "sig_ok Y" "length A = length Y" "length B = length S * length Y"
    "param_int cell ''WIDTH'' = Inr (int (length Y))" "param_int cell ''S_WIDTH'' = Inr (int (length S))"
    using c by (simp_all add: pmux_cell_def)
  have n: "0 < length Y" using sig_ok_pos [OF p(8)] by simp
  let ?P = "\<lambda>a i acc I. carries A a I \<and> pmux_inv B S (length Y) i acc I"
  have loop: "computes sem md (carries A a) (foldW (pmux_step (int (length Y)) B S) ([], []) [0..int (length S) - 1])
      (?P a (length S))" for a
    using foldW_inv [of "map int [0..<length S]" sem md "?P a" "pmux_step (int (length Y)) B S" "([], [])"]
      pmux_step_ok [OF isa p(10,6,7) _ n, of _ md A a]
    by (simp add: upto0_int pmux_inv_def)
  have len: "length (fst acc) = length (snd acc)"
    if "foldW (pmux_step (int (length Y)) B S) ([], []) [0..int (length S) - 1] w = Inr (acc, w')" for acc w w'
  proof -
    have "length (fst acc) = length (snd acc)" if "length (fst z) = length (snd z)" "foldW (pmux_step m B S) z xs w = Inr (acc, w')"
      for z xs m w w'
      using that
    proof (induction xs arbitrary: z w)
      case (Cons x xs)
      obtain z1 w1 where 1: "pmux_step m B S z x w = Inr (z1, w1)" "foldW (pmux_step m B S) z1 xs w1 = Inr (acc, w')"
        using Cons.prems(2) by (auto elim: bindW_InrE)
      have "length (fst z1) = length (snd z1)"
        using 1(1) Cons.prems(1) unfolding pmux_step_def guardW_def
        by (auto elim!: bindW_InrE simp: retW_def split: if_splits)
      then show ?case using Cons.IH 1(2) by blast
    qed (simp add: retW_def)
    then show ?thesis using that by fastforce
  qed
  have v: "pmux_result I A B S (length Y) (sigv I Y)"
    if "?P a (length S) acc I" "carries Y y I" "sem (wd I) (env I) (PARMUX y (fst acc) a (snd acc))" for a y acc I
  proof -
    have "pmux_result I A B S (length Y) (env I y)"
      by (rule parmux_result [OF isa that(3)]) (use that(1,2) p(9) pmux_case_ok(2) [OF p(10,6) _ n] in \<open>simp_all add: carries_def\<close>)
    then show ?thesis using that(2) by (simp add: carries_def)
  qed
  show ?thesis
    unfolding convert_pmux_def p bindW_lift
    by (rule computes_seq [OF port_name_ok [OF isa p(1,5)]], rule computes_seq_pure [OF loop len], assumption,
        simp only: split_beta, rule computes_bind [OF computes_emit], rule computes_bind [OF port_name_ok [OF isa p(4,8)]],
        simp only: guardW_simps, rule computes_last [OF computes_emit]) (use v in blast)
qed

lemma shift_header_ok:
  assumes c: "binary_cell cell sa False A B Y"
    and k: "computes sem md H (f (sa, int (length A), int (length Y))) G"
  shows "computes sem md H (bindW (shift_header cell) f) G"
  using k unfolding shift_header_def binary_cellD [OF c] bindW_lift guardW_simps(1) bindW_assoc bindW_ret simp_thms .

lemma convert_shift_ok:
  assumes isa: "isa_ok sem" and c: "binary_cell cell sa False A B Y" and b: "b = OP_SLL \<or> b = OP_SRL"
  shows "computes sem md (\<lambda>_. True) (convert_shift b cell) (\<lambda>_ I. sigv I Y =
    (let x = operand I sa A mod 2 ^ max (length A) (length Y); k = 2 ^ nat (sigv I B)
     in (if b = OP_SLL then x * k else x div k) mod 2 ^ length Y))"
proof -
  note p = binary_cellD [OF c]
  let ?n = "max (int (length A)) (int (length Y))"
  have l: "int (length A) \<le> ?n" "nat ?n = max (length A) (length Y)" by auto
  have v: "sigv I Y = (let x = operand I sa A mod 2 ^ max (length A) (length Y); k = 2 ^ nat (sigv I B)
      in (if b = OP_SLL then x * k else x div k) mod 2 ^ length Y)"
    if "carries Y y I" "extended sa ?n A x I" "carries B s I" "sem (wd I) (env I) (BINOP b y x s)" for y x s I
  proof -
    have e: "env I x = operand I sa A mod 2 ^ max (length A) (length Y)" "env I s = sigv I B"
      "env I y = sigv I Y" "wd I y = int (length Y)" "wd I y \<le> wd I x"
      using that(1-3) by (simp_all add: carries_def extended_def l(2))
    from b show ?thesis
    proof
      assume "b = OP_SLL"
      then show ?thesis
        using isa_shift(1) [OF isa, of "wd I" "env I" y x s] that(4) e by (simp add: Let_def)
    next
      assume "b = OP_SRL"
      then show ?thesis
        using isa_shift(2) [OF isa, of "wd I" "env I" y x s] that(4) e by (simp add: Let_def)
    qed
  qed
  show ?thesis
    unfolding convert_shift_def
    by (rule shift_header_ok [OF c], unfold prod.case, rule computes_bind [OF port_name_ok [OF isa p(3,6)]],
        rule computes_bind [OF extend_port_ok [OF isa p(1,4) l(1)]], rule computes_bind [OF port_name_ok [OF isa p(2,5)]],
        rule computes_last [OF computes_emit]) (use v in blast)
qed

lemma carries_signed:
  assumes "carries A x I" "A \<noteq> []"
  shows "signed_of (wd I x) (env I x) = operand I True A"
  using extended_signed [OF carries_extended [OF assms(1)]] assms by (simp add: carries_def)

lemma convert_sshr_ok:
  assumes isa: "isa_ok sem" and c: "binary_cell cell sa False A B Y"
  shows "computes sem md (\<lambda>_. True) (convert_sshr cell)
    (\<lambda>_ I. sigv I Y = (operand I sa A div 2 ^ nat (sigv I B)) mod 2 ^ length Y)"
proof -
  note p = binary_cellD [OF c]
  let ?n = "max (int (length A)) (int (length Y))"
  have l: "int (length A) \<le> ?n" "0 < ?n" using sig_ok_pos(1) [OF p(4)] by (simp_all add: less_max_iff_disj)
  note A = sig_ok_pos(2) [OF p(4)]
  let ?G = "\<lambda>(_ :: unit) I. sigv I Y = (operand I sa A div 2 ^ nat (sigv I B)) mod 2 ^ length Y"
  show ?thesis
  proof (cases sa)
    case False
    have v: "?G () I" if "carries Y y I" "extended False ?n A x I" "carries B s I" "sem (wd I) (env I) (BINOP OP_SRL y x s)" for y x s I
    proof -
      have e: "env I y = sigv I Y" "wd I y = int (length Y)" "env I s = sigv I B" using that(1,3) by (simp_all add: carries_def)
      have "wd I y \<le> wd I x" using that(1,2) by (simp add: carries_def extended_def)
      then show ?thesis
        using isa_shift(2) [OF isa that(4)] extended_unsigned [OF that(2) l(1)] False unfolding e by simp
    qed
    show ?thesis
      unfolding convert_sshr_def
      by (rule shift_header_ok [OF c], unfold prod.case, rule computes_bind [OF port_name_ok [OF isa p(3,6)]],
          unfold if_not_P [OF False], rule computes_bind [OF extend_port_ok [OF isa p(1,4) l(1)]],
          rule computes_bind [OF port_name_ok [OF isa p(2,5)]], rule computes_last [OF computes_emit]) (use v in blast)
  next
    case True
    show ?thesis
    proof (cases "int (length Y) < ?n")
      case short: True
      have n: "?n = int (length A)" "length Y \<le> length A" using short by auto
      have v: "?G () I" if "carries Y y I" "wd I t = ?n" "carries A x I" "carries B s I"
        "sem (wd I) (env I) (BINOP OP_SRA t x s)" "sem (wd I) (env I) (SLICE y t 0 (int (length Y)))" for y t x s I
      proof -
        have "env I t = (operand I True A div 2 ^ nat (sigv I B)) mod 2 ^ length A"
          using isa_shift(3) [OF isa that(5)] carries_signed [OF that(3) A] that(2-4) n(1) by (simp add: carries_def)
        then have "sigv I Y = (operand I True A div 2 ^ nat (sigv I B)) mod 2 ^ length A mod 2 ^ length Y"
          using isa_SLICE [OF isa that(6)] that(1,2) n by (simp add: carries_def)
        also have "\<dots> = (operand I True A div 2 ^ nat (sigv I B)) mod 2 ^ length Y"
          by (rule mod_mod_cancel) (use n(2) in \<open>simp add: le_imp_power_dvd\<close>)
        finally show ?thesis using True by simp
      qed
      show ?thesis
        unfolding convert_sshr_def
        by (rule shift_header_ok [OF c], unfold prod.case, rule computes_bind [OF port_name_ok [OF isa p(3,6)]],
            unfold if_P [OF True] if_P [OF short], rule computes_bind [OF computes_temp],
            rule computes_bind [OF port_name_ok [OF isa p(1,4)]], rule computes_bind [OF port_name_ok [OF isa p(2,5)]],
            rule computes_bind [OF computes_emit], rule computes_last [OF computes_emit]) (use v in blast)
    next
      case long: False
      have v: "?G () I" if "carries Y y I" "extended True ?n A x I" "carries B s I" "sem (wd I) (env I) (BINOP OP_SRA y x s)" for y x s I
      proof -
        have e: "env I y = sigv I Y" "wd I y = int (length Y)" "env I s = sigv I B" "wd I x = ?n"
          using that(1-3) by (simp_all add: carries_def extended_def)
        have "wd I y = wd I x" using long e(2,4) by linarith
        then show ?thesis
          using isa_shift(3) [OF isa that(4)] extended_signed [OF that(2) l] True unfolding e by simp
      qed
      show ?thesis
        unfolding convert_sshr_def
        by (rule shift_header_ok [OF c], unfold prod.case, rule computes_bind [OF port_name_ok [OF isa p(3,6)]],
            unfold if_P [OF True] if_not_P [OF long], rule computes_bind [OF extend_port_ok [OF isa p(1,4) l(1)]],
            rule computes_bind [OF port_name_ok [OF isa p(2,5)]], rule computes_last [OF computes_emit]) (use v in blast)
    qed
  qed
qed

text \<open>\<open>$pos\<close> without extension.\<close>

lemma convert_pos_ok:
  assumes isa: "isa_ok sem" and c: "unary_cell cell sa A Y" and l: "length Y \<le> length A"
  shows "computes sem md (\<lambda>_. True) (convert_pos cell) (\<lambda>_ I. sigv I Y = operand I sa A mod 2 ^ length Y)"
proof -
  note p = unary_cellD [OF c]
  have m: "operand I sa A mod 2 ^ length Y = sigv I A mod 2 ^ length Y" for I
    unfolding operand_mod [of I sa A, symmetric] by (rule mod_mod_cancel [symmetric]) (use l in \<open>simp add: le_imp_power_dvd\<close>)
  have v1: "sigv I Y = operand I sa A mod 2 ^ length Y"
    if "carries A a I \<and> carries Y y I" "sem (wd I) (env I) (SLICE y a 0 (int (length Y)))" for a y I
    using isa_SLICE [OF isa that(2)] that(1) l by (simp add: carries_def m)
  have v2: "sigv I Y = operand I sa A mod 2 ^ length Y"
    if "carries A a I \<and> carries Y y I" "sem (wd I) (env I) (MOV y a)" "length Y = length A" for a y I
    using isa_MOV [OF isa that(2)] that(1,3) operand_mod [of I sa A] by (simp add: carries_def)
  have n: "\<not> (sa \<and> int (length A) < int (length Y))" using l by simp
  show ?thesis
    unfolding convert_pos_def
    by (rule unary_header_ok [OF isa c], unfold prod.case p(7) bindW_lift if_not_P [OF n], 
        cases "int (length Y) < int (length A)"; simp only: if_True if_False; rule computes_last [OF computes_emit])
      (use v1 v2 l in auto)
qed

text \<open>A cell of the module that is identified by its pointer.\<close>

definition own_cell :: "module_t \<Rightarrow> cell_t \<Rightarrow> bool" where
  "own_cell md cell \<longleftrightarrow> cell \<in> set (mod_cells md) \<and> (\<forall>c\<in>set (mod_cells md). cell_ptr c = cell_ptr cell \<longrightarrow> c = cell)"

lemma tryCreateState_ok:
  assumes t: "cell_type dff = ''$dff'' \<or> cell_type dff = ''$memrd_v2''" and n: "param_int dff ''WIDTH'' = Inr n"
    and o: "own_cell md dff" and w: "writer_wf sem md w"
  shows "\<exists>w' q d. tryCreateState dff w = Inr ((), w') \<and> writer_wf sem md w' \<and> extends w w' \<and>
    map_of (states w') (cell_ptr dff) = Some (q, d)"
proof (cases "map_of (states w) (cell_ptr dff)")
  case (Some e)
  then show ?thesis
    using w t by (cases e) (auto simp: tryCreateState_def)
next
  case None
  let ?r = "Rname CHR ''r'' (wire_index w)" and ?q = "Rname CHR ''i'' (wire_index w + 1)"
  let ?d = "Rname CHR ''o'' (wire_index w + 1 + 1)"
  define init where "init = (if has_attribute (cell_attrs dff) ''INIT''
      then Some (resolveInitBits (get_const_attribute (cell_attrs dff) ''INIT''))
      else map_option resolveInitBits (map_of (cell_params dff) ''INIT_VALUE''))"
  let ?g = "\<lparr>reg_name = ?r, reg_width = n, reg_input = ?q, reg_init = init, reg_output = ?d\<rparr>"
  let ?w = "w\<lparr>wire_index := wire_index w + 1 + 1 + 1, wdefs := wdefs w @ source_line (cell_attrs dff),
      regs := regs w @ [?g], states := (cell_ptr dff, ?q, ?d) # states w\<rparr>"
  have e: "extends w ?w" by (auto simp: extends_def emits_def deferred_def)
  have "state_ok md (cell_ptr dff) ?q ?d ?g" using o n by (auto simp: state_ok_def own_cell_def)
  then have "writer_wf sem md ?w" by (intro wf_step [OF w extends_emits [OF e]]) auto
  moreover have "tryCreateState dff w = Inr ((), ?w)"
    unfolding tryCreateState_def guardW_simps(2) [OF t] n
    by (simp add: None bindW_def next_name_def liftW_def Let_def init_def)
  ultimately show ?thesis
    using e by auto
qed

lemma getState_ok:
  assumes "cell_type dff = ''$dff'' \<or> cell_type dff = ''$memrd_v2''" "param_int dff ''WIDTH'' = Inr n" "own_cell md dff"
  shows "computes sem md (\<lambda>_. True) (getCurrent dff) (\<lambda>q I. env I q = reg_cur I (cell_ptr dff) \<and> wd I q = n)"
    "computes sem md (\<lambda>_. True) (getNext dff) (\<lambda>d I. env I d = reg_next I (cell_ptr dff) \<and> wd I d = n)"
proof -
  have *: "\<exists>w' q d. tryCreateState dff w = Inr ((), w') \<and> writer_wf sem md w' \<and> extends w w' \<and>
      map_of (states w') (cell_ptr dff) = Some (q, d) \<and> (\<forall>I. models sem I w' \<longrightarrow>
        (env I q = reg_cur I (cell_ptr dff) \<and> wd I q = n) \<and>
        (env I d = reg_next I (cell_ptr dff) \<and> wd I d = n))" if wf: "writer_wf sem md w" for w
  proof -
    obtain w' q d where 1: "tryCreateState dff w = Inr ((), w')" "writer_wf sem md w'" "extends w w'"
      "map_of (states w') (cell_ptr dff) = Some (q, d)"
      using tryCreateState_ok [OF assms wf] by blast
    have m: "(cell_ptr dff, q, d) \<in> set (states w')" using 1(4) by (rule map_of_SomeD)
    then obtain g where g: "g \<in> set (regs w')" "state_ok md (cell_ptr dff) q d g"
      using 1(2) unfolding writer_wf_def by fast
    then have "reg_width g = n" "reg_input g = q" "reg_output g = d" using assms(2,3) by (auto simp: state_ok_def own_cell_def)
    then have "(env I q = reg_cur I (cell_ptr dff) \<and> wd I q = n) \<and> (env I d = reg_next I (cell_ptr dff) \<and> wd I d = n)"
      if "models sem I w'" for I
      using that m g(1) unfolding models_def reg_holds_def by fast
    then show ?thesis
      using 1 by blast
  qed
  show "computes sem md (\<lambda>_. True) (getCurrent dff) (\<lambda>q I. env I q = reg_cur I (cell_ptr dff) \<and> wd I q = n)"
  proof (rule computesI)
    fix w assume "writer_wf sem md w"
    from * [OF this] show "\<exists>x w'. getCurrent dff w = Inr (x, w') \<and> writer_wf sem md w' \<and> extends w w' \<and>
        (\<forall>I. models sem I w' \<longrightarrow> env I x = reg_cur I (cell_ptr dff) \<and> wd I x = n)"
      by (elim exE conjE) (simp add: getCurrent_def bindW_def)
  qed
  show "computes sem md (\<lambda>_. True) (getNext dff) (\<lambda>d I. env I d = reg_next I (cell_ptr dff) \<and> wd I d = n)"
  proof (rule computesI)
    fix w assume "writer_wf sem md w"
    from * [OF this] show "\<exists>x w'. getNext dff w = Inr (x, w') \<and> writer_wf sem md w' \<and> extends w w' \<and>
        (\<forall>I. models sem I w' \<longrightarrow> env I x = reg_next I (cell_ptr dff) \<and> wd I x = n)"
      by (elim exE conjE) (simp add: getNext_def bindW_def)
  qed
qed

definition dff_cell :: "module_t \<Rightarrow> cell_t \<Rightarrow> sigbit list \<Rightarrow> sigbit list \<Rightarrow> bool" where
  "dff_cell md cell D Q \<longleftrightarrow> cell_type cell = ''$dff'' \<and> getPort cell ''D'' = Inr D \<and> getPort cell ''Q'' = Inr Q \<and>
     sig_ok D \<and> sig_ok Q \<and> length D = length Q \<and> param_int cell ''WIDTH'' = Inr (int (length Q)) \<and> own_cell md cell"

lemma convert_dff_ok:
  assumes isa: "isa_ok sem" and c: "dff_cell md cell D Q"
  shows "computes sem md (\<lambda>_. True) (convert_dff cell) (\<lambda>_ I. sigv I Q = reg_cur I (cell_ptr cell) \<and>
    reg_next I (cell_ptr cell) = sigv I D)"
proof -
  have p: "cell_type cell = ''$dff'' \<or> cell_type cell = ''$memrd_v2''" "getPort cell ''D'' = Inr D" "getPort cell ''Q'' = Inr Q"
    "sig_ok D" "sig_ok Q" "length D = length Q" "param_int cell ''WIDTH'' = Inr (int (length Q))" "own_cell md cell"
    using c by (simp_all add: dff_cell_def)
  have v: "sigv I Q = reg_cur I (cell_ptr cell) \<and> reg_next I (cell_ptr cell) = sigv I D"
    if "env I cu = reg_cur I (cell_ptr cell) \<and> wd I cu = int (length Q)"
      "env I ne = reg_next I (cell_ptr cell) \<and> wd I ne = int (length Q)" "carries Q q I"
      "sem (wd I) (env I) (MOV q cu)" "carries D d I" "sem (wd I) (env I) (MOV ne d)" for cu ne q d I
    using isa_MOV [OF isa that(4)] isa_MOV [OF isa that(6)] that(1,2,3,5) p(6) by (simp add: carries_def)
  show ?thesis
    unfolding convert_dff_def
    by (rule computes_bind [OF getState_ok(1) [OF p(1,7,8)]], rule computes_bind [OF getState_ok(2) [OF p(1,7,8)]],
        rule computes_bind [OF port_name_ok [OF isa p(3,5)]], rule computes_bind [OF computes_emit],
        rule computes_bind [OF port_name_ok [OF isa p(2,4)]], rule computes_last [OF computes_emit])
      (use v in blast)
qed

section \<open>Every cell against the constant evaluation\<close>

type_synonym const_op = "const_t \<Rightarrow> const_t \<Rightarrow> bool \<Rightarrow> bool \<Rightarrow> int \<Rightarrow> const_t res"

definition binary_ops :: "(string \<times> const_op) list" where
  "binary_ops = [(''$and'', const_and), (''$or'', const_or), (''$xor'', const_xor), (''$xnor'', const_xnor),
     (''$add'', const_add), (''$sub'', const_sub), (''$mul'', const_mul), (''$eq'', const_eq), (''$ne'', const_ne),
     (''$lt'', const_lt), (''$le'', const_le), (''$gt'', const_gt), (''$ge'', const_ge)]"

definition logic_ops :: "(string \<times> const_op) list" where
  "logic_ops = [(''$logic_and'', const_logic_and), (''$logic_or'', const_logic_or)]"

definition shift_ops :: "(string \<times> const_op) list" where
  "shift_ops = [(''$shl'', const_shl), (''$sshl'', const_sshl), (''$shr'', const_shr), (''$sshr'', const_sshr)]"

lemma equal_signs:
  assumes "binary_cell cell sa sb A B Y" "assertEqualSigns cell = Inr ()"
  shows "sb = sa"
proof -
  obtain a b where "getParam cell ''A_SIGNED'' = Inr a" "getParam cell ''B_SIGNED'' = Inr b" "as_bool a = sa" "as_bool b = sb"
    using assms(1) by (auto simp: binary_cell_def bindE_def split: sum.splits)
  then show ?thesis
    using assms(2) by (auto simp: assertEqualSigns_def require_def equalSign_def guardE_def Const_eq_def as_bool_def split: if_splits)
qed

lemma convert_cell_dispatch:
  assumes "computes sem md (\<lambda>_. True) m G"
    and "convert_cell cell = bindW (emitW (Comment_cell (log_id (cell_name cell)) (log_id (cell_type cell)))) (\<lambda>_. m)"
  shows "computes sem md (\<lambda>_. True) (convert_cell cell) G"
  unfolding assms(2) by (rule computes_bind [OF computes_emit], rule computes_weaken [OF assms(1)]) simp_all


lemma operand_cval: "cval sg (bits (sig_const I A)) = operand I sg A"
  by (simp add: operand_def)

lemma convert_binary_cell_ok:
  assumes isa: "isa_ok sem" and op: "(cell_type cell, op) \<in> set binary_ops"
    and c: "binary_cell cell sa sb A B Y" "assertEqualSigns cell = Inr ()"
  shows "computes sem md (\<lambda>_. True) (convert_cell cell)
    (\<lambda>_ I. op (sig_const I A) (sig_const I B) sa sb (int (length Y)) = Inr (sig_const I Y))"
proof -
  have s: "sb = sa" by (rule equal_signs [OF c])
  have n: "0 < int (length Y)" "Y \<noteq> []" using sig_ok_pos [OF binary_cellD(6) [OF c(1)]] by simp_all
  note bw = const_bitwise_value [OF sig_const_simps(2) sig_const_simps(2) order.strict_implies_order [OF n(1)] refl refl, unfolded operand_cval]
  note cmp = const_compare_value [OF sig_const_simps(2) sig_const_simps(2) n(1) refl refl, unfolded operand_cval]
  note alu = convert_binary_ok [OF isa c]
  from op consider
      "cell_type cell = ''$and''" "op = const_and" | "cell_type cell = ''$or''" "op = const_or"
    | "cell_type cell = ''$xor''" "op = const_xor" | "cell_type cell = ''$xnor''" "op = const_xnor"
    | "cell_type cell = ''$add''" "op = const_add" | "cell_type cell = ''$sub''" "op = const_sub"
    | "cell_type cell = ''$mul''" "op = const_mul" | "cell_type cell = ''$eq''" "op = const_eq"
    | "cell_type cell = ''$ne''" "op = const_ne" | "cell_type cell = ''$lt''" "op = const_lt"
    | "cell_type cell = ''$le''" "op = const_le" | "cell_type cell = ''$gt''" "op = const_gt"
    | "cell_type cell = ''$ge''" "op = const_ge"
    unfolding binary_ops_def by auto
  then show ?thesis
  proof cases
    case 1
    show ?thesis
      by (rule convert_cell_dispatch [OF computes_last [OF alu [of OP_AND]]])
        (use 1 in \<open>simp_all add: convert_cell_def alu_value_def s bw cmp sig_const_eqI sig_const_boolI n \<close>)
  next
    case 2
    show ?thesis
      by (rule convert_cell_dispatch [OF computes_last [OF alu [of OP_OR]]])
        (use 2 in \<open>simp_all add: convert_cell_def alu_value_def s bw cmp sig_const_eqI sig_const_boolI n \<close>)
  next
    case 3
    show ?thesis
      by (rule convert_cell_dispatch [OF computes_last [OF alu [of OP_XOR]]])
        (use 3 in \<open>simp_all add: convert_cell_def alu_value_def s bw cmp sig_const_eqI sig_const_boolI n \<close>)
  next
    case 4
    show ?thesis
      by (rule convert_cell_dispatch [OF computes_last [OF convert_xnor_ok [OF isa c]]])
        (use 4 in \<open>simp_all add: convert_cell_def alu_value_def s bw cmp sig_const_eqI sig_const_boolI n \<close>)
  next
    case 5
    show ?thesis
      by (rule convert_cell_dispatch [OF computes_last [OF alu [of OP_ADD]]])
        (use 5 in \<open>simp_all add: convert_cell_def alu_value_def s bw cmp sig_const_eqI sig_const_boolI n const_add_eq operand_cval\<close>)
  next
    case 6
    show ?thesis
      by (rule convert_cell_dispatch [OF computes_last [OF alu [of OP_SUB]]])
        (use 6 in \<open>simp_all add: convert_cell_def alu_value_def s bw cmp sig_const_eqI sig_const_boolI n const_sub_eq operand_cval\<close>)
  next
    case 7
    show ?thesis
      by (rule convert_cell_dispatch [OF computes_last [OF alu [of OP_MUL]]])
        (use 7 in \<open>simp_all add: convert_cell_def alu_value_def s bw cmp sig_const_eqI sig_const_boolI n const_mul_eq operand_cval\<close>)
  next
    case 8
    show ?thesis
      by (rule convert_cell_dispatch [OF computes_last [OF convert_eq_ok [OF isa c]]])
        (use 8 in \<open>simp_all add: convert_cell_def alu_value_def s bw cmp sig_const_eqI sig_const_boolI n \<close>)
  next
    case 9
    show ?thesis
      by (rule convert_cell_dispatch [OF computes_last [OF convert_ne_ok [OF isa c]]])
        (use 9 in \<open>simp_all add: convert_cell_def alu_value_def s bw cmp sig_const_eqI sig_const_boolI n \<close>)
  next
    case 10
    show ?thesis
      by (rule convert_cell_dispatch [OF computes_last [OF convert_lt_gt_ok [OF isa c]]])
        (use 10 in \<open>simp_all add: convert_cell_def alu_value_def s bw cmp sig_const_eqI sig_const_boolI n \<close>)
  next
    case 11
    show ?thesis
      by (rule convert_cell_dispatch [OF computes_last [OF convert_le_ge_ok [OF isa c]]])
        (use 11 in \<open>simp_all add: convert_cell_def alu_value_def s bw cmp sig_const_eqI sig_const_boolI n \<close>)
  next
    case 12
    show ?thesis
      by (rule convert_cell_dispatch [OF computes_last [OF convert_lt_gt_ok [OF isa c]]])
        (use 12 in \<open>simp_all add: convert_cell_def alu_value_def s bw cmp sig_const_eqI sig_const_boolI n \<close>)
  next
    case 13
    show ?thesis
      by (rule convert_cell_dispatch [OF computes_last [OF convert_le_ge_ok [OF isa c]]])
        (use 13 in \<open>simp_all add: convert_cell_def alu_value_def s bw cmp sig_const_eqI sig_const_boolI n \<close>)
  qed
qed

lemma sig_const_ones: "S1 \<in> set (bits (sig_const I A)) \<longleftrightarrow> sigv I A \<noteq> 0"
  by (auto simp: sig_const_def sigv_def ubl_eq_0_iff st_def image_iff)

lemma sig_const_zeros: "S0 \<in> set (bits (sig_const I A)) \<longleftrightarrow> sigv I A \<noteq> 2 ^ length A - 1"
proof -
  have "ubl (map Not (map (bitv I) A)) = 2 ^ length A - 1 - sigv I A"
    unfolding ubl_map_Not sigv_def by simp
  then have "sigv I A = 2 ^ length A - 1 \<longleftrightarrow> ubl (map Not (map (bitv I) A)) = 0" by linarith
  then show ?thesis
    by (auto simp: sig_const_def ubl_eq_0_iff st_def image_iff)
qed

lemma sig_const_count: "odd (count_list (bits (sig_const I A)) S1) \<longleftrightarrow> parity_of I A"
  "even (count_list (bits (sig_const I A)) S1) \<longleftrightarrow> \<not> parity_of I A"
proof -
  have "count_list (bits (sig_const I A)) S1 = count_list (map (bitv I) A) True"
    by (induction A) (simp_all add: sig_const_def st_def)
  then show "odd (count_list (bits (sig_const I A)) S1) \<longleftrightarrow> parity_of I A"
    "even (count_list (bits (sig_const I A)) S1) \<longleftrightarrow> \<not> parity_of I A"
    by (simp_all add: parity_of_def)
qed

lemma truth_sig [simp]: "truth (bits (sig_const I A)) = st (sigv I A \<noteq> 0)"
  by (simp add: truth_def sig_const_ones st_def)

lemma st_logic: "logic_and (st a) (st b) = st (a \<and> b)" "logic_or (st a) (st b) = st (a \<or> b)"
  by (cases a; cases b; simp add: st_def logic_simps)+

lemma convert_logic_cell_ok:
  assumes isa: "isa_ok sem" and op: "(cell_type cell, op) \<in> set logic_ops" and c: "binary_cell cell sa sb A B Y"
  shows "computes sem md (\<lambda>_. True) (convert_cell cell)
    (\<lambda>_ I. op (sig_const I A) (sig_const I B) sa sb (int (length Y)) = Inr (sig_const I Y))"
proof -
  have n: "Y \<noteq> []" using sig_ok_pos [OF binary_cellD(6) [OF c(1)]] by simp
  from op consider "cell_type cell = ''$logic_and''" "op = const_logic_and" | "cell_type cell = ''$logic_or''" "op = const_logic_or"
    unfolding logic_ops_def by auto
  then show ?thesis
  proof cases
    case 1
    show ?thesis
      by (rule convert_cell_dispatch [OF computes_last [OF convert_logic_ok [OF isa c]]])
        (use 1 in \<open>simp_all add: convert_cell_def const_logic_correct st_logic sig_const_boolI n\<close>)
  next
    case 2
    show ?thesis
      by (rule convert_cell_dispatch [OF computes_last [OF convert_logic_ok [OF isa c]]])
        (use 2 in \<open>simp_all add: convert_cell_def const_logic_correct st_logic sig_const_boolI n\<close>)
  qed
qed

lemma convert_shift_cell_ok:
  assumes isa: "isa_ok sem" and op: "(cell_type cell, op) \<in> set shift_ops" and c: "binary_cell cell sa False A B Y"
  shows "computes sem md (\<lambda>_. True) (convert_cell cell)
    (\<lambda>_ I. op (sig_const I A) (sig_const I B) sa False (int (length Y)) = Inr (sig_const I Y))"
proof -
  note p = binary_cellD [OF c]
  have n: "0 \<le> int (length Y)" by simp
  have a: "bits (sig_const I A) \<noteq> []" for I using sig_ok_pos(2) [OF p(4)] by (simp add: sig_const_def)
  have u: "uval (bits (sig_const I B)) = sigv I B" for I
    using operand_eq(1) [of I B] by (simp add: operand_def cval_def)
  note sh = const_shift_value [OF sig_const_simps(2) a n refl refl, unfolded operand_cval u sig_const_simps(1)]
  have m1: "sigv I Y = (operand I sa A * 2 ^ nat (sigv I B)) mod 2 ^ length Y"
    if "sigv I Y = operand I sa A mod 2 ^ max (length A) (length Y) * 2 ^ nat (sigv I B) mod 2 ^ length Y" for I
  proof -
    have "operand I sa A mod 2 ^ max (length A) (length Y) mod 2 ^ length Y = operand I sa A mod 2 ^ length Y"
      by (rule mod_mod_cancel) (simp add: le_imp_power_dvd)
    then show ?thesis
      unfolding that by (metis mod_mult_left_eq)
  qed
  have r: "shift_result (sig_const I B) (int (length Y)) v = Inr (sig_const I Y)" if "sigv I Y = v mod 2 ^ length Y" for I v
    using sig_const_eqI [OF that] by (simp add: shift_result_def)
  from op consider "cell_type cell = ''$shl''" "op = const_shl" | "cell_type cell = ''$sshl''" "op = const_sshl"
    | "cell_type cell = ''$shr''" "op = const_shr" | "cell_type cell = ''$sshr''" "op = const_sshr"
    unfolding shift_ops_def by auto
  then show ?thesis
  proof cases
    case 1
    show ?thesis
      by (rule convert_cell_dispatch [OF computes_last [OF convert_shift_ok [OF isa c, of OP_SLL]]])
        (use 1 in \<open>simp_all add: convert_cell_def sh u r [OF m1] Let_def\<close>)
  next
    case 2
    show ?thesis
      by (rule convert_cell_dispatch [OF computes_last [OF convert_shift_ok [OF isa c, of OP_SLL]]])
        (use 2 in \<open>simp_all add: convert_cell_def sh u r [OF m1] Let_def\<close>)
  next
    case 3
    show ?thesis
      by (rule convert_cell_dispatch [OF computes_last [OF convert_shift_ok [OF isa c, of OP_SRL]]])
        (use 3 in \<open>simp_all add: convert_cell_def sh u r Let_def max.commute\<close>)
  next
    case 4
    show ?thesis
      by (rule convert_cell_dispatch [OF computes_last [OF convert_sshr_ok [OF isa c]]])
        (use 4 in \<open>simp_all add: convert_cell_def sh u r\<close>)
  qed
qed


definition unary_ops :: "(string \<times> const_op) list" where
  "unary_ops = [(''$not'', const_not), (''$pos'', const_pos), (''$neg'', const_neg), (''$reduce_and'', const_reduce_and),
     (''$reduce_or'', const_reduce_or), (''$reduce_bool'', const_reduce_bool), (''$reduce_xor'', const_reduce_xor),
     (''$reduce_xnor'', const_reduce_xnor), (''$logic_not'', const_logic_not)]"

text \<open>The widths for which the three arithmetic unary cells are translated faithfully: \<open>$not\<close> asserts equal widths,
  \<open>$pos\<close> must not extend, \<open>$neg\<close> may extend a signed operand only.\<close>

definition unary_widths :: "cell_t \<Rightarrow> bool \<Rightarrow> sigbit list \<Rightarrow> sigbit list \<Rightarrow> bool" where
  "unary_widths cell sa A Y \<longleftrightarrow>
     (cell_type cell = ''$not'' \<longrightarrow> length A = length Y) \<and>
     (cell_type cell = ''$pos'' \<longrightarrow> length Y \<le> length A) \<and>
     (cell_type cell = ''$neg'' \<longrightarrow> length A \<le> length Y \<and> (sa \<or> length A = length Y))"

lemma operand_sign_mod:
  "(- operand I True A) mod 2 ^ length A = (- operand I sg A) mod 2 ^ length A"
  by (metis mod_minus_eq operand_mod)

lemma convert_unary_cell_ok:
  assumes isa: "isa_ok sem" and op: "(cell_type cell, op) \<in> set unary_ops"
    and c: "unary_cell cell sa A Y" "unary_widths cell sa A Y"
  shows "computes sem md (\<lambda>_. True) (convert_cell cell)
    (\<lambda>_ I. op (sig_const I A) b sa sb (int (length Y)) = Inr (sig_const I Y))"
proof -
  note p = unary_cellD [OF c(1)]
  have n: "0 \<le> int (length Y)" "Y \<noteq> []" using sig_ok_pos [OF p(4)] by simp_all
  have const_not: "const_not (sig_const I A) b sa sb (int (length Y)) = Inr (sig_const I Y)"
    if "sigv I Y = not (operand I sa A) mod 2 ^ length Y" for I
  proof -
    have "const_not (sig_const I A) (sig_const I A) sa sb (int (length Y)) = Inr (sig_const I Y)"
      using const_bitwise_value [OF sig_const_simps(2) sig_const_simps(2) n(1) refl refl, of I A I A sa sb]
        sig_const_eqI [OF that] by (simp add: operand_cval)
    then show ?thesis by (simp add: const_not_def)
  qed
  have const_pos: "const_pos (sig_const I A) b sa sb (int (length Y)) = Inr (sig_const I Y)"
    if "sigv I Y = operand I sa A mod 2 ^ length Y" for I
  proof -
    have "(sig_const I A)\<lparr>bits := bs\<rparr> = Const_bits bs" for bs by (simp add: sig_const_def Const_bits_def)
    then show ?thesis
      using sig_const_eqI [OF that] by (simp add: const_pos_def extend_u0_eq ext_bits_fully_def operand_cval)
  qed
  have const_neg: "const_neg (sig_const I A) b sa sb (int (length Y)) = Inr (sig_const I Y)"
    if "sigv I Y = (- operand I sa A) mod 2 ^ length Y" for I
    using sig_const_eqI [OF that] by (simp add: const_neg_eq operand_cval)
  have b: "pad_S0 (Const_bit S0) (int (length Y)) = sig_const I Y" if "sigv I Y = 0" for I
    using sig_const_boolI [of I Y False] that n(2) by (simp add: st_def)
  have b1: "pad_S0 (Const_bit S1) (int (length Y)) = sig_const I Y" if "sigv I Y = 1" for I
    using sig_const_boolI [of I Y True] that n(2) by (simp add: st_def)
  note red = const_reduce_correct sig_const_zeros sig_const_count sig_const_boolI n(2)
  from op consider "cell_type cell = ''$not''" "op = const_not" | "cell_type cell = ''$pos''" "op = const_pos"
    | "cell_type cell = ''$neg''" "op = const_neg" | "cell_type cell = ''$reduce_and''" "op = const_reduce_and"
    | "cell_type cell = ''$reduce_or''" "op = const_reduce_or" | "cell_type cell = ''$reduce_bool''" "op = const_reduce_bool"
    | "cell_type cell = ''$reduce_xor''" "op = const_reduce_xor" | "cell_type cell = ''$reduce_xnor''" "op = const_reduce_xnor"
    | "cell_type cell = ''$logic_not''" "op = const_logic_not"
    unfolding unary_ops_def by auto
  then show ?thesis
  proof cases
    case 1
    have l: "length A = length Y" using c(2) 1 by (simp add: unary_widths_def)
    show ?thesis
      by (rule convert_cell_dispatch [OF computes_last [OF convert_not_ok [OF isa c(1) l]]])
        (use 1 in \<open>simp_all add: convert_cell_def const_not\<close>)
  next
    case 2
    have l: "length Y \<le> length A" using c(2) 2 by (simp add: unary_widths_def)
    show ?thesis
      by (rule convert_cell_dispatch [OF computes_last [OF convert_pos_ok [OF isa c(1) l]]])
        (use 2 in \<open>simp_all add: convert_cell_def const_pos\<close>)
  next
    case 3
    have l: "length A \<le> length Y" "sa \<or> length A = length Y" using c(2) 3 by (simp_all add: unary_widths_def)
    have e: "(- operand I True A) mod 2 ^ length Y = (- operand I sa A) mod 2 ^ length Y" for I
      using l(2) operand_sign_mod [of I A sa] by (cases sa) simp_all
    show ?thesis
      by (rule convert_cell_dispatch [OF computes_last [OF convert_neg_ok [OF isa c(1) l(1)]]])
        (use 3 in \<open>simp_all add: convert_cell_def const_neg e\<close>)
  next
    case 4
    show ?thesis
      by (rule convert_cell_dispatch [OF computes_last [OF convert_reduce_and_ok [OF isa c(1)]]])
        (use 4 in \<open>simp_all add: convert_cell_def red b b1\<close>)
  next
    case 5
    show ?thesis
      by (rule convert_cell_dispatch [OF computes_last [OF convert_reduce_or_ok [OF isa c(1)]]])
        (use 5 in \<open>simp_all add: convert_cell_def red\<close>)
  next
    case 6
    show ?thesis
      by (rule convert_cell_dispatch [OF computes_last [OF convert_reduce_or_ok [OF isa c(1)]]])
        (use 6 in \<open>simp_all add: convert_cell_def red\<close>)
  next
    case 7
    show ?thesis
      by (rule convert_cell_dispatch [OF computes_last [OF convert_reduce_xor_ok [OF isa c(1)]]])
        (use 7 in \<open>simp_all add: convert_cell_def red\<close>)
  next
    case 8
    show ?thesis
      by (rule convert_cell_dispatch [OF computes_last [OF convert_reduce_xnor_ok [OF isa c(1)]]])
        (use 8 in \<open>simp_all add: convert_cell_def red\<close>)
  next
    case 9
    show ?thesis
      by (rule convert_cell_dispatch [OF computes_last [OF convert_logic_not_ok [OF isa c(1)]]])
        (use 9 in \<open>simp_all add: convert_cell_def const_logic_correct sig_const_ones b b1\<close>)
  qed
qed

end
