(* ===== verification/WriterModule.thy ===== *)
theory WriterModule
  imports WriterCells
begin

text \<open>
  The pass as a whole, \<open>ManticoreAssemblyWorker::generate\<close>: the meaning of cells and system calls, and the
  equations of the cells, the system calls and the connections in the program of a module.
\<close>

section \<open>The meaning of a cell\<close>

text \<open>What the netlist says of a cell: an equation between the values of its ports by the constant evaluation,
  the choice of a multiplexer, or the step of a register.\<close>

inductive cell_means :: "module_t \<Rightarrow> cell_t \<Rightarrow> (interp \<Rightarrow> bool) \<Rightarrow> bool" for md where
  binary: "(cell_type cell, op) \<in> set binary_ops \<Longrightarrow> binary_cell cell sa sb A B Y \<Longrightarrow> assertEqualSigns cell = Inr () \<Longrightarrow>
    cell_means md cell (\<lambda>I. op (sig_const I A) (sig_const I B) sa sb (int (length Y)) = Inr (sig_const I Y))"
| logic: "(cell_type cell, op) \<in> set logic_ops \<Longrightarrow> binary_cell cell sa sb A B Y \<Longrightarrow>
    cell_means md cell (\<lambda>I. op (sig_const I A) (sig_const I B) sa sb (int (length Y)) = Inr (sig_const I Y))"
| shift: "(cell_type cell, op) \<in> set shift_ops \<Longrightarrow> binary_cell cell sa False A B Y \<Longrightarrow>
    cell_means md cell (\<lambda>I. op (sig_const I A) (sig_const I B) sa False (int (length Y)) = Inr (sig_const I Y))"
| unary: "(cell_type cell, op) \<in> set unary_ops \<Longrightarrow> unary_cell cell sa A Y \<Longrightarrow> unary_widths cell sa A Y \<Longrightarrow>
    cell_means md cell (\<lambda>I. op (sig_const I A) Const_empty sa False (int (length Y)) = Inr (sig_const I Y))"
| mux: "cell_type cell = ''$mux'' \<Longrightarrow> mux_cell cell A B S Y \<Longrightarrow>
    cell_means md cell (\<lambda>I. sigv I Y = sigv I (if bitv I S then B else A))"
| pmux: "cell_type cell = ''$pmux'' \<Longrightarrow> pmux_cell cell A B S Y \<Longrightarrow>
    cell_means md cell (\<lambda>I. pmux_result I A B S (length Y) (sigv I Y))"
| dff: "dff_cell md cell D Q \<Longrightarrow>
    cell_means md cell (\<lambda>I. sigv I Q = reg_cur I (cell_ptr cell) \<and> reg_next I (cell_ptr cell) = sigv I D)"

lemma convert_cell_ok:
  assumes isa: "isa_ok sem" and c: "cell_means md cell M"
  shows "computes sem md (\<lambda>_. True) (convert_cell cell) (\<lambda>_. M)"
  using c
proof cases
  case (binary op sa sb A B Y)
  show ?thesis
    unfolding binary(1) by (rule convert_binary_cell_ok [OF isa binary(2-4)])
next
  case (logic op sa sb A B Y)
  show ?thesis
    unfolding logic(1) by (rule convert_logic_cell_ok [OF isa logic(2,3)])
next
  case (shift op sa A B Y)
  show ?thesis
    unfolding shift(1) by (rule convert_shift_cell_ok [OF isa shift(2,3)])
next
  case (unary op sa A Y)
  show ?thesis
    unfolding unary(1) by (rule convert_unary_cell_ok [OF isa unary(2-4)])
next
  case (mux A B S Y)
  show ?thesis
    unfolding mux(1) by (rule convert_cell_dispatch [OF convert_mux_ok [OF isa mux(3)]]) (simp add: convert_cell_def mux(2))
next
  case (pmux A B S Y)
  show ?thesis
    unfolding pmux(1) by (rule convert_cell_dispatch [OF convert_pmux_ok [OF isa pmux(3)]]) (simp add: convert_cell_def pmux(2))
next
  case (dff D Q)
  have "cell_type cell = ''$dff''" using dff(2) by (simp add: dff_cell_def)
  then show ?thesis
    unfolding dff(1) by (intro convert_cell_dispatch [OF convert_dff_ok [OF isa dff(2)]]) (simp add: convert_cell_def)
qed

lemma convert_connection_ok:
  assumes isa: "isa_ok sem" and c: "sig_ok l" "sig_ok r" "length l = length r"
  shows "computes sem md (\<lambda>_. True) (convert_connection (l, r)) (\<lambda>_ I. sigv I l = sigv I r)"
proof -
  have v: "sigv I l = sigv I r" if "carries l x I" "carries r y I" "sem (wd I) (env I) (MOV x y)" for x y I
    using isa_MOV [OF isa that(3)] that(1,2) c(3) by (simp add: carries_def)
  show ?thesis
    unfolding convert_connection_def fst_conv snd_conv
    by (rule computes_bind [OF computes_emit], rule computes_bind [OF convert_sig_ok [OF isa c(1)]],
        rule computes_bind [OF convert_sig_ok [OF isa c(2)]], rule computes_last [OF computes_emit]) (use v in blast)
qed

lemma foldW_all:
  assumes "\<And>x. x \<in> set xs \<Longrightarrow> computes sem md (\<lambda>_. True) (f x) (\<lambda>_. M x)"
  shows "computes sem md (\<lambda>_. True) (foldW (\<lambda>_. f) () xs) (\<lambda>_ I. \<forall>x\<in>set xs. M x I)"
  using assms
proof (induction xs)
  case Nil
  then show ?case by (auto intro: computes_ret)
next
  case (Cons x xs)
  have 1: "computes sem md (\<lambda>_. True) (f x) (\<lambda>_. M x)" using Cons.prems by simp
  have 2: "computes sem md (\<lambda>_. True) (foldW (\<lambda>_. f) () xs) (\<lambda>_ I. \<forall>x\<in>set xs. M x I)"
    using Cons.IH Cons.prems by simp
  have "computes sem md (\<lambda>I. True \<and> M x I) (foldW (\<lambda>_. f) s xs) (\<lambda>_ I. \<forall>x\<in>set (x # xs). M x I)" for s :: unit
    unfolding unit_eq [of s] by (rule computes_weaken [OF 2]) auto
  then show ?case
    unfolding foldW.simps by (rule computes_bind [OF 1])
qed

section \<open>System calls\<close>

lemma emit_ordered_ok: "computes sem md (\<lambda>_. True) (emit_ordered f) (\<lambda>_ I. \<exists>n. sem (wd I) (env I) (f n))"
proof (rule computesI)
  fix w assume w: "writer_wf sem md w"
  let ?w = "w\<lparr>instrs := instrs w @ [f (interrupt_order w)], interrupt_order := interrupt_order w + 1\<rparr>"
  have e: "extends w ?w" by (auto simp: extends_def emits_def deferred_def)
  have "writer_wf sem md ?w" by (rule wf_step [OF w extends_emits [OF e]]) simp_all
  then show "\<exists>x w'. emit_ordered f w = Inr (x, w') \<and> writer_wf sem md w' \<and> extends w w' \<and>
      (\<forall>I. models sem I w' \<longrightarrow> (\<exists>n. sem (wd I) (env I) (f n)))"
    using e by (auto simp: emit_ordered_def models_def)
qed

text \<open>The arguments of \<open>$display\<close>: consecutive parts of \<open>B\<close>, each put under the enable.\<close>

fun puts :: "isa \<Rightarrow> rname \<Rightarrow> sigbit list \<Rightarrow> nat list \<Rightarrow> interp \<Rightarrow> bool" where
  "puts sem en rest [] I \<longleftrightarrow> True"
| "puts sem en rest (z # zs) I \<longleftrightarrow>
     (\<exists>n r. sem (wd I) (env I) (PUT n r en) \<and> carries (take z rest) r I) \<and> puts sem en (drop z rest) zs I"

lemma sig_ok_take: "list_all bit_ok sig \<Longrightarrow> length sig < 2 ^ 31 \<Longrightarrow> 0 < n \<Longrightarrow> n \<le> length sig \<Longrightarrow> sig_ok (take n sig)"
  by (auto simp: sig_ok_def list_all_iff dest: in_set_takeD)

lemma display_args_ok:
  assumes isa: "isa_ok sem"
    and "list_all2 (\<lambda>s z. stoi s = Inr (int z) \<and> 0 < z) parts szs" "sum_list szs \<le> length rest"
    "list_all bit_ok rest" "length rest < 2 ^ 31"
  shows "computes sem md (\<lambda>_. True) (foldW (display_arg cell en) rest parts) (\<lambda>_. puts sem en rest szs)"
  using assms(2-)
proof (induction parts szs arbitrary: rest rule: list_all2_induct)
  case Nil
  then show ?case by (auto intro: computes_ret)
next
  case (Cons s parts z szs)
  have z: "stoi s = Inr (int z)" "0 < z" "z \<le> length rest" using Cons.hyps Cons.prems(1) by simp_all
  have k: "sig_ok (take z rest)" by (rule sig_ok_take) (use Cons.prems z in simp_all)
  have g: "0 \<le> int z \<and> int z \<le> int (length rest)" using z by simp
  have step: "computes sem md (\<lambda>_. True) (display_arg cell en rest s)
      (\<lambda>r I. \<exists>n q. sem (wd I) (env I) (PUT n q en) \<and> carries (take z rest) q I)"
    unfolding display_arg_def z(1) bindW_lift guardW_simps(2) [OF g] nat_int
    by (rule computes_bind [OF convert_sig_ok [OF isa k]], rule computes_bind [OF computes_emit],
        rule computes_bind [OF emit_ordered_ok], rule computes_ret) blast
  have res: "r = drop z rest" if "display_arg cell en rest s w = Inr (r, w')" for r w w'
    using that unfolding display_arg_def z(1) bindW_lift guardW_simps(2) [OF g] nat_int
    by (auto elim!: bindW_InrE simp: retW_def)
  have "computes sem md (\<lambda>_. True) (foldW (display_arg cell en) (drop z rest) parts) (\<lambda>_. puts sem en (drop z rest) szs)"
    by (rule Cons.IH) (use Cons.prems in \<open>auto simp: list_all_iff dest: in_set_dropD\<close>)
  then have k: "computes sem md (\<lambda>I. \<exists>n q. sem (wd I) (env I) (PUT n q en) \<and> carries (take z rest) q I)
      (foldW (display_arg cell en) r parts) (\<lambda>_. puts sem en rest (z # szs))" if "r = drop z rest" for r
    unfolding that by (rule computes_weaken) auto
  show ?case
    unfolding foldW.simps by (rule computes_seq_pure [OF step res k])
qed

text \<open>What a \<open>$manticore\<close> cell asks of the program: an instruction with a number of its own under the enable of the
  call.\<close>

inductive syscall_means :: "isa \<Rightarrow> cell_t \<Rightarrow> (interp \<Rightarrow> bool) \<Rightarrow> bool" for sem where
  finish: "param_string cell ''TYPE'' = Inr ''$finish'' \<Longrightarrow> getPort cell ''EN'' = Inr [en] \<Longrightarrow> bit_ok en \<Longrightarrow>
    syscall_means sem cell (\<lambda>I. \<exists>n r. sem (wd I) (env I) (FINISH n r) \<and> carries [en] r I)"
| stop: "param_string cell ''TYPE'' = Inr ''$stop'' \<Longrightarrow> getPort cell ''EN'' = Inr [en] \<Longrightarrow> bit_ok en \<Longrightarrow>
    syscall_means sem cell (\<lambda>I. \<exists>n r. sem (wd I) (env I) (STOP n r) \<and> carries [en] r I)"
| assert: "param_string cell ''TYPE'' = Inr ''$assert'' \<Longrightarrow> getPort cell ''EN'' = Inr [en] \<Longrightarrow> bit_ok en \<Longrightarrow>
    getPort cell ''A'' = Inr [a] \<Longrightarrow> bit_ok a \<Longrightarrow>
    syscall_means sem cell (\<lambda>I. \<exists>n r. sem (wd I) (env I) (ASSERT n r) \<and> wd I r = 1 \<and>
      env I r = of_bool (bitv I en \<longrightarrow> bitv I a))"
| display: "param_string cell ''TYPE'' = Inr ''$display'' \<Longrightarrow> param_string cell ''FMT'' = Inr fmt \<Longrightarrow>
    param_string cell ''VAR_ARG_SIZE'' = Inr sizes \<Longrightarrow> getPort cell ''B'' = Inr B \<Longrightarrow> list_all bit_ok B \<Longrightarrow>
    length B < 2 ^ 31 \<Longrightarrow> getPort cell ''EN'' = Inr [en] \<Longrightarrow> bit_ok en \<Longrightarrow>
    list_all2 (\<lambda>s z. stoi s = Inr (int z) \<and> 0 < z) (split sizes CHR '','') szs \<Longrightarrow> sum_list szs \<le> length B \<Longrightarrow>
    convertFmt fmt (split sizes CHR '','') = Inr f \<Longrightarrow>
    syscall_means sem cell (\<lambda>I. \<exists>r. (\<exists>n. sem (wd I) (env I) (FLUSH n f r)) \<and> carries [en] r I \<and> puts sem r B szs I)"

lemma convertSyscall_ok:
  assumes isa: "isa_ok sem" and c: "syscall_means sem cell M"
  shows "computes sem md (\<lambda>_. True) (convertSyscall cell) (\<lambda>_. M)"
  using c
proof cases
  case (finish en)
  have k: "sig_ok [en]" using finish by simp
  show ?thesis
    unfolding convertSyscall_def finish(2) bindW_lift Let_def finish(1)
    by (simp, rule computes_bind [OF computes_emit], rule computes_bind [OF port_name_ok [OF isa finish(3) k]],
        rule computes_bind [OF computes_emit], rule computes_last [OF emit_ordered_ok]) blast
next
  case (stop en)
  have k: "sig_ok [en]" using stop by simp
  show ?thesis
    unfolding convertSyscall_def stop(2) bindW_lift Let_def stop(1)
    by (simp, rule computes_bind [OF computes_emit], rule computes_bind [OF port_name_ok [OF isa stop(3) k]],
        rule computes_bind [OF computes_emit], rule computes_last [OF emit_ordered_ok]) blast
next
  case (assert en a)
  have k: "sig_ok [en]" "sig_ok [a]" using assert by simp_all
  have v: "\<exists>n r. sem (wd I) (env I) (ASSERT n r) \<and> wd I r = 1 \<and> env I r = of_bool (bitv I en \<longrightarrow> bitv I a)"
    if "carries [en] e I" "carries [a] ca I" "wd I d = 1" "env I one = 1 \<and> wd I one = 1"
      "sem (wd I) (env I) (BINOP OP_XOR d e one)" "wd I i = 1" "sem (wd I) (env I) (BINOP OP_OR i d ca)"
      "\<exists>n. sem (wd I) (env I) (ASSERT n i)" for e ca d one i I
  proof -
    have "bool_to d (\<not> bitv I en) I"
      by (rule xor_true [OF isa that(5) _ _ that(4)]) (use that(1) in \<open>simp_all add: carries_def\<close>)
    then have d: "env I d = of_bool (\<not> bitv I en)" using that(3) unfolding bool_to_def by blast
    have "bool_to i (\<not> bitv I en \<or> bitv I a) I"
      by (rule or_bools [OF isa that(7,3) _ d]) (use that(2) in \<open>simp_all add: carries_def\<close>)
    then have "env I i = of_bool (bitv I en \<longrightarrow> bitv I a)"
      using that(6) unfolding bool_to_def imp_conv_disj by blast
    then show ?thesis
      using that(6,8) by blast
  qed
  have e: "convertSyscall cell =
     bindW (emitW (Comment_cell (log_id (cell_name cell)) (log_id (cell_type cell)))) (\<lambda>_.
     bindW (port_name cell ''EN'') (\<lambda>en_name.
     bindW (port_name cell ''A'') (\<lambda>cond_name.
     bindW (temp 1) (\<lambda>dis_name.
     bindW (const_rep S1 1) (\<lambda>one.
     bindW (emitW (BINOP OP_XOR dis_name en_name one)) (\<lambda>_.
     bindW (temp 1) (\<lambda>implication.
     bindW (emitW (BINOP OP_OR implication dis_name cond_name)) (\<lambda>_.
     bindW (emitW (Emit (sourceInfo (cell_attrs cell)))) (\<lambda>_.
     emit_ordered (\<lambda>n. ASSERT n implication))))))))))"
    by (simp add: convertSyscall_def assert(2) Let_def)
  show ?thesis
    unfolding e assert(1)
    by (rule computes_bind [OF computes_emit], rule computes_bind [OF port_name_ok [OF isa assert(3) k(1)]],
        rule computes_bind [OF port_name_ok [OF isa assert(5) k(2)]], rule computes_bind [OF computes_temp],
        rule computes_bind [OF const_true_ok], rule computes_bind [OF computes_emit], rule computes_bind [OF computes_temp],
        rule computes_bind [OF computes_emit], rule computes_bind [OF computes_emit], rule computes_last [OF emit_ordered_ok])
      (blast intro: v)
next
  case (display fmt sizes B en szs f)
  have k: "sig_ok [en]" using display by simp
  show ?thesis
    unfolding convertSyscall_def display(2-4) display(5,8,12) bindW_lift Let_def display(1)
    by (simp, rule computes_bind [OF computes_emit], rule computes_bind [OF convert_sig_ok [OF isa k]],
        rule computes_bind [OF display_args_ok [OF isa display(10,11,6,7)]], rule computes_bind [OF computes_emit],
        rule computes_last [OF emit_ordered_ok]) blast
qed

section \<open>The module\<close>

lemma computes_all:
  assumes "\<exists>M. P M" "\<And>M. P M \<Longrightarrow> computes sem md H m (\<lambda>_. M)"
  shows "computes sem md H m (\<lambda>_ I. \<forall>M. P M \<longrightarrow> M I)"
proof (rule computesI)
  fix w assume w: "writer_wf sem md w" and h: "\<And>I. models sem I w \<Longrightarrow> H I"
  obtain M0 where "P M0" using assms(1) by blast
  from computesE [OF assms(2) [OF this] w h] obtain x w' where
    1: "m w = Inr (x, w')" "writer_wf sem md w'" "extends w w'" by blast
  have "M I" if "P M" "models sem I w'" for M I
  proof -
    from computesE [OF assms(2) [OF that(1)] w h] obtain x2 w2 where
      "m w = Inr (x2, w2)" "\<And>I. models sem I w2 \<Longrightarrow> M I" by blast
    then show ?thesis using 1(1) that(2) by simp
  qed
  then show "\<exists>x w'. m w = Inr (x, w') \<and> writer_wf sem md w' \<and> extends w w' \<and>
      (\<forall>I. models sem I w' \<longrightarrow> (\<forall>M. P M \<longrightarrow> M I))"
    using 1 by (intro exI [of _ x] exI [of _ w'] conjI allI impI)
qed

definition cell_holds :: "module_t \<Rightarrow> cell_t \<Rightarrow> interp \<Rightarrow> bool" where
  "cell_holds md c I \<longleftrightarrow> (\<forall>M. cell_means md c M \<longrightarrow> M I)"

definition syscall_holds :: "isa \<Rightarrow> cell_t \<Rightarrow> interp \<Rightarrow> bool" where
  "syscall_holds sem c I \<longleftrightarrow> (\<forall>M. syscall_means sem c M \<longrightarrow> M I)"

definition cell_known :: "module_t \<Rightarrow> cell_t \<Rightarrow> bool" where
  "cell_known md c \<longleftrightarrow> (\<exists>M. cell_means md c M)"

definition syscall_known :: "isa \<Rightarrow> cell_t \<Rightarrow> bool" where
  "syscall_known sem c \<longleftrightarrow> (\<exists>M. syscall_means sem c M)"

lemma convert_cell_holds:
  assumes isa: "isa_ok sem" and "cell_known md c"
  shows "computes sem md (\<lambda>_. True) (convert_cell c) (\<lambda>_. cell_holds md c)"
  unfolding cell_holds_def by (rule computes_all [OF assms(2) [unfolded cell_known_def]]) (rule convert_cell_ok [OF isa])

lemma convertSyscall_holds:
  assumes isa: "isa_ok sem" and "syscall_known sem c"
  shows "computes sem md (\<lambda>_. True) (convertSyscall c) (\<lambda>_. syscall_holds sem c)"
  unfolding syscall_holds_def by (rule computes_all [OF assms(2) [unfolded syscall_known_def]]) (rule convertSyscall_ok [OF isa])

lemma emits_trans: "emits u v \<Longrightarrow> emits v w \<Longrightarrow> emits u w"
  by (auto simp: emits_def)

lemma convert_syscall_cell:
  assumes "cell_type c = ''$manticore''" "writer_wf sem md w"
  shows "\<exists>w'. convert_cell c w = Inr ((), w') \<and> writer_wf sem md w' \<and> emits w w' \<and>
    deferred w' = (syscalls w @ [c], memory_writes w, memory_reads w)"
proof -
  let ?w = "w\<lparr>instrs := instrs w @ [Comment_cell (log_id (cell_name c)) (log_id ''$manticore'')], syscalls := syscalls w @ [c]\<rparr>"
  have e: "emits w ?w" by (auto simp: emits_def)
  have "writer_wf sem md ?w" by (rule wf_step [OF assms(2) e]) simp_all
  moreover have "convert_cell c w = Inr ((), ?w)"
    using assms(1) by (simp add: convert_cell_def bindW_def emitW_def)
  ultimately show ?thesis
    using e by (auto simp: deferred_def)
qed

lemma convert_cells_ok:
  assumes isa: "isa_ok sem" and "\<And>c. c \<in> set cs \<Longrightarrow> cell_type c \<noteq> ''$manticore'' \<Longrightarrow> cell_known md c"
    and "writer_wf sem md w"
  shows "\<exists>w'. foldW (\<lambda>_. convert_cell) () cs w = Inr ((), w') \<and> writer_wf sem md w' \<and> emits w w' \<and>
    deferred w' = (syscalls w @ filter (\<lambda>c. cell_type c = ''$manticore'') cs, memory_writes w, memory_reads w) \<and>
    (\<forall>I. models sem I w' \<longrightarrow> (\<forall>c\<in>set cs. cell_type c \<noteq> ''$manticore'' \<longrightarrow> cell_holds md c I))"
  using assms(2,3)
proof (induction cs arbitrary: w)
  case Nil
  then show ?case
    by (auto simp: retW_def deferred_def emits_def)
next
  case (Cons c cs)
  have "\<exists>w1. convert_cell c w = Inr ((), w1) \<and> writer_wf sem md w1 \<and> emits w w1 \<and>
      deferred w1 = (syscalls w @ filter (\<lambda>c. cell_type c = ''$manticore'') [c], memory_writes w, memory_reads w) \<and>
      (\<forall>I. models sem I w1 \<longrightarrow> (cell_type c \<noteq> ''$manticore'' \<longrightarrow> cell_holds md c I))"
  proof (cases "cell_type c = ''$manticore''")
    case True
    then show ?thesis
      using convert_syscall_cell [OF True Cons.prems(2)] by simp
  next
    case False
    have "computes sem md (\<lambda>_. True) (convert_cell c) (\<lambda>_. cell_holds md c)"
      by (rule convert_cell_holds [OF isa]) (use False Cons.prems(1) in auto)
    from computesE [OF this Cons.prems(2)] obtain x w1 where
      q: "convert_cell c w = Inr (x, w1)" "writer_wf sem md w1" "extends w w1" "\<And>I. models sem I w1 \<Longrightarrow> cell_holds md c I"
      by blast
    have "\<forall>I. models sem I w1 \<longrightarrow> (cell_type c \<noteq> ''$manticore'' \<longrightarrow> cell_holds md c I)"
      using q(4) by blast
    then show ?thesis
      using False q(1-3) by (intro exI [of _ w1] conjI) (simp_all add: extends_def deferred_def)
  qed
  then obtain w1 where 1: "convert_cell c w = Inr ((), w1)" "writer_wf sem md w1" "emits w w1"
    "deferred w1 = (syscalls w @ filter (\<lambda>c. cell_type c = ''$manticore'') [c], memory_writes w, memory_reads w)"
    "\<And>I. models sem I w1 \<Longrightarrow> cell_type c \<noteq> ''$manticore'' \<Longrightarrow> cell_holds md c I"
    by blast
  obtain w2 where 2: "foldW (\<lambda>_. convert_cell) () cs w1 = Inr ((), w2)" "writer_wf sem md w2" "emits w1 w2"
    "deferred w2 = (syscalls w1 @ filter (\<lambda>c. cell_type c = ''$manticore'') cs, memory_writes w1, memory_reads w1)"
    "\<And>I c. models sem I w2 \<Longrightarrow> c \<in> set cs \<Longrightarrow> cell_type c \<noteq> ''$manticore'' \<Longrightarrow> cell_holds md c I"
  proof -
    have "cell_known md d" if "d \<in> set cs" "cell_type d \<noteq> ''$manticore''" for d
      using Cons.prems(1) that by simp
    from Cons.IH [OF this 1(2)] that show ?thesis by blast
  qed
  have "foldW (\<lambda>_. convert_cell) () (c # cs) w = Inr ((), w2)"
    by (simp add: bindW_def 1(1) 2(1))
  moreover have "deferred w2 = (syscalls w @ filter (\<lambda>c. cell_type c = ''$manticore'') (c # cs), memory_writes w, memory_reads w)"
    using 1(4) 2(4) by (simp add: deferred_def)
  moreover have "cell_holds md d I" if "models sem I w2" "d \<in> set (c # cs)" "cell_type d \<noteq> ''$manticore''" for I d
    using that 1(5) [OF emits_models [OF 2(3) that(1)]] 2(5) [OF that(1)] by auto
  ultimately show ?case
    using 2(2) emits_trans [OF 1(3) 2(3)] by blast
qed

lemma read_keys_ok:
  assumes "\<And>c. c \<in> set cs \<Longrightarrow> \<exists>v. param_int c k = Inr v"
  shows "\<exists>kcs. read_keys k cs = Inr kcs \<and> map snd kcs = cs \<and> (\<forall>(v, c)\<in>set kcs. param_int c k = Inr v)"
  using assms
proof (induction cs)
  case (Cons c cs)
  obtain v where v: "param_int c k = Inr v" using Cons.prems by (metis list.set_intros(1))
  obtain kcs where "read_keys k cs = Inr kcs" "map snd kcs = cs" "\<forall>(v, c)\<in>set kcs. param_int c k = Inr v"
    using Cons.IH Cons.prems by auto
  then show ?case
    using v by (intro exI [of _ "(v, c) # kcs"]) simp
qed simp

lemma sort_cells_ok:
  assumes "length cs > 1 \<Longrightarrow> (\<And>c. c \<in> set cs \<Longrightarrow> \<exists>v. param_int c k = Inr v)"
  shows "\<exists>ds. sort_cells k cs = Inr ds \<and> mset ds = mset cs \<and>
    (\<forall>i j vi vj. i < j \<longrightarrow> j < length ds \<longrightarrow> param_int (ds ! i) k = Inr vi \<longrightarrow> param_int (ds ! j) k = Inr vj \<longrightarrow> vi \<le> vj)"
proof (cases "length cs \<le> 1")
  case True
  then show ?thesis by (simp add: sort_cells_def)
next
  case False
  then obtain kcs where k: "read_keys k cs = Inr kcs" "map snd kcs = cs" "\<forall>(v, c)\<in>set kcs. param_int c k = Inr v"
    using read_keys_ok [of cs k] assms by auto
  let ?s = "sort_key fst kcs"
  have p: "param_int (snd (?s ! i)) k = Inr (fst (?s ! i))" if "i < length ?s" for i
  proof -
    have "?s ! i \<in> set kcs" using nth_mem [OF that] by simp
    then show ?thesis using k(3) by (auto simp: split_beta)
  qed
  have mono: "fst (?s ! i) \<le> fst (?s ! j)" if "i < j" "j < length ?s" for i j
    using sorted_nth_mono [of "map fst ?s" i j] that by simp
  have "vi \<le> vj" if "i < j" "j < length ?s" "param_int (map snd ?s ! i) k = Inr vi" "param_int (map snd ?s ! j) k = Inr vj" for i j vi vj
    using that(1,3,4) p [of i] p [of j] mono [OF that(1,2)] that(2) by simp
  moreover have "mset (map snd ?s) = mset cs"
    using k(2) by (metis mset_map mset_sort)
  ultimately show ?thesis
    using False k(1) by (intro exI [of _ "map snd ?s"]) (auto simp: sort_cells_def)
qed

lemma writer_new_wf: "writer_wf sem m (writer_new m)"
  by (simp add: writer_wf_def writer_new_def)

definition module_ok :: "isa \<Rightarrow> module_t \<Rightarrow> bool" where
  "module_ok sem m \<longleftrightarrow> mod_memories m = [] \<and>
     (\<forall>c\<in>set (mod_cells m). if cell_type c = ''$manticore''
        then syscall_known sem c \<and> (\<exists>v. param_int c ''ORDER'' = Inr v) else cell_known m c) \<and>
     (\<forall>(l, r)\<in>set (mod_connections m). sig_ok l \<and> sig_ok r \<and> length l = length r)"

definition module_means :: "isa \<Rightarrow> module_t \<Rightarrow> interp \<Rightarrow> bool" where
  "module_means sem m I \<longleftrightarrow>
     (\<forall>c\<in>set (mod_cells m). if cell_type c = ''$manticore'' then syscall_holds sem c I else cell_holds m c I) \<and>
     (\<forall>(l, r)\<in>set (mod_connections m). sigv I l = sigv I r)"

lemma generate_ok:
  assumes isa: "isa_ok sem" and m: "module_ok sem m"
  shows "\<exists>w. generate (writer_new m) = Inr ((), w) \<and> (\<forall>I. models sem I w \<longrightarrow> module_means sem m I)"
proof -
  let ?w0 = "writer_new m"
  have w0: "mod_cells (wmod ?w0) = mod_cells m" "syscalls ?w0 = []" "wmod ?w0 = m" by (simp_all add: writer_new_def)
  obtain w1 where 1: "foldW (\<lambda>_. convert_cell) () (mod_cells m) ?w0 = Inr ((), w1)" "writer_wf sem m w1" "emits ?w0 w1"
    "deferred w1 = (syscalls ?w0 @ filter (\<lambda>c. cell_type c = ''$manticore'') (mod_cells m), memory_writes ?w0, memory_reads ?w0)"
    "\<forall>I. models sem I w1 \<longrightarrow> (\<forall>c\<in>set (mod_cells m). cell_type c \<noteq> ''$manticore'' \<longrightarrow> cell_holds m c I)"
  proof -
    have "cell_known m c" if "c \<in> set (mod_cells m)" "cell_type c \<noteq> ''$manticore''" for c
      using m that by (auto simp: module_ok_def)
    from convert_cells_ok [OF isa this writer_new_wf] that show ?thesis by blast
  qed
  have sys: "syscalls w1 = filter (\<lambda>c. cell_type c = ''$manticore'') (mod_cells m)"
    using 1(4) w0 by (simp add: deferred_def)
  obtain ds where ds: "sort_cells ''ORDER'' (syscalls w1) = Inr ds" "mset ds = mset (syscalls w1)"
  proof -
    have "\<exists>v. param_int c ''ORDER'' = Inr v" if "c \<in> set (syscalls w1)" for c
      using m that unfolding module_ok_def sys by auto
    from sort_cells_ok [of "syscalls w1" "''ORDER''", OF this] that show ?thesis by blast
  qed
  have set: "set ds = {c \<in> set (mod_cells m). cell_type c = ''$manticore''}"
    using mset_eq_setD [OF ds(2)] sys by auto
  let ?w1 = "w1\<lparr>syscalls := ds\<rparr>"
  have e1: "emits w1 ?w1" by (simp add: emits_def)
  have wf1: "writer_wf sem m ?w1" by (rule wf_step [OF 1(2) e1]) simp_all
  have calls: "computes sem m (\<lambda>_. True) (foldW (\<lambda>_. convertSyscall) () ds) (\<lambda>_ I. \<forall>c\<in>set ds. syscall_holds sem c I)"
  proof (rule foldW_all)
    fix c assume "c \<in> set ds"
    then have "syscall_known sem c" using m by (auto simp: set module_ok_def)
    then show "computes sem m (\<lambda>_. True) (convertSyscall c) (\<lambda>_. syscall_holds sem c)"
      by (rule convertSyscall_holds [OF isa])
  qed
  from computesE [OF calls wf1] obtain u2 w2 where 2: "foldW (\<lambda>_. convertSyscall) () ds ?w1 = Inr (u2, w2)" "writer_wf sem m w2"
    "extends ?w1 w2" "\<And>I. models sem I w2 \<Longrightarrow> \<forall>c\<in>set ds. syscall_holds sem c I"
    by blast
  have cons: "computes sem m (\<lambda>_. True) (foldW (\<lambda>_. convert_connection) () (mod_connections m))
      (\<lambda>_ I. \<forall>x\<in>set (mod_connections m). sigv I (fst x) = sigv I (snd x))"
  proof (rule foldW_all)
    fix x assume "x \<in> set (mod_connections m)"
    then have "sig_ok (fst x) \<and> sig_ok (snd x) \<and> length (fst x) = length (snd x)"
      using m unfolding module_ok_def by auto
    then show "computes sem m (\<lambda>_. True) (convert_connection x) (\<lambda>_ I. sigv I (fst x) = sigv I (snd x))"
      using convert_connection_ok [OF isa, of "fst x" "snd x"] by simp
  qed
  from computesE [OF cons 2(2)] obtain u3 w3 where 3: "foldW (\<lambda>_. convert_connection) () (mod_connections m) w2 = Inr (u3, w3)"
    "writer_wf sem m w3" "extends w2 w3" "\<And>I. models sem I w3 \<Longrightarrow> \<forall>x\<in>set (mod_connections m). sigv I (fst x) = sigv I (snd x)"
    by blast
  have mods: "wmod w1 = m" "wmod w2 = m"
    using 1(3) 2(3) w0(3) by (simp_all add: emits_def extends_def)
  have "generate ?w0 = Inr ((), w3)"
    using m unfolding generate_def w0(1) module_ok_def
    by (simp add: bindW_def 1(1) ds(1) liftW_def 2(1) mods 3(1) retW_def)
  moreover have "module_means sem m I" if "models sem I w3" for I
  proof -
    have m2: "models sem I w2" by (rule models_mono [OF 3(3) that])
    have m1: "models sem I w1" by (rule emits_models [OF e1 models_mono [OF 2(3) m2]])
    show ?thesis
      using 1(5) m1 2(4) [OF m2] 3(4) [OF that] unfolding module_means_def set by auto
  qed
  ultimately show ?thesis by blast
qed

section \<open>Two unary cells that extend their operand wrongly\<close>

text \<open>The general case of \<open>$pos\<close> with a signed operand that has to be extended: the slice takes bit 0, not the sign.\<close>

lemma pos_extend_value:
  assumes isa: "isa_ok sem" and l: "length A < length Y" "0 < length A"
    and c: "carries A a I" "carries Y y I"
    and i: "wd I s = 1" "sem (wd I) (env I) (SLICE s a 0 1)" "wd I x = int (length Y)" "env I z = 0 \<and> wd I z = int (length Y)"
      "env I k = 2 ^ length A * (2 ^ (length Y - length A) - 1) \<and> wd I k = int (length Y)"
      "sem (wd I) (env I) (MUX x s z k)" "wd I p = int (length Y)" "sem (wd I) (env I) (PADZERO p a (int (length Y)))"
      "sem (wd I) (env I) (BINOP OP_OR y p x)"
  shows "sigv I Y = sigv I A + 2 ^ length A * ubl (replicate (length Y - length A) (bitv I (A ! 0)))"
proof -
  have s: "env I s = of_bool (bitv I (A ! 0))"
    using slice_bit [OF isa _ i(1) c(1) l(2)] i(2) by simp
  have x: "env I x = ubl (replicate (length Y - length A) (bitv I (A ! 0))) * 2 ^ length A"
    using isa_MUX [OF isa i(6)] i(1,3,4,5) s by (auto simp: ubl_replicate_True)
  have p: "env I p = sigv I A"
    using isa_PADZERO [OF isa i(8)] i(7) c(1) l by (simp add: carries_def)
  have "env I y = or (env I p) (env I x)"
    using isa_equal_widths(5) [OF isa _ _ i(9)] i(3,7) c(2) by (simp add: carries_def)
  also have "\<dots> = or (ubl (replicate (length Y - length A) (bitv I (A ! 0))) * 2 ^ length A) (sigv I A)"
    by (simp add: p x or.commute)
  also have "\<dots> = sigv I A + 2 ^ length A * ubl (replicate (length Y - length A) (bitv I (A ! 0)))"
    by (rule or_disjoint [OF sigv_bounds])
  finally show ?thesis using c(2) by (simp add: carries_def)
qed

lemma convert_pos_extend_ok:
  assumes isa: "isa_ok sem" and c: "unary_cell cell True A Y" and l: "length A < length Y"
  shows "computes sem md (\<lambda>_. True) (convert_pos cell)
    (\<lambda>_ I. sigv I Y = sigv I A + 2 ^ length A * ubl (replicate (length Y - length A) (bitv I (A ! 0))))"
proof -
  note p = unary_cellD [OF c]
  have n: "0 < length A" using sig_ok_pos [OF p(3)] by simp
  have t: "True \<and> int (length A) < int (length Y)" using l by simp
  have z: "computes sem md (\<lambda>_. True) (const_rep S0 (int (length Y))) (\<lambda>k I. env I k = 0 \<and> wd I k = int (length Y))"
    by (rule zero_ok) simp
  have k: "computes sem md (\<lambda>_. True) (get_const (Const_bits (replicate (nat (int (length A))) S0 @
        replicate (nat (int (length Y) - int (length A))) S1)))
      (\<lambda>k I. env I k = 2 ^ length A * (2 ^ (length Y - length A) - 1) \<and> wd I k = int (length Y))"
    by (rule computes_last [OF computes_get_const]) (use l in \<open>simp add: neg_mask_value nat_diff_distrib\<close>)
  show ?thesis
    unfolding convert_pos_def
    by (rule unary_header_ok [OF isa c], unfold prod.case p(7) bindW_lift if_P [OF t],
        rule computes_bind [OF computes_temp], rule computes_bind [OF computes_emit], rule computes_bind [OF computes_temp],
        rule computes_bind [OF z], rule computes_bind [OF k], rule computes_bind [OF computes_emit],
        rule computes_bind [OF computes_temp], rule computes_bind [OF computes_emit], rule computes_last [OF computes_emit])
      (blast intro: pos_extend_value [OF isa l n])
qed

lemma ubl_replicate_inj:
  assumes "0 < k"
  shows "ubl (replicate k a) = ubl (replicate k b) \<longleftrightarrow> a = b"
proof -
  have "replicate k a = replicate k b \<longleftrightarrow> a = b" using assms by (cases k) auto
  then show ?thesis using ubl_inj [of "replicate k a" "replicate k b"] by auto
qed

lemma sig_const_inj: "length X = length Y \<Longrightarrow> sig_const I X = sig_const I Y \<longleftrightarrow> sigv I X = sigv I Y"
proof
  assume "sig_const I X = sig_const I Y"
  then have "uval (bits (sig_const I X)) = uval (bits (sig_const I Y))" by simp
  then show "sigv I X = sigv I Y" using operand_eq(1) [of I] by (simp add: operand_def cval_def)
next
  assume l: "length X = length Y" and "sigv I X = sigv I Y"
  then have "map (bitv I) X = map (bitv I) Y" by (intro ubl_inj) (simp_all add: sigv_def)
  then have "map st (map (bitv I) X) = map st (map (bitv I) Y)" by simp
  then show "sig_const I X = sig_const I Y" by (simp add: sig_const_def comp_def)
qed

lemma const_pos_value:
  assumes "A \<noteq> []" "length A \<le> length Y"
  shows "const_pos (sig_const I A) b True s2 (int (length Y)) = Inr (sig_const I Y) \<longleftrightarrow>
    sigv I Y = sigv I A + 2 ^ length A * ubl (replicate (length Y - length A) (bitv I (last A)))"
proof -
  have r: "(sig_const I A)\<lparr>bits := bs\<rparr> = Const_bits bs" for bs by (simp add: sig_const_def Const_bits_def)
  have "const_pos (sig_const I A) b True s2 (int (length Y)) =
      Inr (Const_bits (map st (bl_of_int (length Y) (operand I True A))))"
    by (simp add: const_pos_def extend_u0_eq ext_bits_fully_def operand_cval r)
  moreover have "Const_bits (map st (bl_of_int (length Y) (operand I True A))) = sig_const I Y \<longleftrightarrow>
      sigv I Y = operand I True A mod 2 ^ length Y"
  proof
    assume "Const_bits (map st (bl_of_int (length Y) (operand I True A))) = sig_const I Y"
    then have "uval (map st (bl_of_int (length Y) (operand I True A))) = uval (bits (sig_const I Y))"
      by (metis Const_bits_simps(1))
    then show "sigv I Y = operand I True A mod 2 ^ length Y"
      using operand_eq(1) [of I Y] by (simp add: operand_def cval_def ubl_bl_of_int)
  qed (rule sig_const_eqI)
  moreover have "operand I True A mod 2 ^ length Y =
      sigv I A + 2 ^ length A * ubl (replicate (length Y - length A) (bitv I (last A)))"
    using ubl_sext [of "map (bitv I) A" "length Y - length A"] assms by (simp add: operand_eq sigv_def ubl_append last_map)
  ultimately show ?thesis by simp
qed

text \<open>C6: a signed \<open>$pos\<close> cell whose result is wider than its operand is extended with bit 0 of the operand instead
  of its sign: in every interpretation of the generated code the result agrees with the constant evaluation exactly
  when the two bits agree.\<close>

theorem pos_extension_wrong:
  assumes "isa_ok sem" "writer_wf sem md w" "cell_type cell = ''$pos''" "unary_cell cell True A Y" "length A < length Y"
  shows "\<exists>w'. convert_cell cell w = Inr ((), w') \<and> (\<forall>I. models sem I w' \<longrightarrow>
    (const_pos (sig_const I A) Const_empty True False (int (length Y)) = Inr (sig_const I Y) \<longleftrightarrow>
     bitv I (A ! 0) = bitv I (last A)))"
proof -
  have A: "A \<noteq> []" using sig_ok_pos(2) [OF unary_cellD(3) [OF assms(4)]] .
  have "computes sem md (\<lambda>_. True) (convert_cell cell)
      (\<lambda>_ I. sigv I Y = sigv I A + 2 ^ length A * ubl (replicate (length Y - length A) (bitv I (A ! 0))))"
    by (rule convert_cell_dispatch [OF convert_pos_extend_ok [OF assms(1,4,5)]]) (simp add: convert_cell_def assms(3))
  from computesE [OF this assms(2)] obtain u w' where w': "convert_cell cell w = Inr (u, w')"
    "\<And>I. models sem I w' \<Longrightarrow> sigv I Y = sigv I A + 2 ^ length A * ubl (replicate (length Y - length A) (bitv I (A ! 0)))"
    by blast
  have "const_pos (sig_const I A) Const_empty True False (int (length Y)) = Inr (sig_const I Y) \<longleftrightarrow>
      bitv I (A ! 0) = bitv I (last A)" if "models sem I w'" for I
    using const_pos_value [OF A, of Y I Const_empty False] w'(2) [OF that] assms(5)
      ubl_replicate_inj [of "length Y - length A" "bitv I (A ! 0)" "bitv I (last A)"] by simp
  then show ?thesis
    using w'(1) by auto
qed

lemma const_neg_value:
  "const_neg (sig_const I A) Const_empty False False (int (length Y)) = Inr (sig_const I Y) \<longleftrightarrow>
    sigv I Y = (- sigv I A) mod 2 ^ length Y"
proof -
  have e: "const_neg (sig_const I A) Const_empty False False (int (length Y)) =
      Inr (Const_bits (map st (bl_of_int (length Y) (- sigv I A))))"
    using operand_eq(1) [of I A] by (simp add: const_neg_eq operand_cval)
  have "Const_bits (map st (bl_of_int (length Y) (- sigv I A))) = sig_const I Y \<longleftrightarrow> sigv I Y = (- sigv I A) mod 2 ^ length Y"
  proof
    assume "Const_bits (map st (bl_of_int (length Y) (- sigv I A))) = sig_const I Y"
    then have "uval (map st (bl_of_int (length Y) (- sigv I A))) = uval (bits (sig_const I Y))"
      by (metis Const_bits_simps(1))
    then show "sigv I Y = (- sigv I A) mod 2 ^ length Y"
      using operand_eq(1) [of I Y] by (simp add: operand_def cval_def ubl_bl_of_int)
  qed (rule sig_const_eqI)
  then show ?thesis by (simp add: e)
qed

lemma neg_operand:
  assumes "A \<noteq> []" "length A < k"
  shows "(- operand I True A) mod 2 ^ k = (- sigv I A) mod 2 ^ k \<longleftrightarrow> \<not> bitv I (last A)"
proof (cases "bitv I (last A)")
  case True
  have o: "operand I True A = sigv I A - 2 ^ length A"
    using True assms(1) by (simp add: operand_eq sigv_def sbl_def last_map)
  have "\<not> 2 ^ k dvd (2 ^ length A :: int)"
    using assms(2) by (auto dest!: zdvd_imp_le)
  then have "(- operand I True A) mod 2 ^ k \<noteq> (- sigv I A) mod 2 ^ k"
    unfolding o by (simp add: mod_eq_dvd_iff)
  then show ?thesis using True by simp
next
  case False
  then show ?thesis using assms(1) by (simp add: operand_eq sigv_def sbl_def last_map)
qed

text \<open>C7: an unsigned \<open>$neg\<close> cell whose result is wider than its operand is sign-extended before it is negated: the
  result agrees with the constant evaluation exactly when the highest bit of the operand is zero.\<close>

theorem neg_extension_wrong:
  assumes "isa_ok sem" "writer_wf sem md w" "cell_type cell = ''$neg''" "unary_cell cell False A Y" "length A < length Y"
  shows "\<exists>w'. convert_cell cell w = Inr ((), w') \<and> (\<forall>I. models sem I w' \<longrightarrow>
    (const_neg (sig_const I A) Const_empty False False (int (length Y)) = Inr (sig_const I Y) \<longleftrightarrow> \<not> bitv I (last A)))"
proof -
  have A: "A \<noteq> []" using sig_ok_pos(2) [OF unary_cellD(3) [OF assms(4)]] .
  have le: "length A \<le> length Y" using assms(5) by simp
  have "computes sem md (\<lambda>_. True) (convert_cell cell) (\<lambda>_ I. sigv I Y = (- operand I True A) mod 2 ^ length Y)"
    by (rule convert_cell_dispatch [OF convert_neg_ok [OF assms(1,4) le]]) (simp add: convert_cell_def assms(3))
  from computesE [OF this assms(2)] obtain u w' where w': "convert_cell cell w = Inr (u, w')"
    "\<And>I. models sem I w' \<Longrightarrow> sigv I Y = (- operand I True A) mod 2 ^ length Y" by blast
  have "const_neg (sig_const I A) Const_empty False False (int (length Y)) = Inr (sig_const I Y) \<longleftrightarrow> \<not> bitv I (last A)"
    if "models sem I w'" for I
    unfolding const_neg_value w'(2) [OF that] by (rule neg_operand [OF A assms(5)])
  then show ?thesis
    using w'(1) by auto
qed

section \<open>A reference instance\<close>

text \<open>An instruction set with the assumed laws, and a module with an adder, a register that accumulates its result, a system call, and a connection.\<close>

fun ref_isa :: isa where
  "ref_isa u e (BINOP b rd x y) \<longleftrightarrow> e rd = (case b of
     OP_ADD \<Rightarrow> (e x + e y) mod 2 ^ nat (u rd) | OP_SUB \<Rightarrow> (e x - e y) mod 2 ^ nat (u rd)
   | OP_MUL \<Rightarrow> (e x * e y) mod 2 ^ nat (u rd)
   | OP_AND \<Rightarrow> and (e x) (e y) | OP_OR \<Rightarrow> or (e x) (e y) | OP_XOR \<Rightarrow> xor (e x) (e y)
   | OP_SLL \<Rightarrow> (e x * 2 ^ nat (e y)) mod 2 ^ nat (u rd) | OP_SRL \<Rightarrow> (e x div 2 ^ nat (e y)) mod 2 ^ nat (u rd)
   | OP_SRA \<Rightarrow> (signed_of (u x) (e x) div 2 ^ nat (e y)) mod 2 ^ nat (u rd)
   | OP_SEQ \<Rightarrow> of_bool (e x = e y) | OP_SLT \<Rightarrow> of_bool (e x < e y)
   | OP_SLTS \<Rightarrow> of_bool (signed_of (u x) (e x) < signed_of (u y) (e y)))"
| "ref_isa u e (PADZERO rd rs n) \<longleftrightarrow> e rd = e rs"
| "ref_isa u e (MOV rd rs) \<longleftrightarrow> e rd = e rs"
| "ref_isa u e (SLICE rd rs off n) \<longleftrightarrow> e rd = (e rs div 2 ^ nat off) mod 2 ^ nat n"
| "ref_isa u e (MUX rd sel f t) \<longleftrightarrow> e rd = (if e sel = 1 then e t else e f)"
| "ref_isa u e (PARMUX rd cs d ks) \<longleftrightarrow> e rd = parmux_value e cs d ks"
| "ref_isa u e _ \<longleftrightarrow> True"

lemma ref_isa_ok: "isa_ok ref_isa"
  by (simp add: isa_ok_def alu_ok_def moves_ok_def)

definition ref_wire :: "nat \<Rightarrow> wire_t" where
  "ref_wire n = \<lparr>wire_ptr = n, wire_name = int n, wire_width = 2\<rparr>"

definition ref_add :: cell_t where
  "ref_add = \<lparr>cell_ptr = 0, cell_name = ''$1'', cell_type = ''$add'',
     cell_params = [(''A_WIDTH'', Const_bits [S0, S1]), (''B_WIDTH'', Const_bits [S0, S1]), (''Y_WIDTH'', Const_bits [S0, S1]),
       (''A_SIGNED'', Const_bits [S0]), (''B_SIGNED'', Const_bits [S0])],
     cell_ports = [(''A'', wire_sig (ref_wire 1)), (''B'', [Bit_state S1, Bit_wire (ref_wire 2) 0]), (''Y'', wire_sig (ref_wire 3))],
     cell_attrs = []\<rparr>"

definition ref_dff :: cell_t where
  "ref_dff = \<lparr>cell_ptr = 1, cell_name = ''$2'', cell_type = ''$dff'', cell_params = [(''WIDTH'', Const_bits [S0, S1])],
     cell_ports = [(''D'', wire_sig (ref_wire 3)), (''Q'', wire_sig (ref_wire 1))], cell_attrs = []\<rparr>"

definition ref_call :: cell_t where
  "ref_call = \<lparr>cell_ptr = 2, cell_name = ''$3'', cell_type = ''$manticore'',
     cell_params = [(''TYPE'', Const_string ''$finish''), (''ORDER'', Const_bits [S0])],
     cell_ports = [(''EN'', [Bit_wire (ref_wire 2) 0])], cell_attrs = []\<rparr>"

definition ref_module :: module_t where
  "ref_module = \<lparr>mod_wire_name = (\<lambda>_. ''$w''), mod_wire_attrs = (\<lambda>_. []), mod_cells = [ref_add, ref_dff, ref_call], mod_memories = [],
     mod_connections = [(wire_sig (ref_wire 4), wire_sig (ref_wire 3))], mod_sigmap = (\<lambda>b. b)\<rparr>"

definition ref_final :: writer where
  "ref_final = (case generate (writer_new ref_module) of Inr (_, w) \<Rightarrow> w | Inl _ \<Rightarrow> writer_new ref_module)"

text \<open>Values of a cycle in which the adder computes 3 + 3 in two bits.\<close>

fun ref_env :: "rname \<Rightarrow> int" where
  "ref_env (Rname p n) = (if p = CHR ''c'' then 1 else [3, 1, 1, 1, 1, 2, 3, 2, 0, 3, 2, 2] ! nat n)"

fun ref_wd :: "rname \<Rightarrow> int" where
  "ref_wd (Rname p n) = (if p = CHR ''c'' then if n = 0 then 1 else 32 else if n = 3 then 1 else 2)"

definition ref_interp :: interp where
  "ref_interp = \<lparr>env = ref_env, wd = ref_wd,
     val = (\<lambda>v i. [[], [True, True], [True, False], [False, True], [False, True]] ! wire_ptr v ! i),
     reg_cur = (\<lambda>_. 3), reg_next = (\<lambda>_. 2), mem_reg = (\<lambda>_. Rname CHR ''m'' 0)\<rparr>"

lemma ref_generate: "generate (writer_new ref_module) = Inr ((), ref_final)"
proof -
  have "isl (generate (writer_new ref_module)) = False" by code_simp
  then show ?thesis
    unfolding ref_final_def by (auto split: sum.splits)
qed

lemma ref_models: "models ref_isa ref_interp ref_final"
  by code_simp

lemma ref_sig_ok: "sig_ok (wire_sig (ref_wire n))" "sig_ok [Bit_state S1, Bit_wire (ref_wire 2) 0]"
  "sig_ok (wire_sig (ref_wire n) @ wire_sig (ref_wire k))"
  by (simp_all add: sig_ok_def wire_sig_def ref_wire_def upt_rec)

lemma ref_binary: "binary_cell ref_add False False (wire_sig (ref_wire 1)) [Bit_state S1, Bit_wire (ref_wire 2) 0] (wire_sig (ref_wire 3))"
  unfolding binary_cell_def by (intro conjI ref_sig_ok; code_simp)

lemma ref_means: "cell_means ref_module ref_add (\<lambda>I. const_add (sig_const I (wire_sig (ref_wire 1)))
    (sig_const I [Bit_state S1, Bit_wire (ref_wire 2) 0]) False False (int (length (wire_sig (ref_wire 3)))) =
    Inr (sig_const I (wire_sig (ref_wire 3))))"
proof -
  have "(cell_type ref_add, const_add) \<in> set binary_ops" by (simp add: ref_add_def binary_ops_def)
  moreover have "assertEqualSigns ref_add = Inr ()" by code_simp
  ultimately show ?thesis by (rule cell_means.binary [OF _ ref_binary])
qed

lemma ref_dff_cell: "dff_cell ref_module ref_dff (wire_sig (ref_wire 3)) (wire_sig (ref_wire 1))"
  unfolding dff_cell_def own_cell_def by (intro conjI ref_sig_ok; code_simp)

lemma ref_call_known: "syscall_known ref_isa ref_call"
proof -
  have "param_string ref_call ''TYPE'' = Inr ''$finish''" "getPort ref_call ''EN'' = Inr [Bit_wire (ref_wire 2) 0]"
    "bit_ok (Bit_wire (ref_wire 2) 0)" by code_simp+
  from syscall_means.finish [OF this] show ?thesis unfolding syscall_known_def by blast
qed

lemma ref_module_ok: "module_ok ref_isa ref_module"
proof -
  have "cell_known ref_module ref_add" "cell_known ref_module ref_dff"
    using ref_means cell_means.dff [OF ref_dff_cell] unfolding cell_known_def by blast+
  moreover have "param_int ref_call ''ORDER'' = Inr 0" by code_simp
  moreover have "cell_type ref_add = ''$add''" "cell_type ref_dff = ''$dff''" "cell_type ref_call = ''$manticore''"
    by (simp_all add: ref_add_def ref_dff_def ref_call_def)
  moreover have "length (wire_sig (ref_wire 4)) = length (wire_sig (ref_wire 3))" by code_simp
  ultimately show ?thesis
    using ref_call_known unfolding module_ok_def by (simp add: ref_module_def ref_sig_ok)
qed

section \<open>Properties\<close>

text \<open>C4: the code of a cell of a supported kind gives its outputs the value the constant evaluation of the
  same operator has on its inputs, whatever was generated before.\<close>

theorem convert_cell_correct:
  assumes "isa_ok sem" "writer_wf sem md w" "cell_means md cell M"
  shows "\<exists>w'. convert_cell cell w = Inr ((), w') \<and> writer_wf sem md w' \<and> extends w w' \<and> (\<forall>I. models sem I w' \<longrightarrow> M I)"
  using computesE [OF convert_cell_ok [OF assms(1,3)] assms(2)] by (metis unit.exhaust)

theorem convert_cell_correct_witness:
  "\<exists>w'. convert_cell ref_add (writer_new ref_module) = Inr ((), w') \<and>
     (\<forall>I. models ref_isa I w' \<longrightarrow> const_add (sig_const I (wire_sig (ref_wire 1)))
        (sig_const I [Bit_state S1, Bit_wire (ref_wire 2) 0]) False False 2 = Inr (sig_const I (wire_sig (ref_wire 3))))"
proof -
  have l: "int (length (wire_sig (ref_wire 3))) = 2" by code_simp
  obtain w' where w: "convert_cell ref_add (writer_new ref_module) = Inr ((), w')"
    "\<forall>I. models ref_isa I w' \<longrightarrow> const_add (sig_const I (wire_sig (ref_wire 1)))
      (sig_const I [Bit_state S1, Bit_wire (ref_wire 2) 0]) False False (int (length (wire_sig (ref_wire 3)))) =
      Inr (sig_const I (wire_sig (ref_wire 3)))"
    using convert_cell_correct [OF ref_isa_ok writer_new_wf ref_means] by (elim exE conjE)
  show ?thesis
    by (rule exI [of _ w'], rule conjI [OF w(1) w(2) [unfolded l]])
qed

text \<open>C5: the register that holds a signal: converting a non-empty signal always succeeds, takes back nothing that
  was generated, and in every interpretation of the program the register it returns has the width and the value of the signal,
  whether the signal is a whole wire, a slice, a constant or a concatenation of such parts.\<close>

theorem convert_sig_correct:
  assumes "isa_ok sem" "writer_wf sem md w" "sig_ok sig"
  shows "\<exists>r w'. convert_sig sig w = Inr (r, w') \<and> writer_wf sem md w' \<and> extends w w' \<and>
    (\<forall>I. models sem I w' \<longrightarrow> wd I r = int (length sig) \<and> env I r = sigv I sig)"
  using computesE [OF convert_sig_ok [OF assms(1,3)] assms(2)] unfolding carries_def by metis

theorem convert_sig_correct_witness:
  "\<exists>r w'. convert_sig [Bit_state S1, Bit_wire (ref_wire 2) 0] (writer_new ref_module) = Inr (r, w') \<and>
     (\<forall>I. models ref_isa I w' \<longrightarrow> wd I r = 2 \<and> env I r = 1 + 2 * of_bool (val I (ref_wire 2) 0))"
proof -
  from convert_sig_correct [OF ref_isa_ok writer_new_wf ref_sig_ok(2), of ref_module] obtain r w' where
    w: "convert_sig [Bit_state S1, Bit_wire (ref_wire 2) 0] (writer_new ref_module) = Inr (r, w')"
    "\<forall>I. models ref_isa I w' \<longrightarrow> wd I r = int (length [Bit_state S1, Bit_wire (ref_wire 2) 0]) \<and>
      env I r = sigv I [Bit_state S1, Bit_wire (ref_wire 2) 0]" by blast
  have "sigv I [Bit_state S1, Bit_wire (ref_wire 2) 0] = 1 + 2 * of_bool (val I (ref_wire 2) 0)" for I
    by (simp add: sigv_def)
  moreover have "int (length [Bit_state S1, Bit_wire (ref_wire 2) 0]) = 2" by simp
  ultimately show ?thesis
    using w by (intro exI [of _ r] exI [of _ w'] conjI) (simp_all only:)
qed

definition ref_unary :: "string \<Rightarrow> bool \<Rightarrow> cell_t" where
  "ref_unary ty sg = \<lparr>cell_ptr = 0, cell_name = ''$1'', cell_type = ty,
     cell_params = [(''A_WIDTH'', Const_bits [S0, S1]), (''Y_WIDTH'', Const_bits [S0, S0, S1]), (''A_SIGNED'', Const_bits [st sg])],
     cell_ports = [(''A'', wire_sig (ref_wire 1)), (''Y'', wire_sig (ref_wire 2) @ wire_sig (ref_wire 3))], cell_attrs = []\<rparr>"

lemma ref_unary_cell:
  "unary_cell (ref_unary ty False) False (wire_sig (ref_wire 1)) (wire_sig (ref_wire 2) @ wire_sig (ref_wire 3))"
  "unary_cell (ref_unary ty True) True (wire_sig (ref_wire 1)) (wire_sig (ref_wire 2) @ wire_sig (ref_wire 3))"
  by (unfold unary_cell_def, (intro conjI ref_sig_ok; code_simp)+)

theorem pos_extension_wrong_witness:
  "\<exists>w'. convert_cell (ref_unary ''$pos'' True) (writer_new ref_module) = Inr ((), w') \<and> (\<forall>I. models ref_isa I w' \<longrightarrow>
    (const_pos (sig_const I (wire_sig (ref_wire 1))) Const_empty True False 4 =
       Inr (sig_const I (wire_sig (ref_wire 2) @ wire_sig (ref_wire 3))) \<longleftrightarrow> val I (ref_wire 1) 0 = val I (ref_wire 1) 1))"
proof -
  have "length (wire_sig (ref_wire 1)) < length (wire_sig (ref_wire 2) @ wire_sig (ref_wire 3))" by code_simp
  from pos_extension_wrong [OF ref_isa_ok writer_new_wf _ ref_unary_cell(2) this, of "''$pos''" ref_module]
  show ?thesis by (simp add: ref_unary_def wire_sig_def ref_wire_def numeral_2_eq_2)
qed

theorem neg_extension_wrong_witness:
  "\<exists>w'. convert_cell (ref_unary ''$neg'' False) (writer_new ref_module) = Inr ((), w') \<and> (\<forall>I. models ref_isa I w' \<longrightarrow>
    (const_neg (sig_const I (wire_sig (ref_wire 1))) Const_empty False False 4 =
       Inr (sig_const I (wire_sig (ref_wire 2) @ wire_sig (ref_wire 3))) \<longleftrightarrow> \<not> val I (ref_wire 1) 1))"
proof -
  have "length (wire_sig (ref_wire 1)) < length (wire_sig (ref_wire 2) @ wire_sig (ref_wire 3))" by code_simp
  from neg_extension_wrong [OF ref_isa_ok writer_new_wf _ ref_unary_cell(1) this, of "''$neg''" ref_module]
  show ?thesis by (simp add: ref_unary_def wire_sig_def ref_wire_def numeral_2_eq_2)
qed

end
