(* ===== verification/WriterNames.thy ===== *)
theory WriterNames
  imports Writer "HOL-Library.Multiset"
begin

text \<open>
  The names of the generated program.  Every name is declared once, every instruction refers to declared
  names only, and the instructions that talk to the host are numbered consecutively.  \<open>safe\<close> is the partial-correctness triple of these
  facts, with one rule for each builder; it covers all of \<open>generate\<close>, memories included, for every module.
\<close>

section \<open>Declared and used names\<close>

primrec def_names :: "def_item \<Rightarrow> rname list" where
  "def_names (Def_temp r n) = [r]"
| "def_names (Def_wire r n) = [r]"
| "def_names (Def_line s) = []"

definition reg_names :: "reg_item \<Rightarrow> rname list" where
  "reg_names g = [reg_name g, reg_input g, reg_output g]"

definition decl_names :: "writer \<Rightarrow> rname list" where
  "decl_names w = concat (map def_names (wdefs w)) @ concat (map reg_names (regs w)) @ map memi_name (mems w) @
     map consti_name (cdefs w)"

fun instr_names :: "instr \<Rightarrow> rname list" where
  "instr_names (LOAD rd addr mem order) = [rd, addr, mem]"
| "instr_names (STORE rs addr pred mem order) = [rs, addr, pred, mem]"
| "instr_names (PADZERO rd rs n) = [rd, rs]"
| "instr_names (MOV rd rs) = [rd, rs]"
| "instr_names (SLICE rd rs off n) = [rd, rs]"
| "instr_names (PARMUX rd cs d ks) = rd # d # cs @ ks"
| "instr_names (MUX rd s f t) = [rd, s, f, t]"
| "instr_names (PUT n rs pred) = [rs, pred]"
| "instr_names (FLUSH n fmt pred) = [pred]"
| "instr_names (FINISH n pred) = [pred]"
| "instr_names (ASSERT n pred) = [pred]"
| "instr_names (STOP n pred) = [pred]"
| "instr_names (BINOP b rd x y) = [rd, x, y]"
| "instr_names (Comment_uses r) = [r]"
| "instr_names _ = []"

fun call_number :: "instr \<Rightarrow> int list" where
  "call_number (PUT n rs pred) = [n]"
| "call_number (FLUSH n fmt pred) = [n]"
| "call_number (FINISH n pred) = [n]"
| "call_number (ASSERT n pred) = [n]"
| "call_number (STOP n pred) = [n]"
| "call_number _ = []"

definition program_ok :: "writer \<Rightarrow> bool" where
  "program_ok w \<longleftrightarrow> distinct (map print_name (decl_names w)) \<and>
     (\<forall>i\<in>set (instrs w). set (instr_names i) \<subseteq> set (decl_names w)) \<and>
     concat (map call_number (instrs w)) = [0..interrupt_order w - 1]"

text \<open>The constants are numbered by a counter of their own.\<close>

definition index_ok :: "writer \<Rightarrow> rname \<Rightarrow> bool" where
  "index_ok w r \<longleftrightarrow> 0 \<le> rindex r \<and> rindex r < (if rprefix r = CHR ''c'' then const_index w else wire_index w)"

definition name_key :: "rname \<Rightarrow> bool \<times> int" where
  "name_key r = (rprefix r = CHR ''c'', rindex r)"

definition names_inv :: "writer \<Rightarrow> bool" where
  "names_inv w \<longleftrightarrow>
     distinct (map name_key (decl_names w)) \<and> (\<forall>r\<in>set (decl_names w). index_ok w r) \<and>
     (\<forall>i\<in>set (instrs w). set (instr_names i) \<subseteq> set (decl_names w)) \<and>
     concat (map call_number (instrs w)) = [0..interrupt_order w - 1] \<and>
     0 \<le> interrupt_order w \<and> 0 \<le> wire_index w \<and> 0 \<le> const_index w \<and>
     (\<forall>(v, n)\<in>set (wires w). n \<in> set (decl_names w)) \<and>
     (\<forall>(p, q, d)\<in>set (states w). q \<in> set (decl_names w) \<and> d \<in> set (decl_names w)) \<and>
     (\<forall>(k, n)\<in>set (memories w). n \<in> set (decl_names w)) \<and>
     (\<forall>(bs, n)\<in>set (constants w). n \<in> set (decl_names w)) \<and>
     (\<forall>(sig, n)\<in>set (available_sigs w). n \<in> set (decl_names w))"

lemma print_int_inject:
  assumes e: "print_int v = print_int u"
  shows "v = u"
proof -
  have d: "hd (print_nat n) \<noteq> CHR ''-'' \<and> print_nat n \<noteq> []" for n
    using print_nat_digits [of n] by (cases "print_nat n") (auto simp: is_digit_def)
  have n: "CHR ''-'' # xs \<noteq> print_nat n" for xs n
    using d [of n] by (metis list.sel(1))
  have "(v < 0) = (u < 0)"
    using e n by (auto simp: print_int_def dest: sym split: if_splits)
  then show ?thesis
    using e print_nat_inject [of "nat v" "nat u"] print_nat_inject [of "nat (- v)" "nat (- u)"]
    by (auto simp: print_int_def split: if_splits)
qed

lemma print_name_inj: "inj print_name"
proof (rule injI)
  fix r s assume e: "print_name r = print_name s"
  then have "rprefix r = rprefix s" "print_int (rindex r) = print_int (rindex s)"
    by (simp_all add: print_name_def)
  then show "r = s"
    using print_int_inject by (metis rname.collapse)
qed

lemma names_inv_program: "names_inv w \<Longrightarrow> program_ok w"
proof -
  assume i: "names_inv w"
  then have "distinct (decl_names w)"
    by (simp add: names_inv_def distinct_map)
  then have "distinct (map print_name (decl_names w))"
    using print_name_inj by (simp add: distinct_map inj_on_def inj_def)
  then show ?thesis
    using i by (simp add: program_ok_def names_inv_def)
qed

section \<open>Triples\<close>

definition safe :: "rname set \<Rightarrow> 'a wm \<Rightarrow> ('a \<Rightarrow> rname set) \<Rightarrow> bool" where
  "safe N m R \<longleftrightarrow> (\<forall>w x w'. names_inv w \<longrightarrow> N \<subseteq> set (decl_names w) \<longrightarrow> m w = Inr (x, w') \<longrightarrow>
     names_inv w' \<and> set (decl_names w) \<subseteq> set (decl_names w') \<and> R x \<subseteq> set (decl_names w'))"

named_theorems safe_rules

lemma safeI:
  assumes "\<And>w x w'. names_inv w \<Longrightarrow> N \<subseteq> set (decl_names w) \<Longrightarrow> m w = Inr (x, w') \<Longrightarrow>
    names_inv w' \<and> set (decl_names w) \<subseteq> set (decl_names w') \<and> R x \<subseteq> set (decl_names w')"
  shows "safe N m R"
  using assms by (simp add: safe_def)

lemma safeD:
  assumes "safe N m R" "names_inv w" "N \<subseteq> set (decl_names w)" "m w = Inr (x, w')"
  shows "names_inv w'" "set (decl_names w) \<subseteq> set (decl_names w')" "R x \<subseteq> set (decl_names w')"
  using assms unfolding safe_def by blast+

lemma safe_bind [safe_rules]:
  assumes "safe N m R" "\<And>x. safe (N \<union> R x) (f x) S"
  shows "safe N (bindW m f) S"
proof (rule safeI)
  fix w y w2 assume w: "names_inv w" "N \<subseteq> set (decl_names w)" and r: "bindW m f w = Inr (y, w2)"
  obtain x w1 where m: "m w = Inr (x, w1)" and f: "f x w1 = Inr (y, w2)"
    using r by (auto simp: bindW_def split: sum.splits)
  note 1 = safeD [OF assms(1) w m]
  have "N \<union> R x \<subseteq> set (decl_names w1)" using w(2) 1(2,3) by blast
  note 2 = safeD [OF assms(2) 1(1) this f]
  show "names_inv w2 \<and> set (decl_names w) \<subseteq> set (decl_names w2) \<and> S y \<subseteq> set (decl_names w2)"
    using 1(2) 2 by blast
qed

lemma safe_lift [safe_rules]: "safe N (liftW r) (\<lambda>_. {})"
  by (rule safeI) (auto simp: liftW_def split: sum.splits)

lemma safe_ret [safe_rules]: "R x \<subseteq> N \<Longrightarrow> safe N (retW x) R"
  by (rule safeI) (auto simp: retW_def)

lemma safe_fail [safe_rules]: "safe N (\<lambda>w. Inl e) R"
  by (rule safeI) simp

lemma safe_if [safe_rules]: "(P \<Longrightarrow> safe N a R) \<Longrightarrow> (\<not> P \<Longrightarrow> safe N b R) \<Longrightarrow> safe N (if P then a else b) R"
  by simp

lemma safe_guard [safe_rules]: "safe N m R \<Longrightarrow> safe N (guardW ok e m) R"
  by (simp add: guardW_def safe_fail)

lemma safe_pair [safe_rules]: "(\<And>x y. p = (x, y) \<Longrightarrow> safe N (f x y) R) \<Longrightarrow> safe N (case p of (x, y) \<Rightarrow> f x y) R"
  by (cases p) simp

lemma safe_weaken: "safe N m R \<Longrightarrow> N \<subseteq> N' \<Longrightarrow> (\<And>x. R' x \<subseteq> R x) \<Longrightarrow> safe N' m R'"
  unfolding safe_def by blast

text \<open>A function that reads the object before it acts.\<close>

lemma safe_state:
  assumes "\<And>w. \<exists>m'. m w = m' w \<and> safe N m' R"
  shows "safe N m R"
proof (rule safeI)
  fix w x w' assume w: "names_inv w" "N \<subseteq> set (decl_names w)" "m w = Inr (x, w')"
  obtain m' where "m w = m' w" "safe N m' R" using assms by blast
  then show "names_inv w' \<and> set (decl_names w) \<subseteq> set (decl_names w') \<and> R x \<subseteq> set (decl_names w')"
    using safeD [of N m' R] w by metis
qed

lemma safe_fold:
  assumes "\<And>s x. x \<in> set xs \<Longrightarrow> safe (N \<union> R s) (f s x) R" "R s \<subseteq> N"
  shows "safe N (foldW f s xs) R"
proof -
  have "safe (N \<union> R s) (foldW f s xs) R" using assms(1)
  proof (induction xs arbitrary: s)
    case Nil
    show ?case unfolding foldW.simps by (rule safe_ret) simp
  next
    case (Cons x xs)
    show ?case unfolding foldW.simps
    proof (rule safe_bind)
      show "safe (N \<union> R s) (f s x) R" using Cons.prems by simp
      fix s'
      have "safe (N \<union> R s') (foldW f s' xs) R" using Cons.IH Cons.prems by simp
      then show "safe (N \<union> R s \<union> R s') (foldW f s' xs) R" by (rule safe_weaken) auto
    qed
  qed
  then show ?thesis using assms(2) by (simp add: Un_absorb2)
qed


section \<open>The builders\<close>

lemma inv_declare:
  assumes inv: "names_inv w" and m: "mset (decl_names w') = mset (decl_names w) + mset rs"
    and d: "distinct (map name_key rs)" "\<And>r. r \<in> set rs \<Longrightarrow> index_ok w' r \<and> \<not> index_ok w r"
    and c: "wire_index w \<le> wire_index w'" "const_index w \<le> const_index w'"
    and i: "instrs w' = instrs w" "interrupt_order w' = interrupt_order w"
    and t: "\<And>v n. (v, n) \<in> set (wires w') \<Longrightarrow> (v, n) \<in> set (wires w) \<or> n \<in> set rs"
      "\<And>p q d. (p, q, d) \<in> set (states w') \<Longrightarrow> (p, q, d) \<in> set (states w) \<or> q \<in> set rs \<and> d \<in> set rs"
      "\<And>k n. (k, n) \<in> set (memories w') \<Longrightarrow> (k, n) \<in> set (memories w) \<or> n \<in> set rs"
      "\<And>b n. (b, n) \<in> set (constants w') \<Longrightarrow> (b, n) \<in> set (constants w) \<or> n \<in> set rs"
      "available_sigs w' = available_sigs w"
  shows "names_inv w' \<and> set (decl_names w) \<subseteq> set (decl_names w') \<and> set rs \<subseteq> set (decl_names w')"
proof -
  have s: "set (decl_names w') = set (decl_names w) \<union> set rs"
    using arg_cong [OF m, of set_mset] by simp
  have "mset (map name_key (decl_names w')) = mset (map name_key (decl_names w @ rs))"
    unfolding mset_map m by simp
  then have "distinct (map name_key (decl_names w')) \<longleftrightarrow> distinct (map name_key (decl_names w @ rs))"
    by (rule mset_eq_imp_distinct_iff)
  moreover have "name_key r \<notin> name_key ` set (decl_names w)" if "r \<in> set rs" for r
  proof
    assume "name_key r \<in> name_key ` set (decl_names w)"
    then obtain r' where "r' \<in> set (decl_names w)" "name_key r = name_key r'" by blast
    then have "index_ok w r" using inv by (auto simp: names_inv_def index_ok_def name_key_def split: if_splits)
    then show False using d(2) [OF that] by blast
  qed
  then have "set (map name_key (decl_names w)) \<inter> set (map name_key rs) = {}" by fastforce
  ultimately have dist: "distinct (map name_key (decl_names w'))"
    using inv d(1) unfolding map_append distinct_append names_inv_def by blast
  have old: "index_ok w' r" if "index_ok w r" for r
    using that c by (simp add: index_ok_def split: if_splits)
  have "index_ok w' r" if "r \<in> set (decl_names w')" for r
    using that old d(2) [of r] inv unfolding s names_inv_def by blast
  moreover have "n \<in> set (decl_names w')" if "(v, n) \<in> set (wires w')" for v n
    using t(1) [OF that] inv unfolding s names_inv_def by fast
  moreover have "q \<in> set (decl_names w') \<and> d \<in> set (decl_names w')" if "(p, q, d) \<in> set (states w')" for p q d
    using t(2) [OF that] inv unfolding s names_inv_def by fast
  moreover have "n \<in> set (decl_names w')" if "(k, n) \<in> set (memories w')" for k n
    using t(3) [OF that] inv unfolding s names_inv_def by fast
  moreover have "n \<in> set (decl_names w')" if "(b, n) \<in> set (constants w')" for b n
    using t(4) [OF that] inv unfolding s names_inv_def by fast
  moreover have "n \<in> set (decl_names w')" if "(b, n) \<in> set (available_sigs w')" for b n
    using that t(5) inv unfolding s names_inv_def by fastforce
  moreover have "set (instr_names i) \<subseteq> set (decl_names w')" if "i \<in> set (instrs w')" for i
    using that i(1) inv unfolding s names_inv_def by auto
  moreover have "concat (map call_number (instrs w')) = [0..interrupt_order w' - 1]" "0 \<le> interrupt_order w'"
    "0 \<le> wire_index w'" "0 \<le> const_index w'"
    using i c inv by (simp_all add: names_inv_def)
  ultimately have "names_inv w'"
    using dist unfolding names_inv_def by blast
  then show ?thesis unfolding s by blast
qed

lemma inv_index: "names_inv w \<Longrightarrow> 0 \<le> wire_index w \<and> 0 \<le> const_index w"
  by (simp add: names_inv_def)

lemma safe_temp [safe_rules]: "safe N (temp n) (\<lambda>x. {x})"
proof (rule safeI)
  fix w x w' assume w: "names_inv w" "temp n w = Inr (x, w')"
  let ?r = "Rname CHR ''w'' (wire_index w)"
  have e: "x = ?r" "w' = w\<lparr>wire_index := wire_index w + 1, wdefs := wdefs w @ [Def_temp ?r n]\<rparr>"
    using w(2) by (auto simp: temp_def bindW_def next_name_def add_def_def retW_def)
  have "names_inv w' \<and> set (decl_names w) \<subseteq> set (decl_names w') \<and> set [?r] \<subseteq> set (decl_names w')"
    by (rule inv_declare [OF w(1)]) (use inv_index [OF w(1)] in \<open>auto simp: e decl_names_def index_ok_def\<close>)
  then show "names_inv w' \<and> set (decl_names w) \<subseteq> set (decl_names w') \<and> {x} \<subseteq> set (decl_names w')"
    using e by simp
qed

lemma names_lines [simp]: "concat (map def_names (source_line a)) = []" "concat (map def_names (wire_lines n a)) = []"
  by (simp_all add: source_line_def wire_lines_def Let_def)

lemma safe_get_wire [safe_rules]: "safe N (get_wire v) (\<lambda>x. {x})"
proof (rule safeI)
  fix w x w' assume w: "names_inv w" "get_wire v w = Inr (x, w')"
  show "names_inv w' \<and> set (decl_names w) \<subseteq> set (decl_names w') \<and> {x} \<subseteq> set (decl_names w')"
  proof (cases "map_of (wires w) v")
    case (Some n)
    then have "(v, x) \<in> set (wires w)" "w' = w" using w(2) by (auto simp: get_wire_def dest: map_of_SomeD)
    then show ?thesis using w(1) by (auto simp: names_inv_def)
  next
    case None
    let ?r = "Rname CHR ''w'' (wire_index w)"
    let ?ls = "wire_lines (mod_wire_name (wmod w) v) (mod_wire_attrs (wmod w) v)"
    have e: "x = ?r" "w' = w\<lparr>wire_index := wire_index w + 1, wdefs := wdefs w @ ?ls @ [Def_wire ?r (wire_width v)],
        wires := (v, ?r) # wires w\<rparr>"
      using w(2) None by (auto simp: get_wire_def bindW_def next_name_def)
    have "names_inv w' \<and> set (decl_names w) \<subseteq> set (decl_names w') \<and> set [?r] \<subseteq> set (decl_names w')"
      by (rule inv_declare [OF w(1)]) (use inv_index [OF w(1)] in \<open>auto simp: e decl_names_def index_ok_def\<close>)
    then show ?thesis using e by simp
  qed
qed

lemma safe_getMemory [safe_rules]: "safe N (getMemory m) (\<lambda>x. {x})"
proof (rule safeI)
  fix w x w' assume w: "names_inv w" "getMemory m w = Inr (x, w')"
  show "names_inv w' \<and> set (decl_names w) \<subseteq> set (decl_names w') \<and> {x} \<subseteq> set (decl_names w')"
  proof (cases "map_of (memories w) (mem_name m)")
    case (Some n)
    then have "(mem_name m, x) \<in> set (memories w)" "w' = w" using w(2) by (auto simp: getMemory_def dest: map_of_SomeD)
    then show ?thesis using w(1) by (auto simp: names_inv_def)
  next
    case None
    let ?r = "Rname CHR ''m'' (wire_index w)"
    have e: "x = ?r" "w' = w\<lparr>wire_index := wire_index w + 1, wdefs := wdefs w @ source_line (mem_attrs m),
        mems := mems w @ [\<lparr>memi_name = ?r, memi_memory = m\<rparr>], memories := (mem_name m, ?r) # memories w\<rparr>"
      using w(2) None by (auto simp: getMemory_def bindW_def next_name_def)
    have "names_inv w' \<and> set (decl_names w) \<subseteq> set (decl_names w') \<and> set [?r] \<subseteq> set (decl_names w')"
      by (rule inv_declare [OF w(1)]) (use inv_index [OF w(1)] in \<open>auto simp: e decl_names_def index_ok_def\<close>)
    then show ?thesis using e by simp
  qed
qed

lemma safe_get_const [safe_rules]: "safe N (get_const c) (\<lambda>x. {x})"
proof (rule safeI)
  fix w x w' assume w: "names_inv w" "get_const c w = Inr (x, w')"
  show "names_inv w' \<and> set (decl_names w) \<subseteq> set (decl_names w') \<and> {x} \<subseteq> set (decl_names w')"
  proof (cases "map_of (constants w) (bits c)")
    case (Some n)
    then have "(bits c, x) \<in> set (constants w)" "w' = w" using w(2) by (auto simp: get_const_def dest: map_of_SomeD)
    then show ?thesis using w(1) by (auto simp: names_inv_def)
  next
    case None
    let ?r = "Rname CHR ''c'' (const_index w)"
    obtain v where e: "x = ?r" "w' = w\<lparr>const_index := const_index w + 1,
        cdefs := cdefs w @ [\<lparr>consti_name = ?r, consti_size = int (length (bits c)), consti_value = v\<rparr>],
        constants := (bits c, ?r) # constants w\<rparr>"
      using w(2) None by (auto simp: get_const_def Let_def)
    have "names_inv w' \<and> set (decl_names w) \<subseteq> set (decl_names w') \<and> set [?r] \<subseteq> set (decl_names w')"
      by (rule inv_declare [OF w(1)]) (use inv_index [OF w(1)] in \<open>auto simp: e decl_names_def index_ok_def\<close>)
    then show ?thesis using e by simp
  qed
qed

lemma safe_tryCreateState: "safe N (tryCreateState dff) (\<lambda>_. {})"
proof (rule safeI)
  fix w x w' assume w: "names_inv w" "tryCreateState dff w = Inr (x, w')"
  show "names_inv w' \<and> set (decl_names w) \<subseteq> set (decl_names w') \<and> {} \<subseteq> set (decl_names w')"
  proof (cases "map_of (states w) (cell_ptr dff)")
    case (Some n)
    then have "w' = w" using w(2) by (auto simp: tryCreateState_def guardW_def split: if_splits)
    then show ?thesis using w(1) by simp
  next
    case None
    let ?r = "Rname CHR ''r'' (wire_index w)" and ?q = "Rname CHR ''i'' (wire_index w + 1)"
    let ?d = "Rname CHR ''o'' (2 + wire_index w)"
    obtain n i where e: "w' = w\<lparr>wire_index := 3 + wire_index w, wdefs := wdefs w @ source_line (cell_attrs dff),
        regs := regs w @ [\<lparr>reg_name = ?r, reg_width = n, reg_input = ?q, reg_init = i, reg_output = ?d\<rparr>],
        states := (cell_ptr dff, ?q, ?d) # states w\<rparr>"
      using w(2) None
      by (auto simp: tryCreateState_def guardW_def bindW_def liftW_def next_name_def Let_def split: if_splits sum.splits)
    have "names_inv w' \<and> set (decl_names w) \<subseteq> set (decl_names w') \<and> set [?r, ?q, ?d] \<subseteq> set (decl_names w')"
      by (rule inv_declare [OF w(1)]) (use inv_index [OF w(1)] in \<open>auto simp: e decl_names_def index_ok_def reg_names_def name_key_def\<close>)
    then show ?thesis by simp
  qed
qed

lemma state_declared:
  assumes "names_inv w" "map_of (states w) p = Some (q, d)"
  shows "q \<in> set (decl_names w)" "d \<in> set (decl_names w)"
  using assms(1) map_of_SomeD [OF assms(2)] unfolding names_inv_def by fast+

lemma safe_getCurrent [safe_rules]: "safe N (getCurrent dff) (\<lambda>x. {x})"
  unfolding getCurrent_def
  by (rule safe_bind [OF safe_tryCreateState], rule safeI) (simp split: option.splits prod.splits, use state_declared in blast)

lemma safe_getNext [safe_rules]: "safe N (getNext dff) (\<lambda>x. {x})"
  unfolding getNext_def
  by (rule safe_bind [OF safe_tryCreateState], rule safeI) (simp split: option.splits prod.splits, use state_declared in blast)

lemma safe_emit [safe_rules]:
  assumes "set (instr_names i) \<subseteq> N" "call_number i = []"
  shows "safe N (emitW i) (\<lambda>_. {})"
proof (rule safeI)
  fix w x w' assume w: "names_inv w" "N \<subseteq> set (decl_names w)" "emitW i w = Inr (x, w')"
  then have e: "w' = w\<lparr>instrs := instrs w @ [i]\<rparr>" by (simp add: emitW_def)
  have d: "decl_names w' = decl_names w" by (simp add: e decl_names_def)
  have "names_inv w'"
    using w(1,2) assms unfolding names_inv_def d by (auto simp: e index_ok_def)
  then show "names_inv w' \<and> set (decl_names w) \<subseteq> set (decl_names w') \<and> {} \<subseteq> set (decl_names w')"
    by (simp add: d)
qed

lemma safe_emit_ordered [safe_rules]:
  assumes "\<And>n. set (instr_names (f n)) \<subseteq> N" "\<And>n. call_number (f n) = [n]"
  shows "safe N (emit_ordered f) (\<lambda>_. {})"
proof (rule safeI)
  fix w x w' assume w: "names_inv w" "N \<subseteq> set (decl_names w)" "emit_ordered f w = Inr (x, w')"
  then have e: "w' = w\<lparr>instrs := instrs w @ [f (interrupt_order w)], interrupt_order := interrupt_order w + 1\<rparr>"
    by (simp add: emit_ordered_def)
  have d: "decl_names w' = decl_names w" by (simp add: e decl_names_def)
  have "[0..interrupt_order w] = [0..interrupt_order w - 1] @ [interrupt_order w]"
    by (rule upto_rec2) (use w(1) in \<open>simp add: names_inv_def\<close>)
  moreover have "set (instr_names (f n)) \<subseteq> set (decl_names w)" for n using assms(1) w(2) by blast
  ultimately have "names_inv w'"
    using w(1) assms(2) unfolding names_inv_def d by (auto simp: e index_ok_def)
  then show "names_inv w' \<and> set (decl_names w) \<subseteq> set (decl_names w') \<and> {} \<subseteq> set (decl_names w')"
    by (simp add: d)
qed

lemma safe_emplace [safe_rules]:
  assumes "n \<in> N"
  shows "safe N (emplace_sig sig n) (\<lambda>_. {})"
proof (rule safeI)
  fix w x w' assume w: "names_inv w" "N \<subseteq> set (decl_names w)" "emplace_sig sig n w = Inr (x, w')"
  have d: "decl_names w' = decl_names w" using w(3) by (auto simp: emplace_sig_def decl_names_def split: if_splits)
  have "names_inv w'"
    using w assms unfolding names_inv_def d by (auto simp: emplace_sig_def index_ok_def split: if_splits)
  then show "names_inv w' \<and> set (decl_names w) \<subseteq> set (decl_names w') \<and> {} \<subseteq> set (decl_names w')"
    by (simp add: d)
qed

section \<open>Signals and operands\<close>

lemma safe_option: "(\<And>y. p = Some y \<Longrightarrow> safe N (f y) R) \<Longrightarrow> safe N g R \<Longrightarrow> safe N (case p of Some y \<Rightarrow> f y | None \<Rightarrow> g) R"
  by (cases p) simp_all

text \<open>A signal that was converted before has a declared name.\<close>

lemma safe_available:
  assumes "safe N g (\<lambda>x. {x})"
  shows "safe N (\<lambda>w. case map_of (available_sigs w) sig of Some name \<Rightarrow> Inr (name, w) | None \<Rightarrow> g w) (\<lambda>x. {x})"
proof (rule safeI)
  fix w x w' assume w: "names_inv w" "N \<subseteq> set (decl_names w)"
    and r: "(case map_of (available_sigs w) sig of Some name \<Rightarrow> Inr (name, w) | None \<Rightarrow> g w) = Inr (x, w')"
  show "names_inv w' \<and> set (decl_names w) \<subseteq> set (decl_names w') \<and> {x} \<subseteq> set (decl_names w')"
  proof (cases "map_of (available_sigs w) sig")
    case None
    then show ?thesis using r safeD [OF assms w] by simp
  next
    case (Some n)
    then have "(sig, x) \<in> set (available_sigs w)" "w' = w" using r by (auto dest: map_of_SomeD)
    then show ?thesis using w(1) unfolding names_inv_def by fast
  qed
qed

lemma safe_convert_chunk [safe_rules]: "safe N (convert_chunk c) (\<lambda>x. {x})"
  unfolding convert_chunk_def by (rule safe_available, (rule safe_option safe_rules | simp; fail)+)

lemma safe_concat_step: "acc = (s, r, p) \<Longrightarrow> r \<in> N \<Longrightarrow> safe N (concat_step acc c) (\<lambda>(_, x, _). {x})"
  unfolding concat_step_def Let_def by (rule safe_rules | simp; fail)+

lemma safe_convert_sig [safe_rules]: "safe N (convert_sig sig) (\<lambda>x. {x})"
proof -
  have f: "safe (N \<union> {r}) (foldW concat_step (s, r, p) cs) (\<lambda>(_, x, _). {x})" for r s p cs
    by (rule safe_fold) (auto intro: safe_concat_step)
  show ?thesis
    unfolding convert_sig_def
  proof (rule safe_available, rule safe_option, rule safe_get_wire)
    show "safe N (case canon sig of [] \<Rightarrow> \<lambda>w. Inl Assert_failed
       | c # cs \<Rightarrow> bindW (convert_chunk c) (\<lambda>prev_res. if cs = [] then retW prev_res
           else bindW (emitW (Comment_sig sig)) (\<lambda>_. bindW (foldW concat_step (chunk_bits c, prev_res, cwidth c) cs)
                  (\<lambda>(_, res, _). retW res)))) (\<lambda>x. {x})"
    proof (cases "canon sig")
      case Nil
      then show ?thesis by (simp add: safe_fail)
    next
      case (Cons c cs)
      have g: "safe (N \<union> {r} \<union> {}) (foldW concat_step (chunk_bits c, r, cwidth c) cs) (\<lambda>(_, x, _). {x})" for r
        using f [of r] by simp
      show ?thesis
        unfolding Cons list.case by (intro safe_bind [OF safe_convert_chunk] safe_if safe_bind [OF safe_emit] safe_bind [OF g] safe_pair safe_ret; simp)
    qed
  qed
qed

lemma safe_names [safe_rules]:
  "safe N (port_name cell p) (\<lambda>x. {x})" "safe N (const_rep s n) (\<lambda>x. {x})" "safe N (const_num v n) (\<lambda>x. {x})"
  unfolding port_name_def const_rep_def const_num_def by (rule safe_rules)+

lemma safe_extensions [safe_rules]:
  "safe N (padConvert sig n) (\<lambda>x. {x})" "safe N (sextConvert sig n) (\<lambda>x. {x})"
  unfolding padConvert_def sextConvert_def by (rule safe_rules | simp; fail)+

lemma safe_extend_ports [safe_rules]:
  "safe N (extendOrSlice sig n sg) (\<lambda>x. {x})" "safe N (extend_port cell p n sg) (\<lambda>x. {x})"
  unfolding extendOrSlice_def extend_port_def by (rule safe_rules | simp; fail)+

section \<open>Cells\<close>

lemma safe_compare [safe_rules]:
  "r \<in> N \<Longrightarrow> safe N (mkSeq cell r) (\<lambda>_. {})" "r \<in> N \<Longrightarrow> safe N (mkCompare cell r b) (\<lambda>_. {})"
  unfolding mkSeq_def mkCompare_def by (rule safe_rules | simp; fail)+

lemma safe_headers [safe_rules]:
  "safe N (convertBinaryOperands cell) (\<lambda>(x, y). {x, y})" "safe N (unary_header cell) (\<lambda>(_, _, x, y). {x, y})"
  "safe N (shift_header cell) (\<lambda>_. {})"
  unfolding convertBinaryOperands_def unary_header_def shift_header_def by (rule safe_rules | simp; fail)+

lemma safe_to_bool_port [safe_rules]:
  assumes "\<And>N' r. r \<in> N' \<Longrightarrow> N \<subseteq> N' \<Longrightarrow> safe N' (f r) (\<lambda>_. {})" "y \<in> N"
  shows "safe N (to_bool_port n y f) (\<lambda>_. {})"
  unfolding to_bool_port_def by (rule safe_rules assms(1) | use assms(2) in \<open>auto; fail\<close>)+

lemma safe_move_bool [safe_rules]: "y \<in> N \<Longrightarrow> r \<in> N \<Longrightarrow> safe N (move_bool n y r) (\<lambda>_. {})"
  unfolding move_bool_def by (rule safe_rules | simp; fail)+

lemma safe_unary [safe_rules]:
  "safe N (convert_not cell) (\<lambda>_. {})" "safe N (convert_neg cell) (\<lambda>_. {})"
  unfolding convert_not_def convert_neg_def by (rule safe_rules | simp; fail)+

lemma safe_pos [safe_rules]: "safe N (convert_pos cell) (\<lambda>_. {})"
  unfolding convert_pos_def by (rule safe_rules | simp; fail)+

lemma safe_reduce [safe_rules]:
  "safe N (convert_reduce_and cell) (\<lambda>_. {})" "safe N (convert_reduce_or cell) (\<lambda>_. {})" "safe N (convert_logic_not cell) (\<lambda>_. {})"
  unfolding convert_reduce_and_def convert_reduce_or_def convert_logic_not_def by (rule safe_rules | auto; fail)+

lemma safe_xor_steps:
  "a \<in> N \<Longrightarrow> p \<in> N \<Longrightarrow> safe N (xor_step a p i) (\<lambda>x. {x})"
  "a \<in> N \<Longrightarrow> p \<in> N \<Longrightarrow> t \<in> N \<Longrightarrow> safe N (xnor_step a t p i) (\<lambda>x. {x})"
  unfolding xor_step_def xnor_step_def by (rule safe_rules | simp; fail)+

lemma safe_xor_folds [safe_rules]:
  "a \<in> N \<Longrightarrow> p \<in> N \<Longrightarrow> safe N (foldW (xor_step a) p is) (\<lambda>x. {x})"
  "a \<in> N \<Longrightarrow> p \<in> N \<Longrightarrow> t \<in> N \<Longrightarrow> safe N (foldW (xnor_step a t) p is) (\<lambda>x. {x})"
  by (rule safe_fold; simp add: safe_xor_steps)+

lemma safe_reduce_xor [safe_rules]: "safe N (convert_reduce_xor cell) (\<lambda>_. {})" "safe N (convert_reduce_xnor cell) (\<lambda>_. {})"
  unfolding convert_reduce_xor_def convert_reduce_xnor_def by (rule safe_rules | simp; fail)+

lemma safe_binary [safe_rules]:
  "safe N (convert_binary b cell) (\<lambda>_. {})" "safe N (convert_xnor cell) (\<lambda>_. {})" "safe N (convert_eq cell) (\<lambda>_. {})"
  "safe N (convert_ne cell) (\<lambda>_. {})" "safe N (convert_lt_gt cell) (\<lambda>_. {})" "safe N (convert_le_ge cell) (\<lambda>_. {})"
  unfolding convert_binary_def convert_xnor_def convert_eq_def convert_ne_def convert_lt_gt_def convert_le_ge_def
  by (rule safe_rules | auto; fail)+

lemma safe_logic [safe_rules]: "safe N (convert_logic cell) (\<lambda>_. {})"
  unfolding convert_logic_def by (rule safe_rules | auto; fail)+

lemma safe_pmux_step:
  "set (fst acc) \<union> set (snd acc) \<subseteq> N \<Longrightarrow> safe N (pmux_step n B S acc i) (\<lambda>(cs, ks). set cs \<union> set ks)"
  unfolding pmux_step_def by (rule safe_rules | auto; fail)+

lemma safe_pmux_fold [safe_rules]: "safe N (foldW (pmux_step n B S) ([], []) is) (\<lambda>(cs, ks). set cs \<union> set ks)"
  by (rule safe_fold; auto intro!: safe_pmux_step)

lemma safe_muxes [safe_rules]: "safe N (convert_mux cell) (\<lambda>_. {})" "safe N (convert_pmux cell) (\<lambda>_. {})"
  unfolding convert_mux_def convert_pmux_def by (rule safe_rules | auto; fail)+

lemma safe_shifts [safe_rules]: "safe N (convert_shift b cell) (\<lambda>_. {})" "safe N (convert_sshr cell) (\<lambda>_. {})"
  unfolding convert_shift_def convert_sshr_def by (rule safe_rules | simp; fail)+

lemma safe_dff [safe_rules]: "safe N (convert_dff cell) (\<lambda>_. {})"
  unfolding convert_dff_def by (rule safe_rules | simp; fail)+


text \<open>Postponing a cell changes no name.\<close>

lemma names_inv_update [simp]:
  "names_inv (w\<lparr>syscalls := s\<rparr>) = names_inv w" "names_inv (w\<lparr>memory_writes := ws\<rparr>) = names_inv w"
  "names_inv (w\<lparr>memory_reads := rs\<rparr>) = names_inv w"
  "decl_names (w\<lparr>syscalls := s\<rparr>) = decl_names w" "decl_names (w\<lparr>memory_writes := ws\<rparr>) = decl_names w"
  "decl_names (w\<lparr>memory_reads := rs\<rparr>) = decl_names w"
  by (simp_all add: names_inv_def decl_names_def index_ok_def)

lemma safe_postpone:
  "safe N (\<lambda>w. Inr ((), w\<lparr>syscalls := f w\<rparr>)) (\<lambda>_. {})" "safe N (\<lambda>w. Inr ((), w\<lparr>memory_writes := g w\<rparr>)) (\<lambda>_. {})"
  "safe N (\<lambda>w. Inr ((), w\<lparr>memory_reads := g w\<rparr>)) (\<lambda>_. {})"
  by (rule safeI; auto)+

lemma safe_memid [safe_rules]: "safe N (memid cell) (\<lambda>_. {})"
  unfolding memid_def
  by (rule safe_bind [OF safe_lift], rule safeI) (auto simp: guardE_def split: if_splits)

lemma safe_convert_cell: "safe N (convert_cell cell) (\<lambda>_. {})"
  unfolding convert_cell_def Let_def by (rule safe_rules safe_postpone | simp; fail)+

section \<open>System calls\<close>

lemma safe_display_arg: "en \<in> N \<Longrightarrow> safe N (display_arg cell en rest s) (\<lambda>_. {})"
  unfolding display_arg_def by (rule safe_rules | simp; fail)+

lemma safe_display_args [safe_rules]: "en \<in> N \<Longrightarrow> safe N (foldW (display_arg cell en) rest ss) (\<lambda>_. {})"
  by (rule safe_fold; simp add: safe_display_arg)

lemma safe_convertSyscall: "safe N (convertSyscall cell) (\<lambda>_. {})"
  unfolding convertSyscall_def Let_def by (rule safe_rules | simp; fail)+

section \<open>Memories\<close>

lemma safe_addrFromLowerBound [safe_rules]: "safe N (addrFromLowerBound m cell) (\<lambda>x. {x})"
  unfolding addrFromLowerBound_def by (rule safe_rules | simp; fail)+

lemma safe_createBoundOk [safe_rules]: "a \<in> N \<Longrightarrow> safe N (createBoundOk m a n) (\<lambda>x. {x})"
  unfolding createBoundOk_def Let_def by (rule safe_rules | simp; fail)+

lemma safe_checked_predicate [safe_rules]: "a \<in> N \<Longrightarrow> p \<in> N \<Longrightarrow> safe N (checked_predicate m cell a n p) (\<lambda>x. {x})"
  unfolding checked_predicate_def by (rule safe_rules | simp; fail)+

lemma safe_read_registers [safe_rules]:
  "d \<in> N \<Longrightarrow> c \<in> N \<Longrightarrow> q \<in> N \<Longrightarrow> safe N (read_arst cell n e d c q) (\<lambda>x. {x})"
  "d \<in> N \<Longrightarrow> c \<in> N \<Longrightarrow> q \<in> N \<Longrightarrow> safe N (read_srst cell n e d c q) (\<lambda>x. {x})"
  unfolding read_arst_def read_srst_def by (rule safe_rules | simp; fail)+

lemma safe_read_plain [safe_rules]:
  "d \<in> N \<Longrightarrow> c \<in> N \<Longrightarrow> q \<in> N \<Longrightarrow> safe N (read_plain cell n e d c q) (\<lambda>x. {x})"
  unfolding read_plain_def by (rule safe_bind [where R = "\<lambda>x. {x}"], (rule safe_rules | simp; fail)+)

lemma safe_convertReadData [safe_rules]: "safe N (convertReadData cell) (\<lambda>x. {x})"
  unfolding convertReadData_def Let_def by (rule safe_rules | simp; fail)+

lemma safe_store_part: "mem \<in> N \<Longrightarrow> a \<in> N \<Longrightarrow> v \<in> N \<Longrightarrow> d \<in> N \<Longrightarrow> safe N (store_part m cell mem a n v d k p) (\<lambda>_. {})"
  unfolding store_part_def by (rule safe_rules | simp; fail)+

lemma safe_store_parts [safe_rules]:
  "mem \<in> N \<Longrightarrow> a \<in> N \<Longrightarrow> v \<in> N \<Longrightarrow> d \<in> N \<Longrightarrow> safe N (foldW (store_part m cell mem a n v d) k ps) (\<lambda>_. {})"
  by (rule safe_fold; simp add: safe_store_part)

lemma safe_convert_read: "mem \<in> N \<Longrightarrow> safe N (convert_read m mem ws cell) (\<lambda>_. {})"
proof -
  assume a: "mem \<in> N"
  have e: "safe N (if 0 < order then guardW (\<not> is_fully_zero mask) Assert_failed
       (bindW (liftW (getParam cell ''COLLISION_X_MASK'')) (\<lambda>cx. guardW (is_fully_zero cx) Assert_failed (retW ())))
       else retW ()) (\<lambda>_. {})" for N order mask
    by (rule safe_rules | simp; fail)+
  show ?thesis
    unfolding convert_read_def by (rule e safe_rules | use a in \<open>simp; fail\<close>)+
qed

lemma safe_convert_write:
  assumes "mem \<in> N"
  shows "safe N (convert_write m mem acc cell) (\<lambda>_. {})"
proof -
  obtain order ws where acc: "acc = (order, ws)" by (cases acc)
  have k: "safe N (bindW (addrFromLowerBound m cell) (\<lambda>addr_name.
      bindW (
        if length pattern = 1 then
          bindW (emitW (Emit (sourceInfo (cell_attrs cell)))) (\<lambda>_.
          bindW (convert_sig [pat_bit (hd pattern)]) (\<lambda>predicate.
          bindW (port_name cell ''DATA'') (\<lambda>wdata_name.
          bindW (checked_predicate m cell addr_name sig_addr_bits predicate) (\<lambda>checked_pred.
          bindW (emitW (STORE wdata_name addr_name checked_pred mem order)) (\<lambda>_.
          retW (order + 1))))))
        else if \<not> all_state S1 en_sig then
          bindW (temp (mem_width m)) (\<lambda>original_value.
          bindW (emitW (LOAD original_value addr_name mem order)) (\<lambda>_.
          bindW (port_name cell ''DATA'') (\<lambda>write_word.
          foldW (store_part m cell mem addr_name sig_addr_bits original_value write_word) (order + 1) pattern)))
        else (\<lambda>w. Inl Log_error)) (\<lambda>order.
      bindW (liftW (param_int cell ''PORTID'')) (\<lambda>portid.
      guardW (int (length ws) = portid) Assert_failed (
      retW (order, ws @ [order])))))) (\<lambda>_. {})" if "mem \<in> N" for N pattern sig_addr_bits en_sig
    by (rule safe_bind [OF safe_addrFromLowerBound], rule safe_bind [where R = "\<lambda>_. {}"],
        (rule safe_rules | use that in \<open>simp; fail\<close>)+)
  show ?thesis
    unfolding convert_write_def acc Let_def prod.case
    by (rule safe_bind [OF safe_lift], rule safe_bind [OF safe_lift], rule safe_guard, rule safe_bind [OF safe_lift], rule safe_guard,
        rule safe_bind [OF safe_lift], rule safe_bind [OF safe_lift], rule safe_guard, rule safe_state, intro exI conjI, rule refl, rule k)
      (use assms in simp)
qed

lemma safe_convertMemoryCell: "safe N (convertMemoryCell e) (\<lambda>_. {})"
proof -
  have r: "safe N (foldW (\<lambda>_. convert_read m mem ws) () cs) (\<lambda>_. {})" if "mem \<in> N" for N m mem ws cs
    by (rule safe_fold) (use that in \<open>simp_all add: safe_convert_read\<close>)
  have w: "safe N (foldW (convert_write m mem) acc cs) (\<lambda>_. {})" if "mem \<in> N" for N m mem acc cs
    by (rule safe_fold) (use that in \<open>simp_all add: safe_convert_write\<close>)
  show ?thesis
    unfolding convertMemoryCell_def Let_def
    by (rule safe_pair, rule safe_bind [OF safe_getMemory], rule safe_state, intro exI conjI, rule refl,
        rule safe_bind [OF safe_lift], rule safe_bind [OF w], simp, rule safe_pair, rule safe_state, intro exI conjI, rule refl, rule r)
      simp
qed

section \<open>The module\<close>

lemma safe_fold_unit: "(\<And>x N. safe N (f x) (\<lambda>_. {})) \<Longrightarrow> safe N (foldW (\<lambda>_. f) () xs) (\<lambda>_. {})"
  by (rule safe_fold) simp_all

lemma safe_connection: "safe N (convert_connection c) (\<lambda>_. {})"
  unfolding convert_connection_def by (rule safe_rules | simp; fail)+

lemma safe_syscalls: "safe N (\<lambda>w. foldW (\<lambda>_. convertSyscall) () cs (w\<lparr>syscalls := cs\<rparr>)) (\<lambda>_. {})"
proof (rule safeI)
  fix w x w' assume w: "names_inv w" "foldW (\<lambda>_. convertSyscall) () cs (w\<lparr>syscalls := cs\<rparr>) = Inr (x, w')"
  have s: "safe {} (foldW (\<lambda>_. convertSyscall) () cs) (\<lambda>_. {})" by (rule safe_fold_unit) (rule safe_convertSyscall)
  show "names_inv w' \<and> set (decl_names w) \<subseteq> set (decl_names w') \<and> {} \<subseteq> set (decl_names w')"
    using safeD [OF s _ _ w(2)] w(1) by simp
qed

lemma safe_generate: "safe N generate (\<lambda>_. {})"
  unfolding generate_def
  by (rule safe_state, intro exI conjI, rule refl, rule safe_bind [OF safe_fold_unit [OF safe_convert_cell]],
      rule safe_state, intro exI conjI, rule refl, rule safe_bind [OF safe_lift],
      rule safe_state, intro exI conjI, rule refl, rule safe_bind [OF safe_syscalls],
      rule safe_state, intro exI conjI, rule refl, rule safe_bind [OF safe_fold_unit [OF safe_convertMemoryCell]],
      rule safe_state, intro exI conjI, rule refl, rule safe_fold_unit [OF safe_connection])

lemma names_inv_new: "names_inv (writer_new m)"
  by (simp add: names_inv_def writer_new_def decl_names_def)


text \<open>C2: whatever the module, a program that \<open>generate\<close> produces is well formed: the printed names of all
  wires, registers, memories and constants are different, every instruction, those of the memory ports included, refers to
  declared names only, and the instructions that talk to the host are numbered 0, 1, 2 and so on in the order of the program.\<close>

theorem generate_well_formed:
  assumes "generate (writer_new m) = Inr ((), w)"
  shows "program_ok w"
  using safeD(1) [OF safe_generate names_inv_new _ assms, of "{}"] by (intro names_inv_program) simp

text \<open>A module with a register, a memory with a write and a read port, and a system call.\<close>

definition names_wire :: "nat \<Rightarrow> wire_t" where
  "names_wire n = \<lparr>wire_ptr = n, wire_name = int n, wire_width = 2\<rparr>"

definition names_sig :: "nat \<Rightarrow> sigbit list" where
  "names_sig n = [Bit_wire (names_wire n) 0, Bit_wire (names_wire n) 1]"

definition names_cell :: "nat \<Rightarrow> string \<Rightarrow> (string \<times> const_t) list \<Rightarrow> (string \<times> sigbit list) list \<Rightarrow> cell_t" where
  "names_cell p ty ps qs = \<lparr>cell_ptr = p, cell_name = ''$1'', cell_type = ty, cell_params = ps, cell_ports = qs, cell_attrs = []\<rparr>"

definition names_params :: "(string \<times> const_t) list" where
  "names_params = [(''WIDTH'', Const_bits [S0, S1]), (''ABITS'', Const_bits [S0, S1]), (''MEMID'', Const_string ''$m''),
     (''PORTID'', Const_bits [S0]), (''CLK_ENABLE'', Const_bits [S1]), (''TRANSPARENCY_MASK'', Const_bits [S0]),
     (''COLLISION_X_MASK'', Const_bits [S0]), (''TYPE'', Const_string ''$finish''), (''ORDER'', Const_bits [S0])]"

definition names_module :: module_t where
  "names_module = \<lparr>mod_wire_name = (\<lambda>_. ''$w''), mod_wire_attrs = (\<lambda>_. []),
     mod_cells = [names_cell 0 ''$dff'' names_params [(''D'', names_sig 0), (''Q'', names_sig 1)],
       names_cell 1 ''$memwr_v2'' names_params [(''ADDR'', names_sig 1), (''DATA'', names_sig 2), (''EN'', [Bit_wire (names_wire 3) 0, Bit_wire (names_wire 3) 0])],
       names_cell 2 ''$memrd_v2'' names_params [(''ADDR'', names_sig 1), (''DATA'', names_sig 0), (''EN'', [Bit_state S1]),
         (''ARST'', [Bit_state S0]), (''SRST'', [Bit_state S0])],
       names_cell 3 ''$manticore'' names_params [(''EN'', [Bit_wire (names_wire 3) 1])]],
     mod_memories = [(''$m'', \<lparr>mem_name = ''$m'', mem_width = 2, mem_start_offset = 0, mem_size = 4, mem_attrs = []\<rparr>)],
     mod_connections = [], mod_sigmap = (\<lambda>b. b)\<rparr>"

theorem generate_well_formed_witness:
  "\<exists>w. generate (writer_new names_module) = Inr ((), w) \<and> program_ok w \<and> length (instrs w) = 18 \<and> interrupt_order w = 1"
proof -
  let ?f = "\<lambda>r. case r of Inr (_, w) \<Rightarrow> length (instrs w) = 18 \<and> interrupt_order w = 1 | Inl _ \<Rightarrow> False"
  have "?f (generate (writer_new names_module))" by code_simp
  then obtain w where w: "generate (writer_new names_module) = Inr ((), w)" "length (instrs w) = 18 \<and> interrupt_order w = 1"
    by (auto split: sum.splits)
  show ?thesis
    by (rule exI [of _ w], rule conjI [OF w(1) conjI [OF generate_well_formed [OF w(1)] w(2)]])
qed

end
