(* ===== verification/WriterTrace.thy ===== *)
theory WriterTrace
  imports WriterModule WriterNames
begin

text \<open>
  What the program does outside its registers: the sequence of host calls and memory accesses.  The translation of
  signals and cells issues none; each system call issues its own instructions, in order, and the calls come in the order of their
  \<open>ORDER\<close> parameters.
\<close>

section \<open>Events\<close>

datatype event = Ev_put | Ev_flush string | Ev_finish | Ev_assert | Ev_stop | Ev_load rname int | Ev_store rname int

fun events :: "instr \<Rightarrow> event list" where
  "events (PUT n rs pred) = [Ev_put]"
| "events (FLUSH n fmt pred) = [Ev_flush fmt]"
| "events (FINISH n pred) = [Ev_finish]"
| "events (ASSERT n pred) = [Ev_assert]"
| "events (STOP n pred) = [Ev_stop]"
| "events (LOAD rd addr mem order) = [Ev_load mem order]"
| "events (STORE rs addr pred mem order) = [Ev_store mem order]"
| "events _ = []"

fun is_access :: "event \<Rightarrow> bool" where
  "is_access (Ev_load m n) \<longleftrightarrow> True"
| "is_access (Ev_store m n) \<longleftrightarrow> True"
| "is_access _ \<longleftrightarrow> False"

definition trace :: "writer \<Rightarrow> event list" where
  "trace w = concat (map events (instrs w))"

definition kept :: "writer \<Rightarrow> writer \<Rightarrow> bool" where
  "kept w w' \<longleftrightarrow> wmod w' = wmod w \<and> deferred w' = deferred w"

lemma kept_trans: "kept u v \<Longrightarrow> kept v w \<Longrightarrow> kept u w"
  by (simp add: kept_def)

definition adds :: "'a wm \<Rightarrow> event list \<Rightarrow> bool" where
  "adds m es \<longleftrightarrow> (\<forall>w x w'. m w = Inr (x, w') \<longrightarrow> trace w' = trace w @ es \<and> kept w w')"

abbreviation quiet :: "'a wm \<Rightarrow> bool" where
  "quiet m \<equiv> adds m []"

text \<open>The accesses to memories depend on the enables; of them it is only said that they are accesses.\<close>

definition accesses :: "'a wm \<Rightarrow> bool" where
  "accesses m \<longleftrightarrow> (\<forall>w x w'. m w = Inr (x, w') \<longrightarrow> (\<exists>es. trace w' = trace w @ es \<and> list_all is_access es) \<and> kept w w')"

named_theorems quiet_rules
named_theorems access_rules

lemma addsD: "adds m es \<Longrightarrow> m w = Inr (x, w') \<Longrightarrow> trace w' = trace w @ es \<and> kept w w'"
  unfolding adds_def by blast

lemma adds_bind:
  assumes "adds m a" "\<And>x. adds (f x) b"
  shows "adds (bindW m f) (a @ b)"
  unfolding adds_def
proof (intro allI impI)
  fix w y w2 assume "bindW m f w = Inr (y, w2)"
  then obtain x w1 where "m w = Inr (x, w1)" "f x w1 = Inr (y, w2)" by (auto simp: bindW_def split: sum.splits)
  then show "trace w2 = trace w @ a @ b \<and> kept w w2"
    using addsD [OF assms(1)] addsD [OF assms(2)] by (metis append_assoc kept_trans)
qed

lemma adds_quiet_bind: "quiet m \<Longrightarrow> (\<And>x. adds (f x) b) \<Longrightarrow> adds (bindW m f) b"
  using adds_bind [of m "[]" f b] by simp

lemma quiet_bind [quiet_rules]: "quiet m \<Longrightarrow> (\<And>x. quiet (f x)) \<Longrightarrow> quiet (bindW m f)"
  by (rule adds_quiet_bind)

lemma quiet_basic [quiet_rules]: "quiet (liftW r)" "quiet (retW x)"
  by (auto simp: adds_def liftW_def retW_def kept_def split: sum.splits)

lemma adds_fail [quiet_rules]: "adds (\<lambda>w. Inl e) es"
  by (simp add: adds_def)

lemma adds_if [quiet_rules]: "(P \<Longrightarrow> adds a es) \<Longrightarrow> (\<not> P \<Longrightarrow> adds b es) \<Longrightarrow> adds (if P then a else b) es"
  by simp

lemma adds_guard [quiet_rules]: "adds m es \<Longrightarrow> adds (guardW ok e m) es"
  by (simp add: guardW_def adds_fail)

lemma adds_pair [quiet_rules]: "(\<And>x y. p = (x, y) \<Longrightarrow> adds (f x y) es) \<Longrightarrow> adds (case p of (x, y) \<Rightarrow> f x y) es"
  by (cases p) simp

lemma adds_option [quiet_rules]: "(\<And>y. p = Some y \<Longrightarrow> adds (f y) es) \<Longrightarrow> adds g es \<Longrightarrow> adds (case p of Some y \<Rightarrow> f y | None \<Rightarrow> g) es"
  by (cases p) simp_all

lemma adds_state: "(\<And>w. \<exists>m'. m w = m' w \<and> adds m' es) \<Longrightarrow> adds m es"
  unfolding adds_def by metis

lemma quiet_fold [quiet_rules]: "(\<And>s x. quiet (f s x)) \<Longrightarrow> quiet (foldW f s xs)"
  by (induction xs arbitrary: s) (auto intro: quiet_basic quiet_bind)

lemma adds_emit: "adds (emitW i) (events i)"
  by (simp add: adds_def emitW_def trace_def kept_def deferred_def)

lemma quiet_emit [quiet_rules]: "events i = [] \<Longrightarrow> quiet (emitW i)"
  using adds_emit [of i] by simp

lemma adds_emit_ordered: "(\<And>n. events (f n) = es) \<Longrightarrow> adds (emit_ordered f) es"
  by (simp add: adds_def emit_ordered_def trace_def kept_def deferred_def)

section \<open>Builders, signals and cells\<close>

lemma quiet_temp [quiet_rules]: "quiet (temp n)"
  by (auto simp: adds_def temp_def bindW_def next_name_def add_def_def retW_def trace_def kept_def deferred_def)

lemma quiet_get_wire [quiet_rules]: "quiet (get_wire v)"
  by (auto simp: adds_def get_wire_def bindW_def next_name_def trace_def kept_def deferred_def split: option.splits)

lemma quiet_getMemory [quiet_rules]: "quiet (getMemory m)"
  by (auto simp: adds_def getMemory_def bindW_def next_name_def trace_def kept_def deferred_def split: option.splits)

lemma quiet_get_const [quiet_rules]: "quiet (get_const c)"
  by (auto simp: adds_def get_const_def Let_def trace_def kept_def deferred_def split: option.splits)

lemma quiet_emplace [quiet_rules]: "quiet (emplace_sig sig n)"
  by (auto simp: adds_def emplace_sig_def trace_def kept_def deferred_def)

lemma quiet_tryCreateState [quiet_rules]: "quiet (tryCreateState dff)"
  by (auto simp: adds_def tryCreateState_def guardW_def bindW_def liftW_def next_name_def Let_def trace_def kept_def deferred_def split: if_splits sum.splits)

lemma quiet_states [quiet_rules]: "quiet (getCurrent dff)" "quiet (getNext dff)"
  unfolding getCurrent_def getNext_def
  by (rule quiet_bind [OF quiet_tryCreateState]; auto simp: adds_def kept_def split: option.splits)+

lemma quiet_available:
  assumes "quiet g"
  shows "quiet (\<lambda>w. case map_of (available_sigs w) sig of Some name \<Rightarrow> Inr (name, w) | None \<Rightarrow> g w)"
  using assms by (auto simp: adds_def kept_def split: option.splits)

lemma quiet_convert_chunk [quiet_rules]: "quiet (convert_chunk c)"
  unfolding convert_chunk_def by (rule quiet_available, (rule quiet_rules | simp; fail)+)

lemma quiet_concat_step [quiet_rules]: "quiet (concat_step acc c)"
  unfolding concat_step_def Let_def by (rule quiet_rules | simp; fail)+

lemma quiet_convert_sig [quiet_rules]: "quiet (convert_sig sig)"
  unfolding convert_sig_def
proof (rule quiet_available, rule adds_option, rule quiet_get_wire)
  show "quiet (case canon sig of [] \<Rightarrow> \<lambda>w. Inl Assert_failed
     | c # cs \<Rightarrow> bindW (convert_chunk c) (\<lambda>prev_res. if cs = [] then retW prev_res
         else bindW (emitW (Comment_sig sig)) (\<lambda>_. bindW (foldW concat_step (chunk_bits c, prev_res, cwidth c) cs)
                (\<lambda>(_, res, _). retW res))))"
    by (cases "canon sig"; simp only: list.case; (rule quiet_rules | simp; fail)+)
qed

lemmas operand_defs = port_name_def const_rep_def const_num_def padConvert_def sextConvert_def extendOrSlice_def extend_port_def
  mkSeq_def mkCompare_def convertBinaryOperands_def unary_header_def shift_header_def to_bool_port_def move_bool_def

lemma quiet_operands [quiet_rules]:
  "quiet (port_name cell p)" "quiet (const_rep s n)" "quiet (const_num v n)" "quiet (padConvert sig n)" "quiet (sextConvert sig n)"
  "quiet (extendOrSlice sig n sg)" "quiet (extend_port cell p n sg)" "quiet (mkSeq cell r)" "quiet (mkCompare cell r b)"
  "quiet (convertBinaryOperands cell)" "quiet (unary_header cell)" "quiet (shift_header cell)" "quiet (move_bool n y r)"
  unfolding operand_defs by (rule quiet_rules | simp; fail)+

lemma quiet_to_bool_port [quiet_rules]: "(\<And>r. quiet (f r)) \<Longrightarrow> quiet (to_bool_port n y f)"
  unfolding to_bool_port_def by (rule quiet_rules | simp; fail)+

lemmas unary_cell_defs = convert_not_def convert_pos_def convert_neg_def convert_reduce_and_def convert_reduce_or_def xor_step_def
  convert_reduce_xor_def xnor_step_def convert_reduce_xnor_def convert_logic_not_def

lemma quiet_unary [quiet_rules]:
  "quiet (convert_not cell)" "quiet (convert_pos cell)" "quiet (convert_neg cell)" "quiet (convert_reduce_and cell)"
  "quiet (convert_reduce_or cell)" "quiet (convert_reduce_xor cell)" "quiet (convert_reduce_xnor cell)" "quiet (convert_logic_not cell)"
  unfolding unary_cell_defs by (rule quiet_rules | simp; fail)+

lemmas binary_cell_defs = convert_binary_def convert_xnor_def convert_eq_def convert_ne_def convert_lt_gt_def convert_le_ge_def
  convert_logic_def convert_mux_def pmux_step_def convert_pmux_def convert_shift_def convert_sshr_def convert_dff_def

lemma quiet_binary [quiet_rules]:
  "quiet (convert_binary b cell)" "quiet (convert_xnor cell)" "quiet (convert_eq cell)" "quiet (convert_ne cell)"
  "quiet (convert_lt_gt cell)" "quiet (convert_le_ge cell)" "quiet (convert_logic cell)" "quiet (convert_mux cell)"
  "quiet (convert_pmux cell)" "quiet (convert_shift b cell)" "quiet (convert_sshr cell)" "quiet (convert_dff cell)"
  unfolding binary_cell_defs by (rule quiet_rules | simp; fail)+



lemma quiet_memid [quiet_rules]: "quiet (memid cell)"
  unfolding memid_def
  by (rule quiet_bind [OF quiet_basic(1)]) (auto simp: adds_def kept_def guardE_def split: if_splits)

text \<open>A cell issues no event; a system call is put on the list.\<close>

lemma convert_cell_trace:
  assumes "convert_cell c w = Inr (u, w')"
  shows "trace w' = trace w" "wmod w' = wmod w" "syscalls w' = syscalls w @ filter (\<lambda>c. cell_type c = ''$manticore'') [c]"
proof -
  have "trace w' = trace w \<and> wmod w' = wmod w \<and> syscalls w' = syscalls w @ filter (\<lambda>c. cell_type c = ''$manticore'') [c]"
  proof (cases "cell_type c \<in> {''$memwr_v2'', ''$memrd_v2'', ''$manticore''}")
    case True
    then show ?thesis
      using assms addsD [OF quiet_memid [of c]]
      by (auto simp: convert_cell_def bindW_def emitW_def trace_def kept_def deferred_def split: sum.splits)
  next
    case False
    then have "quiet (convert_cell c)"
      unfolding convert_cell_def Let_def by - (rule quiet_rules | simp; fail)+
    then show ?thesis
      using addsD [of "convert_cell c" "[]" w u w'] assms False by (auto simp: kept_def deferred_def)
  qed
  then show "trace w' = trace w" "wmod w' = wmod w" "syscalls w' = syscalls w @ filter (\<lambda>c. cell_type c = ''$manticore'') [c]"
    by blast+
qed

lemma convert_cells_trace:
  assumes "foldW (\<lambda>_. convert_cell) () cs w = Inr (u, w')"
  shows "trace w' = trace w \<and> wmod w' = wmod w \<and> syscalls w' = syscalls w @ filter (\<lambda>c. cell_type c = ''$manticore'') cs"
  using assms
proof (induction cs arbitrary: w)
  case Nil
  then show ?case by (simp add: retW_def)
next
  case (Cons c cs)
  obtain w1 where 1: "convert_cell c w = Inr ((), w1)" and 2: "foldW (\<lambda>_. convert_cell) () cs w1 = Inr (u, w')"
    using Cons.prems by (auto elim!: bindW_InrE)
  show ?case
    using convert_cell_trace [OF 1] Cons.IH [OF 2] by simp
qed

section \<open>System calls\<close>

text \<open>The host instructions of a call, from its parameters.\<close>

definition call_events :: "cell_t \<Rightarrow> event list res" where
  "call_events c =
     bindE (param_string c ''TYPE'') (\<lambda>t.
     if t = ''$display'' then
       bindE (param_string c ''FMT'') (\<lambda>fmt.
       bindE (param_string c ''VAR_ARG_SIZE'') (\<lambda>sizes.
       bindE (convertFmt fmt (split sizes CHR '','')) (\<lambda>f.
       Inr (replicate (length (split sizes CHR '','')) Ev_put @ [Ev_flush f]))))
     else if t = ''$stop'' then Inr [Ev_stop]
     else if t = ''$finish'' then Inr [Ev_finish]
     else if t = ''$assert'' then Inr [Ev_assert]
     else Inl Log_error)"

lemma adds_display_arg: "adds (display_arg cell en rest s) [Ev_put]"
proof -
  have "adds (bindW (emit_ordered (\<lambda>n. PUT n r en)) (\<lambda>_. retW v)) ([Ev_put] @ [])" for r and v :: "sigbit list"
    by (rule adds_bind [OF adds_emit_ordered quiet_basic(2)]) simp
  then have p: "adds (bindW (emit_ordered (\<lambda>n. PUT n r en)) (\<lambda>_. retW v)) [Ev_put]" for r and v :: "sigbit list"
    by simp
  show ?thesis
    unfolding display_arg_def
    by (rule adds_quiet_bind [OF quiet_basic(1)], rule adds_guard, rule adds_quiet_bind [OF quiet_convert_sig],
        rule adds_quiet_bind [OF quiet_emit], simp, rule p)
qed

lemma adds_display_args: "adds (foldW (display_arg cell en) rest ss) (replicate (length ss) Ev_put)"
proof (induction ss arbitrary: rest)
  case Nil
  show ?case by (simp add: quiet_basic)
next
  case (Cons s ss)
  show ?case
    using adds_bind [OF adds_display_arg Cons.IH, of cell en rest s] by simp
qed

lemma convertSyscall_trace:
  assumes "convertSyscall c w = Inr (u, w')"
  shows "\<exists>es. call_events c = Inr es \<and> trace w' = trace w @ es \<and> kept w w'"
proof -
  obtain t where t: "param_string c ''TYPE'' = Inr t"
    using assms by (cases "param_string c ''TYPE''") (auto simp: convertSyscall_def bindW_def liftW_def)
  let ?src = "emitW (Emit (sourceInfo (cell_attrs c)))"
  have src: "quiet ?src" by (rule quiet_emit) simp
  consider (display) "t = ''$display''" | (stop) "t = ''$stop''" | (finish) "t = ''$finish''" | (assert) "t = ''$assert''"
    | (other) "t \<notin> {''$display'', ''$stop'', ''$finish'', ''$assert''}" by blast
  then show ?thesis
  proof cases
    case other
    then show ?thesis using assms by (auto simp: convertSyscall_def t Let_def bindW_def liftW_def emitW_def)
  next
    case stop
    have "adds (convertSyscall c) [Ev_stop]"
      unfolding convertSyscall_def t Let_def stop bindW_lift
      by (simp, (rule adds_quiet_bind quiet_rules adds_emit_ordered | simp; fail)+)
    then show ?thesis using addsD [of "convertSyscall c" _ w u w'] assms by (simp add: call_events_def t stop)
  next
    case finish
    have "adds (convertSyscall c) [Ev_finish]"
      unfolding convertSyscall_def t Let_def finish bindW_lift
      by (simp, (rule adds_quiet_bind quiet_rules adds_emit_ordered | simp; fail)+)
    then show ?thesis using addsD [of "convertSyscall c" _ w u w'] assms by (simp add: call_events_def t finish)
  next
    case assert
    have "adds (convertSyscall c) [Ev_assert]"
      unfolding convertSyscall_def t Let_def assert bindW_lift
      by (simp, (rule adds_quiet_bind quiet_rules adds_emit_ordered | simp; fail)+)
    then show ?thesis using addsD [of "convertSyscall c" _ w u w'] assms by (simp add: call_events_def t assert)
  next
    case display
    have e: "convertSyscall c = bindW (emitW (Comment_cell (log_id (cell_name c)) (log_id (cell_type c)))) (\<lambda>_.
       bindW (liftW (param_string c ''FMT'')) (\<lambda>fmt.
       bindW (liftW (param_string c ''VAR_ARG_SIZE'')) (\<lambda>sizes_str.
       bindW (liftW (getPort c ''B'')) (\<lambda>data_bits.
       bindW (liftW (getPort c ''EN'')) (\<lambda>en_sig.
       bindW (convert_sig en_sig) (\<lambda>en_name.
       guardW (length en_sig = 1) Assert_failed (
       bindW (foldW (display_arg c en_name) data_bits (split sizes_str CHR '','')) (\<lambda>_.
       bindW ?src (\<lambda>_.
       bindW (liftW (convertFmt fmt (split sizes_str CHR '',''))) (\<lambda>f.
       emit_ordered (\<lambda>n. FLUSH n f en_name)))))))))))"
      by (simp add: convertSyscall_def t Let_def display)
    obtain fmt sizes f where p: "param_string c ''FMT'' = Inr fmt" "param_string c ''VAR_ARG_SIZE'' = Inr sizes"
      "convertFmt fmt (split sizes CHR '','') = Inr f"
      using assms unfolding e guardW_def by (auto elim!: bindW_InrE simp: liftW_def split: sum.splits if_splits)
    have g: "adds (bindW ?src (\<lambda>_. emit_ordered (\<lambda>n. FLUSH n f en))) [Ev_flush f]" for en
      by (rule adds_quiet_bind [OF src], rule adds_emit_ordered) simp
    have "adds (convertSyscall c) (replicate (length (split sizes CHR '','')) Ev_put @ [Ev_flush f])"
      unfolding e p bindW_lift
      by (rule adds_quiet_bind [OF quiet_emit], simp, rule adds_quiet_bind [OF quiet_basic(1)], rule adds_quiet_bind [OF quiet_basic(1)],
          rule adds_quiet_bind [OF quiet_convert_sig], rule adds_guard, rule adds_bind [OF adds_display_args g])
    then show ?thesis using addsD [of "convertSyscall c" _ w u w'] assms by (simp add: call_events_def t display p)
  qed
qed


lemma convertSyscalls_trace:
  assumes "foldW (\<lambda>_. convertSyscall) () cs w = Inr (u, w')"
  shows "\<exists>ess. list_all2 (\<lambda>c es. call_events c = Inr es) cs ess \<and> trace w' = trace w @ concat ess \<and> kept w w'"
  using assms
proof (induction cs arbitrary: w)
  case Nil
  then show ?case by (simp add: retW_def kept_def)
next
  case (Cons c cs)
  obtain w1 where 1: "convertSyscall c w = Inr ((), w1)" and 2: "foldW (\<lambda>_. convertSyscall) () cs w1 = Inr (u, w')"
    using Cons.prems by (auto elim!: bindW_InrE)
  obtain es where e: "call_events c = Inr es" "trace w1 = trace w @ es" "kept w w1" using convertSyscall_trace [OF 1] by blast
  obtain ess where es: "list_all2 (\<lambda>c es. call_events c = Inr es) cs ess" "trace w' = trace w1 @ concat ess" "kept w1 w'"
    using Cons.IH [OF 2] by blast
  have "list_all2 (\<lambda>c es. call_events c = Inr es) (c # cs) (es # ess)" "trace w' = trace w @ concat (es # ess)" "kept w w'"
    using e es kept_trans [OF e(3) es(3)] by simp_all
  then show ?case by blast
qed

section \<open>Memories\<close>

lemma accessesD: "accesses m \<Longrightarrow> m w = Inr (x, w') \<Longrightarrow> (\<exists>es. trace w' = trace w @ es \<and> list_all is_access es) \<and> kept w w'"
  unfolding accesses_def by blast

lemma accesses_adds [access_rules]: "adds m es \<Longrightarrow> list_all is_access es \<Longrightarrow> accesses m"
  unfolding adds_def accesses_def by blast

lemma accesses_bind [access_rules]:
  assumes "accesses m" "\<And>x. accesses (f x)"
  shows "accesses (bindW m f)"
  unfolding accesses_def
proof (intro allI impI)
  fix w y w2 assume "bindW m f w = Inr (y, w2)"
  then obtain x w1 where r: "m w = Inr (x, w1)" "f x w1 = Inr (y, w2)" by (auto elim: bindW_InrE)
  obtain a b where "trace w1 = trace w @ a" "list_all is_access a" "trace w2 = trace w1 @ b" "list_all is_access b" "kept w w1" "kept w1 w2"
    using accessesD [OF assms(1) r(1)] accessesD [OF assms(2) r(2)] by blast
  then show "(\<exists>es. trace w2 = trace w @ es \<and> list_all is_access es) \<and> kept w w2"
    using kept_trans [of w w1 w2] by (intro conjI exI [of _ "a @ b"]) simp_all
qed

lemma accesses_choice [access_rules]:
  "(P \<Longrightarrow> accesses a) \<Longrightarrow> (\<not> P \<Longrightarrow> accesses b) \<Longrightarrow> accesses (if P then a else b)"
  "accesses m \<Longrightarrow> accesses (guardW ok e m)"
  by (simp_all add: guardW_def accesses_def)

lemma accesses_pair [access_rules]: "(\<And>x y. p = (x, y) \<Longrightarrow> accesses (f x y)) \<Longrightarrow> accesses (case p of (x, y) \<Rightarrow> f x y)"
  by (cases p) simp

lemma accesses_fold [access_rules]: "(\<And>s x. accesses (f s x)) \<Longrightarrow> accesses (foldW f s xs)"
  by (induction xs arbitrary: s) (auto intro: accesses_bind accesses_adds [OF quiet_basic(2)])

lemma accesses_state: "(\<And>w. \<exists>m'. m w = m' w \<and> accesses m') \<Longrightarrow> accesses m"
  unfolding accesses_def by metis

lemmas memory_defs = addrFromLowerBound_def createBoundOk_def checked_predicate_def read_arst_def read_srst_def read_plain_def
  convertReadData_def Let_def

lemma quiet_memory [quiet_rules]:
  "quiet (addrFromLowerBound m cell)" "quiet (createBoundOk m a n)" "quiet (checked_predicate m cell a n p)"
  "quiet (read_arst cell n e d c q)" "quiet (read_srst cell n e d c q)" "quiet (read_plain cell n e d c q)" "quiet (convertReadData cell)"
  unfolding memory_defs by (rule quiet_rules | simp; fail)+

lemma quiet_accesses: "quiet m \<Longrightarrow> accesses m"
  by (erule accesses_adds) simp

lemma accesses_emit: "list_all is_access (events i) \<Longrightarrow> accesses (emitW i)"
  by (rule accesses_adds [OF adds_emit])

lemma accesses_store_part: "accesses (store_part m cell mem a n v d k p)"
  unfolding store_part_def
  by (rule accesses_bind accesses_choice accesses_emit quiet_accesses [OF quiet_basic(1)] quiet_accesses [OF quiet_basic(2)]
      quiet_accesses [OF quiet_temp] quiet_accesses [OF quiet_get_const] quiet_accesses [OF quiet_convert_sig]
      quiet_accesses [OF quiet_memory(3)] | simp; fail)+


lemmas quiet_access_rules = quiet_accesses [OF quiet_basic(1)] quiet_accesses [OF quiet_basic(2)] quiet_accesses [OF quiet_temp]
  quiet_accesses [OF quiet_get_const] quiet_accesses [OF quiet_convert_sig] quiet_accesses [OF quiet_getMemory]
  quiet_accesses [OF quiet_memory(1)] quiet_accesses [OF quiet_memory(2)] quiet_accesses [OF quiet_memory(3)]
  quiet_accesses [OF quiet_memory(7)] quiet_accesses [OF quiet_operands(1)] quiet_accesses [OF quiet_operands(3)] quiet_accesses [OF adds_fail]

lemma accesses_convert_read: "accesses (convert_read m mem ws cell)"
  unfolding convert_read_def
  by (rule accesses_bind accesses_choice accesses_emit quiet_access_rules | simp; fail)+

lemma accesses_convert_write: "accesses (convert_write m mem acc cell)"
  unfolding convert_write_def Let_def
  by (rule accesses_pair, rule accesses_bind [OF quiet_access_rules(1)], rule accesses_bind [OF quiet_access_rules(1)], rule accesses_choice(2),
      rule accesses_bind [OF quiet_access_rules(1)], rule accesses_choice(2), rule accesses_bind [OF quiet_access_rules(1)],
      rule accesses_bind [OF quiet_access_rules(1)], rule accesses_choice(2), rule accesses_state, intro exI conjI, rule refl,
      (rule accesses_bind accesses_choice accesses_emit quiet_access_rules accesses_fold accesses_store_part | simp; fail)+)

lemma accesses_convertMemoryCell: "accesses (convertMemoryCell e)"
  unfolding convertMemoryCell_def Let_def
  by (rule accesses_pair, rule accesses_bind [OF quiet_access_rules(6)], rule accesses_state, intro exI conjI, rule refl,
      rule accesses_bind [OF quiet_access_rules(1)], rule accesses_bind [OF accesses_fold [OF accesses_convert_write]],
      rule accesses_pair, rule accesses_state, intro exI conjI, rule refl, rule accesses_fold [OF accesses_convert_read])

section \<open>The module\<close>

lemma quiet_connection: "quiet (convert_connection c)"
  unfolding convert_connection_def by (rule quiet_rules | simp; fail)+

lemma read_keys_Inr: "read_keys k cs = Inr kcs \<Longrightarrow> c \<in> set cs \<Longrightarrow> \<exists>v. param_int c k = Inr v"
  by (induction cs arbitrary: kcs) (auto simp: bindE_eq_Inr_iff)

lemma sort_cells_Inr:
  assumes "sort_cells k cs = Inr ds"
  shows "mset ds = mset cs \<and>
    (\<forall>i j vi vj. i < j \<longrightarrow> j < length ds \<longrightarrow> param_int (ds ! i) k = Inr vi \<longrightarrow> param_int (ds ! j) k = Inr vj \<longrightarrow> vi \<le> vj)"
proof -
  have k: "\<exists>v. param_int c k = Inr v" if l: "length cs > 1" and c: "c \<in> set cs" for c
  proof (cases "read_keys k cs")
    case (Inl e)
    then show ?thesis using assms l by (simp add: sort_cells_def)
  next
    case (Inr kcs)
    then show ?thesis using read_keys_Inr c by blast
  qed
  from sort_cells_ok [of cs k, OF k] assms show ?thesis by (metis sum.inject(2))
qed

lemma filter_accesses: "list_all is_access es \<Longrightarrow> filter (\<lambda>e. \<not> is_access e) es = []"
  by (simp add: list_all_iff)

lemma call_events_no_access: "call_events c = Inr es \<Longrightarrow> filter (\<lambda>e. \<not> is_access e) es = es"
  by (auto simp: call_events_def bindE_eq_Inr_iff split: if_splits)

lemma filter_call_events:
  "list_all2 (\<lambda>c es. call_events c = Inr es) cs ess \<Longrightarrow> filter (\<lambda>e. \<not> is_access e) (concat ess) = concat ess"
  by (induction rule: list_all2_induct) (simp_all add: call_events_no_access)

text \<open>The states between the parts of \<open>generate\<close>.\<close>

lemma generate_steps:
  assumes "generate (writer_new m) = Inr (u, w)"
  obtains w1 cs w2 w3 where "foldW (\<lambda>_. convert_cell) () (mod_cells m) (writer_new m) = Inr ((), w1)"
    "syscalls w1 = filter (\<lambda>c. cell_type c = ''$manticore'') (mod_cells m)" "trace w1 = []"
    "sort_cells ''ORDER'' (syscalls w1) = Inr cs"
    "foldW (\<lambda>_. convertSyscall) () cs (w1\<lparr>syscalls := cs\<rparr>) = Inr ((), w2)"
    "foldW (\<lambda>_. convertMemoryCell) () (mod_memories m) w2 = Inr ((), w3)"
    "foldW (\<lambda>_. convert_connection) () (mod_connections m) w3 = Inr ((), w)"
proof -
  let ?w0 = "writer_new m"
  have w0: "wmod ?w0 = m" "syscalls ?w0 = []" "trace ?w0 = []" by (simp_all add: writer_new_def trace_def)
  obtain w1 cs w2 w3 where
    1: "foldW (\<lambda>_. convert_cell) () (mod_cells m) ?w0 = Inr ((), w1)" and
    s: "sort_cells ''ORDER'' (syscalls w1) = Inr cs" and
    2: "foldW (\<lambda>_. convertSyscall) () cs (w1\<lparr>syscalls := cs\<rparr>) = Inr ((), w2)" and
    3: "foldW (\<lambda>_. convertMemoryCell) () (mod_memories (wmod w2)) w2 = Inr ((), w3)" and
    4: "foldW (\<lambda>_. convert_connection) () (mod_connections (wmod w3)) w3 = Inr (u, w)"
    using assms unfolding generate_def w0(1) by (auto elim!: bindW_InrE simp: liftW_def split: sum.splits)
  note c1 = convert_cells_trace [OF 1, unfolded w0]
  have m2: "wmod w2 = m" using convertSyscalls_trace [OF 2] c1 by (auto simp: kept_def)
  have "accesses (foldW (\<lambda>_. convertMemoryCell) () xs)" for xs
    by (rule accesses_fold [OF accesses_convertMemoryCell])
  then have m3: "wmod w3 = m" using accessesD 3 m2 unfolding kept_def by metis
  show thesis
    by (rule that [OF 1 _ _ s 2]) (use c1 3 4 m2 m3 in \<open>simp_all add: unit_eq [of u]\<close>)
qed

lemma generate_trace:
  assumes "generate (writer_new m) = Inr (u, w)"
  shows "\<exists>cs ess. sort_cells ''ORDER'' (filter (\<lambda>c. cell_type c = ''$manticore'') (mod_cells m)) = Inr cs \<and>
    list_all2 (\<lambda>c es. call_events c = Inr es) cs ess \<and> filter (\<lambda>e. \<not> is_access e) (trace w) = concat ess"
proof -
  obtain w1 cs w2 w3 where 1: "syscalls w1 = filter (\<lambda>c. cell_type c = ''$manticore'') (mod_cells m)" "trace w1 = []"
    and s: "sort_cells ''ORDER'' (syscalls w1) = Inr cs"
    and 2: "foldW (\<lambda>_. convertSyscall) () cs (w1\<lparr>syscalls := cs\<rparr>) = Inr ((), w2)"
    and 3: "foldW (\<lambda>_. convertMemoryCell) () (mod_memories m) w2 = Inr ((), w3)"
    and 4: "foldW (\<lambda>_. convert_connection) () (mod_connections m) w3 = Inr ((), w)"
    by (rule generate_steps [OF assms])
  have t1: "trace (w1\<lparr>syscalls := cs\<rparr>) = []" using 1(2) by (simp add: trace_def)
  obtain ess where e: "list_all2 (\<lambda>c es. call_events c = Inr es) cs ess" "trace w2 = concat ess"
    using convertSyscalls_trace [OF 2] unfolding t1 by auto
  have "accesses (foldW (\<lambda>_. convertMemoryCell) () xs)" for xs
    by (rule accesses_fold [OF accesses_convertMemoryCell])
  then obtain es where a: "trace w3 = trace w2 @ es" "list_all is_access es" using accessesD 3 by metis
  have "quiet (foldW (\<lambda>_. convert_connection) () xs)" for xs
    by (rule quiet_fold [OF quiet_connection])
  then have "trace w = trace w3" using addsD 4 by (metis append_Nil2)
  then have "filter (\<lambda>e. \<not> is_access e) (trace w) = concat ess"
    using a e(2) filter_accesses [OF a(2)] filter_call_events [OF e(1)] by simp
  then show ?thesis
    using s e(1) unfolding 1(1) by auto
qed

text \<open>The host calls of a program, in its order, are those of the \<open>$manticore\<close> cells sorted by \<open>ORDER\<close>, each cell once.\<close>

definition calls_ordered :: "module_t \<Rightarrow> writer \<Rightarrow> bool" where
  "calls_ordered m w \<longleftrightarrow> (\<exists>cs ess. mset cs = mset (filter (\<lambda>c. cell_type c = ''$manticore'') (mod_cells m)) \<and>
     (\<forall>i j vi vj. i < j \<longrightarrow> j < length cs \<longrightarrow> param_int (cs ! i) ''ORDER'' = Inr vi \<longrightarrow> param_int (cs ! j) ''ORDER'' = Inr vj \<longrightarrow> vi \<le> vj) \<and>
     list_all2 (\<lambda>c es. call_events c = Inr es) cs ess \<and> filter (\<lambda>e. \<not> is_access e) (trace w) = concat ess)"

lemma generate_calls:
  assumes "generate (writer_new m) = Inr (u, w)"
  shows "calls_ordered m w"
proof -
  obtain cs ess where c: "sort_cells ''ORDER'' (filter (\<lambda>c. cell_type c = ''$manticore'') (mod_cells m)) = Inr cs"
    "list_all2 (\<lambda>c es. call_events c = Inr es) cs ess" "filter (\<lambda>e. \<not> is_access e) (trace w) = concat ess"
    using generate_trace [OF assms] by blast
  note o = sort_cells_Inr [OF c(1)]
  show ?thesis
    unfolding calls_ordered_def
    by (rule exI [of _ cs], rule exI [of _ ess], rule conjI [OF conjunct1 [OF o] conjI [OF conjunct2 [OF o] conjI [OF c(2,3)]]])
qed


text \<open>A module that prints a value and stops; the cells are not in the order of the calls.\<close>

definition calls_cell :: "string \<Rightarrow> state \<Rightarrow> cell_t" where
  "calls_cell ty ord = names_cell 0 ''$manticore'' [(''TYPE'', Const_string ty), (''ORDER'', Const_bits [ord]),
     (''FMT'', Const_string ''x=%d''), (''VAR_ARG_SIZE'', Const_string ''2'')]
     [(''EN'', [Bit_wire (names_wire 1) 0]), (''B'', names_sig 2)]"

definition calls_module :: module_t where
  "calls_module = names_module\<lparr>mod_cells := [calls_cell ''$finish'' S1, calls_cell ''$display'' S0], mod_memories := []\<rparr>"

lemma calls_facts:
  "filter (\<lambda>c. cell_type c = ''$manticore'') (mod_cells calls_module) = [calls_cell ''$finish'' S1, calls_cell ''$display'' S0]"
  "param_int (calls_cell ''$finish'' S1) ''ORDER'' = Inr 1" "param_int (calls_cell ''$display'' S0) ''ORDER'' = Inr 0"
  "call_events (calls_cell ''$finish'' S1) = Inr [Ev_finish]"
  "call_events (calls_cell ''$display'' S0) = Inr [Ev_put, Ev_flush ''x=%2d'']"
  by code_simp+


end
