(* ===== verification/WriterDrive.thy ===== *)
theory WriterDrive
  imports WriterTrace
begin

text \<open>
  Which register an instruction writes.  The equations of theory WriterSem do not tell the two sides of a \<open>MOV\<close> apart; here the writes
  to every name are counted.  \<open>drives\<close> is the triple of the balance between declared temporaries and writes, with one rule for
  each builder.  The result, single assignment wherever the netlist has one driver: every temporary is written by exactly one instruction, constants and current values of
  registers by none, the next value of a register once for its cell, and a wire once for each cell or connection that drives it.
\<close>

section \<open>Destinations\<close>

fun dst :: "instr \<Rightarrow> rname list" where
  "dst (LOAD rd addr mem order) = [rd]"
| "dst (PADZERO rd rs n) = [rd]"
| "dst (MOV rd rs) = [rd]"
| "dst (SLICE rd rs off n) = [rd]"
| "dst (PARMUX rd cs d ks) = [rd]"
| "dst (MUX rd s f t) = [rd]"
| "dst (BINOP b rd x y) = [rd]"
| "dst _ = []"

text \<open>How many instructions write a name.\<close>

definition assignments :: "writer \<Rightarrow> rname \<Rightarrow> nat" where
  "assignments w n = count_list (concat (map dst (instrs w))) n"

primrec temp_names :: "def_item \<Rightarrow> rname list" where
  "temp_names (Def_temp r k) = [r]"
| "temp_names (Def_wire r k) = []"
| "temp_names (Def_line s) = []"

primrec wire_names :: "def_item \<Rightarrow> rname list" where
  "wire_names (Def_temp r k) = []"
| "wire_names (Def_wire r k) = [r]"
| "wire_names (Def_line s) = []"

text \<open>Temporaries are declared before they are written: the balance of a name counts the writes that are no first write of a temporary.\<close>

definition net :: "rname \<Rightarrow> writer \<Rightarrow> int" where
  "net n w = int (assignments w n) - int (count_list (concat (map temp_names (wdefs w))) n)"

section \<open>The tables of names\<close>

definition tables_ok :: "writer \<Rightarrow> bool" where
  "tables_ok w \<longleftrightarrow> distinct (map fst (wires w)) \<and> distinct (map fst (states w)) \<and>
     mset (map snd (wires w)) = mset (concat (map wire_names (wdefs w))) \<and>
     mset (map snd (states w)) = mset (map (\<lambda>g. (reg_input g, reg_output g)) (regs w)) \<and>
     (\<forall>(sig, k)\<in>set (available_sigs w). \<forall>v. whole_wire sig = Some v \<longrightarrow> (v, k) \<in> set (wires w))"

definition grows :: "writer \<Rightarrow> writer \<Rightarrow> bool" where
  "grows w w' \<longleftrightarrow> set (wires w) \<subseteq> set (wires w') \<and> set (states w) \<subseteq> set (states w')"

text \<open>\<open>nv\<close> and \<open>ns\<close> are the names that wires and registers have in the end.\<close>

definition agrees :: "(wire_t \<Rightarrow> rname) \<Rightarrow> (nat \<Rightarrow> rname \<times> rname) \<Rightarrow> writer \<Rightarrow> bool" where
  "agrees nv ns w \<longleftrightarrow> (\<forall>(v, k)\<in>set (wires w). nv v = k) \<and> (\<forall>(p, qd)\<in>set (states w). ns p = qd)"

lemma grows_refl [simp]: "grows w w"
  by (simp add: grows_def)

lemma grows_trans: "grows u v \<Longrightarrow> grows v w \<Longrightarrow> grows u w"
  by (auto simp: grows_def)

lemma agrees_grows: "grows w w' \<Longrightarrow> agrees nv ns w' \<Longrightarrow> agrees nv ns w"
  unfolding grows_def agrees_def by (elim conjE, intro conjI; erule (1) ball_superset)

text \<open>A member function that keeps the tables and changes the balance of the name \<open>n\<close> by an amount \<open>P\<close> allows for its result.\<close>

definition drives :: "(wire_t \<Rightarrow> rname) \<Rightarrow> (nat \<Rightarrow> rname \<times> rname) \<Rightarrow> rname \<Rightarrow> 'a wm \<Rightarrow> ('a \<Rightarrow> int \<Rightarrow> bool) \<Rightarrow> bool" where
  "drives nv ns n m P \<longleftrightarrow> (\<forall>w x w'. tables_ok w \<longrightarrow> m w = Inr (x, w') \<longrightarrow> tables_ok w' \<and> grows w w' \<and>
     (agrees nv ns w' \<longrightarrow> P x (net n w' - net n w)))"

lemma drivesI:
  assumes "\<And>w x w'. tables_ok w \<Longrightarrow> m w = Inr (x, w') \<Longrightarrow> tables_ok w'"
    and "\<And>w x w'. tables_ok w \<Longrightarrow> m w = Inr (x, w') \<Longrightarrow> grows w w'"
    and "\<And>w x w'. tables_ok w \<Longrightarrow> m w = Inr (x, w') \<Longrightarrow> agrees nv ns w' \<Longrightarrow> P x (net n w' - net n w)"
  shows "drives nv ns n m P"
  using assms unfolding drives_def by blast

lemma drivesD:
  assumes "drives nv ns n m P" "tables_ok w" "m w = Inr (x, w')"
  shows "tables_ok w'" "grows w w'" "agrees nv ns w' \<Longrightarrow> P x (net n w' - net n w)"
  using assms unfolding drives_def by blast+

named_theorems drive_rules

lemma drives_bind_pure:
  assumes "drives nv ns n m P" "\<And>w x w'. m w = Inr (x, w') \<Longrightarrow> R x"
    and "\<And>x. R x \<Longrightarrow> drives nv ns n (f x) (\<lambda>y d. \<forall>e. P x e \<longrightarrow> Q y (e + d))"
  shows "drives nv ns n (bindW m f) Q"
proof -
  have *: "tables_ok w2 \<and> grows w w2 \<and> (agrees nv ns w2 \<longrightarrow> Q y (net n w2 - net n w))"
    if w: "tables_ok w" and r: "bindW m f w = Inr (y, w2)" for w y w2
  proof -
    obtain x w1 where m: "m w = Inr (x, w1)" and f: "f x w1 = Inr (y, w2)" using r by (rule bindW_InrE)
    note 1 = drivesD [OF assms(1) w m]
    note 2 = drivesD [OF assms(3) [OF assms(2) [OF m]] 1(1) f]
    have "Q y (net n w2 - net n w)" if a: "agrees nv ns w2"
    proof -
      have "P x (net n w1 - net n w)" by (rule 1(3) [OF agrees_grows [OF 2(2) a]])
      then have "Q y (net n w1 - net n w + (net n w2 - net n w1))" using 2(3) [OF a] by blast
      then show ?thesis by (simp add: algebra_simps)
    qed
    then show ?thesis using 2(1) grows_trans [OF 1(2) 2(2)] by blast
  qed
  show ?thesis unfolding drives_def using * by blast
qed

lemma drives_bind:
  assumes "drives nv ns n m P" "\<And>x. drives nv ns n (f x) (\<lambda>y d. \<forall>e. P x e \<longrightarrow> Q y (e + d))"
  shows "drives nv ns n (bindW m f) Q"
  by (rule drives_bind_pure [OF assms(1), where R = "\<lambda>_. True"]) (simp_all add: assms(2))

lemma drives_conseq:
  assumes "drives nv ns n m P" "\<And>x d. P x d \<Longrightarrow> Q x d"
  shows "drives nv ns n m Q"
  using assms unfolding drives_def by blast

lemma drives_guard: "(ok \<Longrightarrow> drives nv ns n m P) \<Longrightarrow> drives nv ns n (guardW ok e m) P"
  by (simp add: guardW_def drives_def)

lemma drives_if: "(b \<Longrightarrow> drives nv ns n m P) \<Longrightarrow> (\<not> b \<Longrightarrow> drives nv ns n m' P) \<Longrightarrow> drives nv ns n (if b then m else m') P"
  by simp

lemma drives_pair: "(\<And>x y. p = (x, y) \<Longrightarrow> drives nv ns n (f x y) P) \<Longrightarrow> drives nv ns n (case p of (x, y) \<Rightarrow> f x y) P"
  by (cases p) simp

lemma drives_fail [drive_rules]: "drives nv ns n (\<lambda>w. Inl e) P"
  by (simp add: drives_def)

lemma drives_ret [drive_rules]: "drives nv ns n (retW x) (\<lambda>y d. y = x \<and> d = 0)"
  by (simp add: drives_def retW_def)

lemma drives_lift [drive_rules]: "drives nv ns n (liftW r) (\<lambda>y d. r = Inr y \<and> d = 0)"
  by (simp add: drives_def liftW_def split: sum.splits)

lemma drives_fold:
  assumes "\<And>s x. x \<in> set xs \<Longrightarrow> drives nv ns n (f s x) (\<lambda>_ d. d = 0)"
  shows "drives nv ns n (foldW f s xs) (\<lambda>_ d. d = 0)"
  using assms
proof (induction xs arbitrary: s)
  case Nil
  show ?case unfolding foldW.simps by (rule drives_conseq [OF drives_ret]) simp
next
  case (Cons x xs)
  have 1: "drives nv ns n (f s x) (\<lambda>_ d. d = 0)" by (rule Cons.prems) simp
  have 2: "drives nv ns n (foldW f s' xs) (\<lambda>_ d. d = 0)" for s' by (rule Cons.IH, rule Cons.prems) simp
  show ?case
    unfolding foldW.simps by (rule drives_bind [OF 1], rule drives_conseq [OF 2]) simp
qed

section \<open>The builders\<close>

lemma tables_ok_same:
  assumes "tables_ok w" "wires w' = wires w" "states w' = states w" "regs w' = regs w"
    "concat (map wire_names (wdefs w')) = concat (map wire_names (wdefs w))" "available_sigs w' = available_sigs w"
  shows "tables_ok w'"
  using assms unfolding tables_ok_def by simp

lemma drives_emit [drive_rules]: "drives nv ns n (emitW i) (\<lambda>_ d. d = int (count_list (dst i) n))"
  by (rule drivesI) (auto simp: emitW_def grows_def net_def assignments_def intro: tables_ok_same)

lemma drives_emit_ordered:
  assumes "\<And>k. dst (f k) = []"
  shows "drives nv ns n (emit_ordered f) (\<lambda>_ d. d = 0)"
  by (rule drivesI) (auto simp: emit_ordered_def grows_def net_def assignments_def assms intro: tables_ok_same)

lemma drives_temp [drive_rules]: "drives nv ns n (temp k) (\<lambda>x d. d = - of_bool (x = n))"
  by (rule drivesI) (auto simp: temp_def bindW_def next_name_def add_def_def retW_def grows_def net_def assignments_def intro: tables_ok_same)

lemma lines_names [simp]:
  "concat (map temp_names (source_line a)) = []" "concat (map temp_names (wire_lines k a)) = []"
  "concat (map wire_names (source_line a)) = []" "concat (map wire_names (wire_lines k a)) = []"
  by (simp_all add: source_line_def wire_lines_def Let_def)

lemma drives_get_const [drive_rules]: "drives nv ns n (get_const c) (\<lambda>_ d. d = 0)"
  by (rule drivesI) (auto simp: get_const_def Let_def grows_def net_def assignments_def split: option.splits intro: tables_ok_same)

lemma get_wire_cases:
  assumes "get_wire v w = Inr (x, w')" "tables_ok w"
  obtains "w' = w" "(v, x) \<in> set (wires w)"
  | "v \<notin> fst ` set (wires w)" "w' = w\<lparr>wire_index := wire_index w + 1,
      wdefs := wdefs w @ wire_lines (mod_wire_name (wmod w) v) (mod_wire_attrs (wmod w) v) @ [Def_wire x (wire_width v)], wires := (v, x) # wires w\<rparr>"
proof (cases "map_of (wires w) v")
  case None
  then have "v \<notin> fst ` set (wires w)" by (simp add: map_of_eq_None_iff)
  then show ?thesis
    using assms(1) None by (intro that(2)) (auto simp: get_wire_def bindW_def next_name_def)
next
  case (Some k)
  then show ?thesis
    using assms(1) that(1) by (auto simp: get_wire_def dest: map_of_SomeD)
qed

lemma tables_ok_wire:
  assumes "tables_ok w" "v \<notin> fst ` set (wires w)"
  shows "tables_ok (w\<lparr>wire_index := i, wdefs := wdefs w @ wire_lines s a @ [Def_wire x k], wires := (v, x) # wires w\<rparr>)"
  using assms unfolding tables_ok_def by auto

lemma get_wire_tables:
  assumes "get_wire v w = Inr (x, w')" "tables_ok w"
  shows "tables_ok w'" "grows w w'" "(v, x) \<in> set (wires w')" "net n w' = net n w" "available_sigs w' = available_sigs w"
  by (rule get_wire_cases [OF assms]; use assms(2) in \<open>auto simp: tables_ok_wire grows_def net_def assignments_def\<close>)+

lemma agrees_wire: "agrees nv ns w \<Longrightarrow> (v, x) \<in> set (wires w) \<Longrightarrow> x = nv v"
  unfolding agrees_def by blast

lemma drives_get_wire [drive_rules]: "drives nv ns n (get_wire v) (\<lambda>x d. x = nv v \<and> d = 0)"
  by (rule drivesI) (auto dest: get_wire_tables intro: agrees_wire)


lemma emplace_tables:
  assumes "emplace_sig sig x w = Inr (u, w')" "tables_ok w" "\<And>v. whole_wire sig = Some v \<Longrightarrow> (v, x) \<in> set (wires w)"
  shows "tables_ok w'" "wires w' = wires w" "states w' = states w" "net n w' = net n w"
proof -
  have e: "w' = w \<or> w' = w\<lparr>available_sigs := (sig, x) # available_sigs w\<rparr>"
    using assms(1) by (auto simp: emplace_sig_def split: if_splits)
  have "tables_ok (w\<lparr>available_sigs := (sig, x) # available_sigs w\<rparr>)"
    using assms(2,3) unfolding tables_ok_def by simp
  then show "tables_ok w'" "wires w' = wires w" "states w' = states w" "net n w' = net n w"
    using e assms(2) by (auto simp: net_def assignments_def)
qed

lemma drives_emplace:
  assumes "whole_wire sig = None"
  shows "drives nv ns n (emplace_sig sig x) (\<lambda>_ d. d = 0)"
  by (rule drivesI) (use assms in \<open>auto simp: grows_def dest: emplace_tables\<close>)

lemma drives_whole_wire:
  assumes "whole_wire sig = Some v"
  shows "drives nv ns n (bindW (get_wire v) (\<lambda>k. bindW (emplace_sig sig k) (\<lambda>_. retW k))) (\<lambda>x d. x = nv v \<and> d = 0)"
proof -
  have *: "tables_ok w' \<and> grows w w' \<and> (v, x) \<in> set (wires w') \<and> net n w' = net n w"
    if w: "tables_ok w" and r: "bindW (get_wire v) (\<lambda>k. bindW (emplace_sig sig k) (\<lambda>_. retW k)) w = Inr (x, w')" for w x w'
  proof -
    obtain w1 where 1: "get_wire v w = Inr (x, w1)" "emplace_sig sig x w1 = Inr ((), w')"
      using r by (auto elim!: bindW_InrE simp: retW_def)
    note g = get_wire_tables [OF 1(1) w]
    note e = emplace_tables [OF 1(2) g(1)]
    show ?thesis using g e assms by (simp add: grows_def)
  qed
  show ?thesis by (rule drivesI) (use * in \<open>auto intro: agrees_wire\<close>)
qed

lemma tryCreateState_tables:
  assumes "tryCreateState dff w = Inr (u, w')" "tables_ok w"
  shows "tables_ok w'" "grows w w'" "net n w' = net n w"
proof -
  have "tables_ok w' \<and> grows w w' \<and> net n w' = net n w"
  proof (cases "map_of (states w) (cell_ptr dff)")
    case (Some e)
    then have "w' = w" using assms(1) by (auto simp: tryCreateState_def guardW_def split: if_splits)
    then show ?thesis using assms(2) by simp
  next
    case None
    let ?q = "Rname CHR ''i'' (wire_index w + 1)" and ?d = "Rname CHR ''o'' (2 + wire_index w)"
    obtain k i where e: "w' = w\<lparr>wire_index := 3 + wire_index w, wdefs := wdefs w @ source_line (cell_attrs dff),
        regs := regs w @ [\<lparr>reg_name = Rname CHR ''r'' (wire_index w), reg_width = k, reg_input = ?q, reg_init = i, reg_output = ?d\<rparr>],
        states := (cell_ptr dff, ?q, ?d) # states w\<rparr>"
      using assms(1) None
      by (auto simp: tryCreateState_def guardW_def bindW_def liftW_def next_name_def Let_def split: if_splits sum.splits)
    have "cell_ptr dff \<notin> fst ` set (states w)" using None by (simp add: map_of_eq_None_iff)
    then show ?thesis
      using assms(2) unfolding e tables_ok_def by (auto simp: grows_def net_def assignments_def)
  qed
  then show "tables_ok w'" "grows w w'" "net n w' = net n w" by blast+
qed

lemma drives_tryCreateState: "drives nv ns n (tryCreateState dff) (\<lambda>_ d. d = 0)"
  by (rule drivesI) (auto dest: tryCreateState_tables)

lemma agrees_state: "agrees nv ns w \<Longrightarrow> map_of (states w) p = Some qd \<Longrightarrow> ns p = qd"
  unfolding agrees_def by (auto dest!: map_of_SomeD)

lemma drives_states [drive_rules]:
  "drives nv ns n (getCurrent dff) (\<lambda>x d. x = fst (ns (cell_ptr dff)) \<and> d = 0)"
  "drives nv ns n (getNext dff) (\<lambda>x d. x = snd (ns (cell_ptr dff)) \<and> d = 0)"
  unfolding getCurrent_def getNext_def
  by (rule drives_bind [OF drives_tryCreateState]; rule drivesI; auto dest: agrees_state split: option.splits)+

section \<open>Signals\<close>

lemma whole_wire_chunk:
  assumes "chunk_ok c"
  shows "whole_wire (chunk_bits c) = (case cwire c of Some v \<Rightarrow> if wire_width v = cwidth c then Some v else None | None \<Rightarrow> None)"
  using canon_unique [of "[c]"] assms chunk_ok_pos [OF assms] by (auto simp: whole_wire_def split: option.splits)

lemma whole_wire_concat:
  assumes "list_all chunk_ok cs" "breaks cs" "1 < length cs"
  shows "whole_wire (concat (map chunk_bits cs)) = None"
  using canon_unique [OF assms(1,2)] assms(3) by (cases cs; cases "tl cs") (auto simp: whole_wire_def)

definition wire_name_of :: "(wire_t \<Rightarrow> rname) \<Rightarrow> sigbit list \<Rightarrow> rname \<Rightarrow> bool" where
  "wire_name_of nv sig x \<longleftrightarrow> (\<forall>v. whole_wire sig = Some v \<longrightarrow> x = nv v)"

lemma drives_available:
  assumes "drives nv ns n g (\<lambda>x d. wire_name_of nv sig x \<and> d = 0)"
  shows "drives nv ns n (\<lambda>w. case map_of (available_sigs w) sig of Some name \<Rightarrow> Inr (name, w) | None \<Rightarrow> g w)
    (\<lambda>x d. wire_name_of nv sig x \<and> d = 0)"
proof -
  have *: "tables_ok w' \<and> grows w w' \<and> (agrees nv ns w' \<longrightarrow> wire_name_of nv sig x \<and> net n w' - net n w = 0)"
    if w: "tables_ok w" and r: "(case map_of (available_sigs w) sig of Some name \<Rightarrow> Inr (name, w) | None \<Rightarrow> g w) = Inr (x, w')" for w x w'
  proof (cases "map_of (available_sigs w) sig")
    case None
    then show ?thesis using r drivesD [OF assms w] by simp
  next
    case (Some k)
    then have e: "(sig, x) \<in> set (available_sigs w)" "w' = w" using r by (auto dest: map_of_SomeD)
    then have "(v, x) \<in> set (wires w)" if "whole_wire sig = Some v" for v
      using w that unfolding tables_ok_def by blast
    then show ?thesis using w e(2) agrees_wire unfolding wire_name_of_def by auto
  qed
  show ?thesis unfolding drives_def using * by blast
qed


lemma drives_convert_chunk:
  assumes c: "chunk_ok c"
  shows "drives nv ns n (convert_chunk c) (\<lambda>x d. wire_name_of nv (chunk_bits c) x \<and> d = 0)"
  unfolding convert_chunk_def
proof (rule drives_available, cases "cwire c")
  case None
  then have "wire_name_of nv (chunk_bits c) x" for x by (simp add: wire_name_of_def whole_wire_chunk [OF c])
  then show "drives nv ns n (case cwire c of Some v \<Rightarrow>
      if wire_width v = cwidth c then bindW (get_wire v) (\<lambda>n. bindW (emplace_sig (chunk_bits c) n) (\<lambda>_. retW n))
      else bindW (temp (cwidth c)) (\<lambda>chunk_name. bindW (get_wire v) (\<lambda>n.
        bindW (emitW (SLICE chunk_name n (coffset c) (cwidth c))) (\<lambda>_.
        bindW (emplace_sig (chunk_bits c) chunk_name) (\<lambda>_. retW chunk_name))))
    | None \<Rightarrow> get_const (Const_bits (cdata c))) (\<lambda>x d. wire_name_of nv (chunk_bits c) x \<and> d = 0)"
    unfolding None option.case by (intro drives_conseq [OF drives_get_const]) simp
next
  case (Some v)
  note w = whole_wire_chunk [OF c, unfolded Some option.case]
  have "drives nv ns n (bindW (temp (cwidth c)) (\<lambda>chunk_name. bindW (get_wire v) (\<lambda>n.
        bindW (emitW (SLICE chunk_name n (coffset c) (cwidth c))) (\<lambda>_.
        bindW (emplace_sig (chunk_bits c) chunk_name) (\<lambda>_. retW chunk_name))))) (\<lambda>x d. wire_name_of nv (chunk_bits c) x \<and> d = 0)"
    if "wire_width v \<noteq> cwidth c"
    by (rule drives_bind [OF drives_temp], rule drives_bind [OF drives_get_wire], rule drives_bind [OF drives_emit],
        rule drives_bind [OF drives_emplace], simp add: w that, rule drives_conseq [OF drives_ret])
      (simp add: wire_name_of_def w that)
  moreover have "drives nv ns n (bindW (get_wire v) (\<lambda>n. bindW (emplace_sig (chunk_bits c) n) (\<lambda>_. retW n)))
      (\<lambda>x d. wire_name_of nv (chunk_bits c) x \<and> d = 0)" if "wire_width v = cwidth c"
    by (rule drives_conseq [OF drives_whole_wire [of _ v]]) (simp_all add: wire_name_of_def w that)
  ultimately show "drives nv ns n (case cwire c of Some v \<Rightarrow>
      if wire_width v = cwidth c then bindW (get_wire v) (\<lambda>n. bindW (emplace_sig (chunk_bits c) n) (\<lambda>_. retW n))
      else bindW (temp (cwidth c)) (\<lambda>chunk_name. bindW (get_wire v) (\<lambda>n.
        bindW (emitW (SLICE chunk_name n (coffset c) (cwidth c))) (\<lambda>_.
        bindW (emplace_sig (chunk_bits c) chunk_name) (\<lambda>_. retW chunk_name))))
    | None \<Rightarrow> get_const (Const_bits (cdata c))) (\<lambda>x d. wire_name_of nv (chunk_bits c) x \<and> d = 0)"
    unfolding Some option.case by (rule drives_if [rotated])
qed

lemma drives_concat_step:
  assumes "chunk_ok c" "whole_wire (s @ chunk_bits c) = None"
  shows "drives nv ns n (concat_step (s, r, p) c) (\<lambda>_ d. d = 0)"
  unfolding concat_step_def Let_def prod.case
  by (rule drives_bind [OF drives_temp], rule drives_bind [OF drives_temp], rule drives_bind [OF drives_emit],
      rule drives_bind [OF drives_convert_chunk [OF assms(1)]], rule drives_bind [OF drives_emit], rule drives_bind [OF drives_temp],
      rule drives_bind [OF drives_lift], rule drives_bind [OF drives_get_const], rule drives_bind [OF drives_emit],
      rule drives_bind [OF drives_temp], rule drives_bind [OF drives_emit], rule drives_bind [OF drives_emplace [OF assms(2)]],
      rule drives_conseq [OF drives_ret]) simp

lemma breaks_append: "breaks (xs @ ys) \<Longrightarrow> breaks xs"
  by (induction xs rule: breaks.induct) auto

lemma drives_concat:
  assumes "list_all chunk_ok (ps @ cs)" "breaks (ps @ cs)" "ps \<noteq> []" "s = concat (map chunk_bits ps)"
  shows "drives nv ns n (foldW concat_step (s, r, p) cs) (\<lambda>_ d. d = 0)"
  using assms
proof (induction cs arbitrary: ps s r p)
  case Nil
  show ?case unfolding foldW.simps by (rule drives_conseq [OF drives_ret]) simp
next
  case (Cons c cs)
  have b: "breaks (ps @ [c])" using breaks_append [of "ps @ [c]" cs] Cons.prems(2) by simp
  have "whole_wire (concat (map chunk_bits (ps @ [c]))) = None"
    by (rule whole_wire_concat) (use Cons.prems b in \<open>cases ps; auto\<close>)+
  then have "drives nv ns n (concat_step (s, r, p) c) (\<lambda>_ d. d = 0)"
    using Cons.prems by (intro drives_concat_step) simp_all
  then show ?case
    unfolding foldW.simps
  proof (rule drives_bind_pure)
    show "\<exists>r k. x = (s @ chunk_bits c, r, k)" if "concat_step (s, r, p) c w = Inr (x, w')" for w x w'
      using concat_step_result [OF that] by blast
    fix x :: "sigbit list \<times> rname \<times> int" assume "\<exists>r k. x = (s @ chunk_bits c, r, k)"
    then obtain r' k where x: "x = (s @ chunk_bits c, r', k)" by blast
    have "drives nv ns n (foldW concat_step x cs) (\<lambda>_ d. d = 0)"
      unfolding x by (rule Cons.IH [of "ps @ [c]"]) (use Cons.prems in simp_all)
    then show "drives nv ns n (foldW concat_step x cs) (\<lambda>y d. \<forall>e. e = 0 \<longrightarrow> e + d = 0)"
      by (rule drives_conseq) simp
  qed
qed

lemma drives_convert_sig:
  assumes b: "list_all bit_ok sig"
  shows "drives nv ns n (convert_sig sig) (\<lambda>x d. wire_name_of nv sig x \<and> d = 0)"
  unfolding convert_sig_def
proof (rule drives_available, cases "whole_wire sig")
  case (Some v)
  then show "drives nv ns n (case whole_wire sig of Some v \<Rightarrow> get_wire v | None \<Rightarrow>
      (case canon sig of [] \<Rightarrow> (\<lambda>w. Inl Assert_failed)
       | c # cs \<Rightarrow> bindW (convert_chunk c) (\<lambda>prev_res. if cs = [] then retW prev_res
           else bindW (emitW (Comment_sig sig)) (\<lambda>_. bindW (foldW concat_step (chunk_bits c, prev_res, cwidth c) cs) (\<lambda>(_, res, _). retW res)))))
      (\<lambda>x d. wire_name_of nv sig x \<and> d = 0)"
    unfolding Some option.case by (intro drives_conseq [OF drives_get_wire]) (simp add: wire_name_of_def Some)
next
  case None
  then have wn: "wire_name_of nv sig x" for x by (simp add: wire_name_of_def)
  note k = canon_ok [OF b]
  have cs: "drives nv ns n (bindW (convert_chunk c) (\<lambda>prev_res. if cs = [] then retW prev_res
      else bindW (emitW (Comment_sig sig)) (\<lambda>_. bindW (foldW concat_step (chunk_bits c, prev_res, cwidth c) cs) (\<lambda>(_, res, _). retW res))))
      (\<lambda>x d. wire_name_of nv sig x \<and> d = 0)" if "canon sig = c # cs" for c cs
  proof -
    have f: "drives nv ns n (foldW concat_step (chunk_bits c, r, cwidth c) cs) (\<lambda>_ d. d = 0)" for r
      by (rule drives_concat [of "[c]"]) (use k that in simp_all)
    show ?thesis
      by (rule drives_bind [OF drives_convert_chunk], use k that in simp, rule drives_if, rule drives_conseq [OF drives_ret], simp add: wn,
          rule drives_bind [OF drives_emit], rule drives_bind [OF f], (rule drives_pair)+, rule drives_conseq [OF drives_ret], simp add: wn)
  qed
  show "drives nv ns n (case whole_wire sig of Some v \<Rightarrow> get_wire v | None \<Rightarrow>
      (case canon sig of [] \<Rightarrow> (\<lambda>w. Inl Assert_failed)
       | c # cs \<Rightarrow> bindW (convert_chunk c) (\<lambda>prev_res. if cs = [] then retW prev_res
           else bindW (emitW (Comment_sig sig)) (\<lambda>_. bindW (foldW concat_step (chunk_bits c, prev_res, cwidth c) cs) (\<lambda>(_, res, _). retW res)))))
      (\<lambda>x d. wire_name_of nv sig x \<and> d = 0)"
    unfolding None option.case by (cases "canon sig") (simp_all only: list.case drives_fail cs)
qed


section \<open>Operands\<close>

definition ports_ok :: "cell_t \<Rightarrow> bool" where
  "ports_ok cell \<longleftrightarrow> list_all (\<lambda>(p, s). list_all bit_ok s) (cell_ports cell)"

lemma ports_okD: "ports_ok cell \<Longrightarrow> getPort cell p = Inr s \<Longrightarrow> list_all bit_ok s"
  by (auto simp: ports_ok_def getPort_def list_all_iff split: option.splits dest!: map_of_SomeD)

definition port_wire :: "(wire_t \<Rightarrow> rname) \<Rightarrow> cell_t \<Rightarrow> string \<Rightarrow> rname \<Rightarrow> bool" where
  "port_wire nv cell p x \<longleftrightarrow> (\<forall>s v. getPort cell p = Inr s \<longrightarrow> whole_wire s = Some v \<longrightarrow> x = nv v)"

lemma drives_lift_bind: "(\<And>x. r = Inr x \<Longrightarrow> drives nv ns n (f x) P) \<Longrightarrow> drives nv ns n (bindW (liftW r) f) P"
  by (cases r) (simp_all add: bindW_def liftW_def drives_def)

lemmas drives_struct = drives_lift_bind drives_bind drives_guard drives_if drives_pair

abbreviation balanced :: "(wire_t \<Rightarrow> rname) \<Rightarrow> (nat \<Rightarrow> rname \<times> rname) \<Rightarrow> rname \<Rightarrow> 'a wm \<Rightarrow> bool" where
  "balanced nv ns n m \<equiv> drives nv ns n m (\<lambda>_ d. d = 0)"

lemma drives_port_name [drive_rules]:
  "ports_ok cell \<Longrightarrow> drives nv ns n (port_name cell p) (\<lambda>x d. port_wire nv cell p x \<and> d = 0)"
  unfolding port_name_def
  by (rule drives_lift_bind, rule drives_conseq [OF drives_convert_sig]) (auto dest: ports_okD simp: wire_name_of_def port_wire_def)

lemma balanced_sig [drive_rules]: "list_all bit_ok sig \<Longrightarrow> balanced nv ns n (convert_sig sig)"
  by (rule drives_conseq [OF drives_convert_sig]) simp_all

lemma balanced_consts [drive_rules]: "balanced nv ns n (const_rep s k)" "balanced nv ns n (const_num v k)"
  unfolding const_rep_def const_num_def by (rule drives_lift_bind, rule drives_get_const)+

lemma balanced_extensions [drive_rules]:
  "list_all bit_ok sig \<Longrightarrow> balanced nv ns n (padConvert sig k)" "list_all bit_ok sig \<Longrightarrow> balanced nv ns n (sextConvert sig k)"
  unfolding padConvert_def sextConvert_def
  by ((rule drives_struct | rule drive_rules | (rule drives_conseq, rule drive_rules) | (simp; fail))+)


lemma bits_ok_parts: "list_all bit_ok sig \<Longrightarrow> list_all bit_ok (take k sig)" "list_all bit_ok sig \<Longrightarrow> list_all bit_ok (drop k sig)"
  by (auto simp: list_all_iff dest: in_set_takeD in_set_dropD)

lemma balanced_extend [drive_rules]:
  "list_all bit_ok sig \<Longrightarrow> balanced nv ns n (extendOrSlice sig k sg)" "ports_ok cell \<Longrightarrow> balanced nv ns n (extend_port cell p k sg)"
  unfolding extendOrSlice_def extend_port_def
  by ((rule drives_struct | rule drive_rules | (rule drives_conseq, rule drive_rules) | (simp add: bits_ok_parts; fail) | (erule (1) ports_okD))+)

lemma drives_compare [drive_rules]:
  "ports_ok cell \<Longrightarrow> drives nv ns n (mkSeq cell r) (\<lambda>_ d. d = of_bool (r = n))"
  "ports_ok cell \<Longrightarrow> drives nv ns n (mkCompare cell r b) (\<lambda>_ d. d = of_bool (r = n))"
  unfolding mkSeq_def mkCompare_def
  by ((rule drives_struct | rule drive_rules | (rule drives_conseq, rule drive_rules) | (simp; fail))+)

lemma balanced_headers [drive_rules]:
  "ports_ok cell \<Longrightarrow> balanced nv ns n (convertBinaryOperands cell)"
  "balanced nv ns n (shift_header cell)"
  unfolding convertBinaryOperands_def shift_header_def
  by ((rule drives_struct | rule drive_rules | (rule drives_conseq, rule drive_rules) | (simp; fail) | (erule (1) ports_okD))+)

lemma drives_unary_header [drive_rules]:
  "ports_ok cell \<Longrightarrow> drives nv ns n (unary_header cell) (\<lambda>(_, _, _, y) d. port_wire nv cell ''Y'' y \<and> d = 0)"
  unfolding unary_header_def
  by ((rule drives_struct | rule drive_rules | (rule drives_conseq, rule drive_rules) | (simp; fail))+)

lemma drives_to_bool_port:
  assumes "\<And>r. drives nv ns n (f r) (\<lambda>_ d. d = of_bool (r = n))"
  shows "drives nv ns n (to_bool_port k y f) (\<lambda>_ d. d = of_bool (y = n))"
  unfolding to_bool_port_def
  by ((rule drives_struct | rule drive_rules assms | (rule drives_conseq, rule drive_rules assms) | (simp; fail))+)

lemma drives_move_bool [drive_rules]: "drives nv ns n (move_bool k y r) (\<lambda>_ d. d = of_bool (y = n))"
  unfolding move_bool_def
  by ((rule drives_struct | rule drive_rules | (rule drives_conseq, rule drive_rules) | (simp; fail))+)

lemma balanced_xor_steps: "balanced nv ns n (xor_step a p i)" "balanced nv ns n (xnor_step a t p i)"
  unfolding xor_step_def xnor_step_def
  by ((rule drives_struct | rule drive_rules | (rule drives_conseq, rule drive_rules) | (simp; fail))+)

lemma balanced_xor_folds [drive_rules]: "balanced nv ns n (foldW (xor_step a) p is)" "balanced nv ns n (foldW (xnor_step a t) p is)"
  by (rule drives_fold, rule balanced_xor_steps)+

lemma balanced_pmux_step:
  assumes "list_all bit_ok B" "list_all bit_ok S" "0 \<le> i"
  shows "balanced nv ns n (pmux_step k B S acc i)"
proof -
  have s: "bit_ok (S ! nat i)" if "i < int (length S)"
    using assms(2,3) that by (auto simp: list_all_length)
  show ?thesis
    unfolding pmux_step_def
    by ((rule drives_struct | rule drive_rules | (rule drives_conseq, rule drive_rules) | (simp add: bits_ok_parts assms s; fail))+)
qed

lemma balanced_pmux_fold [drive_rules]:
  "list_all bit_ok B \<Longrightarrow> list_all bit_ok S \<Longrightarrow> balanced nv ns n (foldW (pmux_step k B S) acc [0..m])"
  by (rule drives_fold, rule balanced_pmux_step) auto

section \<open>Cells\<close>

text \<open>A cell that drives the whole wire \<open>v\<close> at its port \<open>Y\<close> writes the name of \<open>v\<close> once, and nothing else but temporaries.\<close>

definition drives_wire :: "cell_t \<Rightarrow> string \<Rightarrow> wire_t \<Rightarrow> bool" where
  "drives_wire cell p v \<longleftrightarrow> ports_ok cell \<and> (\<exists>Y. getPort cell p = Inr Y \<and> whole_wire Y = Some v)"

lemma port_wire_iff: "drives_wire cell p v \<Longrightarrow> port_wire nv cell p x \<longleftrightarrow> x = nv v"
  by (auto simp: drives_wire_def port_wire_def)

lemma drives_wire_ports: "drives_wire cell p v \<Longrightarrow> ports_ok cell"
  by (simp add: drives_wire_def)

lemma drives_unary [drive_rules]:
  assumes "drives_wire cell ''Y'' v"
  shows "drives nv ns n (convert_not cell) (\<lambda>_ d. d = of_bool (nv v = n))"
    "drives nv ns n (convert_neg cell) (\<lambda>_ d. d = of_bool (nv v = n))"
    "drives nv ns n (convert_reduce_and cell) (\<lambda>_ d. d = of_bool (nv v = n))"
    "drives nv ns n (convert_reduce_or cell) (\<lambda>_ d. d = of_bool (nv v = n))"
    "drives nv ns n (convert_logic_not cell) (\<lambda>_ d. d = of_bool (nv v = n))"
    "drives nv ns n (convert_reduce_xor cell) (\<lambda>_ d. d = of_bool (nv v = n))"
  unfolding convert_not_def convert_neg_def convert_reduce_and_def convert_reduce_or_def convert_logic_not_def convert_reduce_xor_def
  by ((rule drives_struct | rule drive_rules drives_to_bool_port drives_wire_ports [OF assms] |
      (rule drives_conseq, rule drive_rules drives_to_bool_port) | (simp add: port_wire_iff [OF assms]; fail))+)

lemma drives_pos [drive_rules]:
  assumes "drives_wire cell ''Y'' v"
  shows "drives nv ns n (convert_pos cell) (\<lambda>_ d. d = of_bool (nv v = n))"
  unfolding convert_pos_def
  by ((rule drives_struct | rule drive_rules drives_wire_ports [OF assms] |
      (rule drives_conseq, rule drive_rules) | (simp add: port_wire_iff [OF assms]; fail))+)


lemma drives_reduce_xnor [drive_rules]:
  assumes "drives_wire cell ''Y'' v"
  shows "drives nv ns n (convert_reduce_xnor cell) (\<lambda>_ d. d = of_bool (nv v = n))"
proof -
  have f: "drives nv ns n (if odd_width then bindW (temp 1) (\<lambda>prevbit. bindW (emitW (SLICE prevbit a 0 1)) (\<lambda>_.
      emitW (BINOP OP_XOR prevres prevbit t))) else emitW (SLICE prevres a 0 1)) (\<lambda>_ d. d = of_bool (prevres = n))" for odd_width a prevres t
    by ((rule drives_struct | rule drive_rules | (rule drives_conseq, rule drive_rules) | (simp; fail))+)
  show ?thesis
    unfolding convert_reduce_xnor_def
    by ((rule drives_bind [OF f] | rule drives_struct | rule drive_rules drives_wire_ports [OF assms] |
        (rule drives_conseq, rule drive_rules) | (simp add: port_wire_iff [OF assms]; fail))+)
qed

lemma drives_binary [drive_rules]:
  assumes "drives_wire cell ''Y'' v"
  shows "drives nv ns n (convert_binary b cell) (\<lambda>_ d. d = of_bool (nv v = n))"
    "drives nv ns n (convert_xnor cell) (\<lambda>_ d. d = of_bool (nv v = n))"
    "drives nv ns n (convert_eq cell) (\<lambda>_ d. d = of_bool (nv v = n))"
    "drives nv ns n (convert_ne cell) (\<lambda>_ d. d = of_bool (nv v = n))"
    "drives nv ns n (convert_lt_gt cell) (\<lambda>_ d. d = of_bool (nv v = n))"
    "drives nv ns n (convert_le_ge cell) (\<lambda>_ d. d = of_bool (nv v = n))"
  unfolding convert_binary_def convert_xnor_def convert_eq_def convert_ne_def convert_lt_gt_def convert_le_ge_def
  by ((rule drives_struct | rule drive_rules drives_to_bool_port drives_wire_ports [OF assms] |
      (rule drives_conseq, rule drive_rules drives_to_bool_port) | (simp add: port_wire_iff [OF assms]; fail))+)

lemma drives_logic [drive_rules]:
  assumes "drives_wire cell ''Y'' v"
  shows "drives nv ns n (convert_logic cell) (\<lambda>_ d. d = of_bool (nv v = n))"
  unfolding convert_logic_def
  by ((rule drives_struct | rule drive_rules drives_to_bool_port drives_wire_ports [OF assms] |
      (rule drives_conseq, rule drive_rules drives_to_bool_port) | (simp add: port_wire_iff [OF assms]; fail))+)

lemma drives_muxes [drive_rules]:
  assumes "drives_wire cell ''Y'' v"
  shows "drives nv ns n (convert_mux cell) (\<lambda>_ d. d = of_bool (nv v = n))"
    "drives nv ns n (convert_pmux cell) (\<lambda>_ d. d = of_bool (nv v = n))"
  unfolding convert_mux_def convert_pmux_def
  by ((rule drives_struct | rule drive_rules drives_wire_ports [OF assms] | (erule ports_okD [OF drives_wire_ports [OF assms]]) |
      (rule drives_conseq, rule drive_rules) | (simp add: port_wire_iff [OF assms]; fail))+)

lemma drives_shifts [drive_rules]:
  assumes "drives_wire cell ''Y'' v"
  shows "drives nv ns n (convert_shift b cell) (\<lambda>_ d. d = of_bool (nv v = n))"
    "drives nv ns n (convert_sshr cell) (\<lambda>_ d. d = of_bool (nv v = n))"
  unfolding convert_shift_def convert_sshr_def
  by ((rule drives_struct | rule drive_rules drives_wire_ports [OF assms] |
      (rule drives_conseq, rule drive_rules) | (simp add: port_wire_iff [OF assms]; fail))+)

text \<open>A register writes its output wire and its next value.\<close>

lemma drives_dff:
  assumes "drives_wire cell ''Q'' v"
  shows "drives nv ns n (convert_dff cell) (\<lambda>_ d. d = of_bool (nv v = n) + of_bool (snd (ns (cell_ptr cell)) = n))"
  unfolding convert_dff_def
  by ((rule drives_struct | rule drive_rules drives_wire_ports [OF assms] |
      (rule drives_conseq, rule drive_rules) | (simp add: port_wire_iff [OF assms]; fail))+)


lemma drives_convert_cell:
  assumes "drives_wire cell ''Y'' v" "cell_type cell \<notin> {''$memwr_v2'', ''$memrd_v2'', ''$dff'', ''$manticore''}"
  shows "drives nv ns n (convert_cell cell) (\<lambda>_ d. d = of_bool (nv v = n))"
  using assms(2) unfolding convert_cell_def Let_def
  by - ((rule drives_lift_bind drives_bind [OF drives_emit] drives_if | (simp; fail) | (rule drives_conseq, rule drive_rules, rule assms(1)) |
      rule drive_rules)+)

lemma drives_convert_dff_cell:
  assumes "drives_wire cell ''Q'' v" "cell_type cell = ''$dff''"
  shows "drives nv ns n (convert_cell cell) (\<lambda>_ d. d = of_bool (nv v = n) + of_bool (snd (ns (cell_ptr cell)) = n))"
proof -
  have e: "convert_cell cell = bindW (emitW (Comment_cell (log_id (cell_name cell)) (log_id (cell_type cell)))) (\<lambda>_. convert_dff cell)"
    by (simp add: convert_cell_def assms(2))
  show ?thesis
    unfolding e by (rule drives_bind [OF drives_emit], rule drives_conseq [OF drives_dff [OF assms(1)]]) simp
qed

lemma balanced_postponed:
  assumes "cell_type cell = ''$manticore''"
  shows "balanced nv ns n (convert_cell cell)"
proof -
  have p: "balanced nv ns n (\<lambda>w. Inr ((), w\<lparr>syscalls := syscalls w @ [cell]\<rparr>))"
    by (rule drivesI) (auto simp: grows_def net_def assignments_def intro: tables_ok_same)
  have e: "convert_cell cell = bindW (emitW (Comment_cell (log_id (cell_name cell)) (log_id (cell_type cell))))
      (\<lambda>_. \<lambda>w. Inr ((), w\<lparr>syscalls := syscalls w @ [cell]\<rparr>))"
    by (simp add: convert_cell_def assms)
  show ?thesis
    unfolding e by (rule drives_bind [OF drives_emit], rule drives_conseq [OF p]) simp
qed

section \<open>System calls and connections\<close>

lemma balanced_display_args:
  assumes "list_all bit_ok rest"
  shows "balanced nv ns n (foldW (display_arg cell en) rest ss)"
  using assms
proof (induction ss arbitrary: rest)
  case Nil
  show ?case unfolding foldW.simps by (rule drives_conseq [OF drives_ret]) simp
next
  case (Cons s ss)
  have 1: "balanced nv ns n (display_arg cell en rest s)"
    unfolding display_arg_def
    by ((rule drives_struct | rule drive_rules drives_emit_ordered | (rule drives_conseq, rule drive_rules drives_emit_ordered) |
        (simp add: bits_ok_parts Cons.prems; fail))+)
  show ?case
    unfolding foldW.simps
  proof (rule drives_bind_pure [OF 1])
    show "\<exists>k. r = drop k rest" if "display_arg cell en rest s w = Inr (r, w')" for w r w'
      using that unfolding display_arg_def guardW_def by (auto elim!: bindW_InrE simp: liftW_def retW_def split: if_splits sum.splits)
    fix r assume "\<exists>k. r = drop k rest"
    then have "balanced nv ns n (foldW (display_arg cell en) r ss)" using Cons.IH Cons.prems bits_ok_parts(2) by blast
    then show "drives nv ns n (foldW (display_arg cell en) r ss) (\<lambda>y d. \<forall>e. e = 0 \<longrightarrow> e + d = 0)"
      by (rule drives_conseq) simp
  qed
qed

lemma balanced_convertSyscall:
  assumes "ports_ok cell"
  shows "balanced nv ns n (convertSyscall cell)"
  unfolding convertSyscall_def Let_def
  by ((rule drives_struct | rule drive_rules drives_emit_ordered balanced_display_args assms | (erule ports_okD [OF assms]) |
      (rule drives_conseq, rule drive_rules drives_emit_ordered balanced_display_args) | (simp; fail))+)

lemma drives_connection:
  assumes "list_all bit_ok l" "list_all bit_ok r" "whole_wire l = Some v"
  shows "drives nv ns n (convert_connection (l, r)) (\<lambda>_ d. d = of_bool (nv v = n))"
  unfolding convert_connection_def fst_conv snd_conv
  by (rule drives_bind [OF drives_emit], rule drives_bind [OF drives_convert_sig [OF assms(1)]],
      rule drives_bind [OF drives_convert_sig [OF assms(2)]], rule drives_conseq [OF drives_emit]) (simp add: wire_name_of_def assms(3))

lemma drives_fold_sum:
  assumes "\<And>x. x \<in> set xs \<Longrightarrow> drives nv ns n (f x) (\<lambda>_ d. d = g x)"
  shows "drives nv ns n (foldW (\<lambda>_. f) () xs) (\<lambda>_ d. d = (\<Sum>x\<leftarrow>xs. g x))"
  using assms
proof (induction xs)
  case Nil
  show ?case unfolding foldW.simps by (rule drives_conseq [OF drives_ret]) simp
next
  case (Cons x xs)
  have 1: "drives nv ns n (f x) (\<lambda>_ d. d = g x)" by (rule Cons.prems) simp
  have 2: "drives nv ns n (foldW (\<lambda>_. f) () xs) (\<lambda>_ d. d = (\<Sum>x\<leftarrow>xs. g x))" by (rule Cons.IH, rule Cons.prems) simp
  have "drives nv ns n (foldW (\<lambda>_. f) u xs) (\<lambda>y d. \<forall>e. e = g x \<longrightarrow> e + d = (\<Sum>x\<leftarrow>x # xs. g x))" for u :: unit
    unfolding unit_eq [of u] by (rule drives_conseq [OF 2]) simp
  then show ?case
    unfolding foldW.simps by (rule drives_bind [OF 1])
qed

section \<open>The module\<close>

definition cell_output :: "cell_t \<Rightarrow> wire_t option" where
  "cell_output c = (case getPort c (if cell_type c = ''$dff'' then ''Q'' else ''Y'') of Inl _ \<Rightarrow> None | Inr s \<Rightarrow> whole_wire s)"

text \<open>Every cell but a system call has a whole wire as its output, every connection one on its left, and all ports are made of bits of wires:
  what \<open>manticore_subword\<close> leaves.\<close>

definition whole_outputs :: "module_t \<Rightarrow> bool" where
  "whole_outputs m \<longleftrightarrow>
     (\<forall>c\<in>set (mod_cells m). ports_ok c \<and> (cell_type c \<noteq> ''$manticore'' \<longrightarrow> cell_output c \<noteq> None)) \<and>
     (\<forall>(l, r)\<in>set (mod_connections m). whole_wire l \<noteq> None)"

definition wire_drivers :: "module_t \<Rightarrow> wire_t \<Rightarrow> nat" where
  "wire_drivers m v =
     length (filter (\<lambda>c. cell_type c \<noteq> ''$manticore'' \<and> cell_output c = Some v) (mod_cells m)) +
     length (filter (\<lambda>(l, r). whole_wire l = Some v) (mod_connections m))"

definition reg_drivers :: "module_t \<Rightarrow> nat \<Rightarrow> nat" where
  "reg_drivers m p = length (filter (\<lambda>c. cell_type c = ''$dff'' \<and> cell_ptr c = p) (mod_cells m))"

definition driven :: "module_t \<Rightarrow> writer \<Rightarrow> bool" where
  "driven m w \<longleftrightarrow>
     (\<forall>v. wire_drivers m v = (case map_of (wires w) v of Some n \<Rightarrow> assignments w n | None \<Rightarrow> 0)) \<and>
     (\<forall>p. reg_drivers m p = (case map_of (states w) p of Some (q, d) \<Rightarrow> assignments w d | None \<Rightarrow> 0)) \<and>
     (\<forall>(p, q, d)\<in>set (states w). assignments w q = 0) \<and>
     (\<forall>d\<in>set (wdefs w). \<forall>r\<in>set (temp_names d). assignments w r = 1) \<and>
     (\<forall>c\<in>set (cdefs w). assignments w (consti_name c) = 0)"

text \<open>The balance a cell and a connection add to a name.\<close>

definition cell_amount :: "(wire_t \<Rightarrow> rname) \<Rightarrow> (nat \<Rightarrow> rname \<times> rname) \<Rightarrow> rname \<Rightarrow> cell_t \<Rightarrow> int" where
  "cell_amount nv ns n c = (if cell_type c = ''$manticore'' then 0
     else of_bool (nv (the (cell_output c)) = n) + of_bool (cell_type c = ''$dff'' \<and> snd (ns (cell_ptr c)) = n))"

definition total :: "(wire_t \<Rightarrow> rname) \<Rightarrow> (nat \<Rightarrow> rname \<times> rname) \<Rightarrow> rname \<Rightarrow> module_t \<Rightarrow> int" where
  "total nv ns n m = (\<Sum>c\<leftarrow>mod_cells m. cell_amount nv ns n c) +
     (\<Sum>x\<leftarrow>mod_connections m. of_bool (nv (the (whole_wire (fst x))) = n))"

lemma cell_means_type: "cell_means m c M \<Longrightarrow> cell_type c \<notin> {''$memwr_v2'', ''$memrd_v2'', ''$manticore''}"
  by (erule cell_means.cases) (auto simp: binary_ops_def logic_ops_def shift_ops_def unary_ops_def dff_cell_def)

lemma drives_cell:
  assumes "ports_ok c" "cell_type c \<noteq> ''$manticore'' \<longrightarrow> cell_known m c \<and> cell_output c \<noteq> None"
  shows "drives nv ns n (convert_cell c) (\<lambda>_ d. d = cell_amount nv ns n c)"
proof (cases "cell_type c = ''$manticore''")
  case True
  then show ?thesis using balanced_postponed [OF True] by (simp add: cell_amount_def)
next
  case False
  then obtain v where v: "cell_output c = Some v" "cell_known m c" using assms(2) by auto
  have t: "cell_type c \<notin> {''$memwr_v2'', ''$memrd_v2'', ''$manticore''}"
    using v(2) cell_means_type unfolding cell_known_def by blast
  show ?thesis
  proof (cases "cell_type c = ''$dff''")
    case dff: True
    have "drives_wire c ''Q'' v"
      using v(1) assms(1) by (auto simp: cell_output_def drives_wire_def dff split: sum.splits)
    from drives_convert_dff_cell [OF this dff] show ?thesis by (simp add: cell_amount_def v dff)
  next
    case other: False
    have "drives_wire c ''Y'' v"
      using v(1) assms(1) other by (auto simp: cell_output_def drives_wire_def split: sum.splits)
    from drives_convert_cell [OF this] show ?thesis using t other by (simp add: cell_amount_def v)
  qed
qed

lemma generate_balance:
  assumes ok: "module_ok sem m" "whole_outputs m" and g: "generate (writer_new m) = Inr (u, w)"
  shows "tables_ok w" "agrees nv ns w \<Longrightarrow> net n w = total nv ns n m"
proof -
  have mem: "mod_memories m = []" using ok(1) by (simp add: module_ok_def)
  obtain w1 cs w2 w3 where 1: "foldW (\<lambda>_. convert_cell) () (mod_cells m) (writer_new m) = Inr ((), w1)"
    and sys: "syscalls w1 = filter (\<lambda>c. cell_type c = ''$manticore'') (mod_cells m)"
    and s: "sort_cells ''ORDER'' (syscalls w1) = Inr cs"
    and 2: "foldW (\<lambda>_. convertSyscall) () cs (w1\<lparr>syscalls := cs\<rparr>) = Inr ((), w2)"
    and 3: "foldW (\<lambda>_. convertMemoryCell) () (mod_memories m) w2 = Inr ((), w3)"
    and 4: "foldW (\<lambda>_. convert_connection) () (mod_connections m) w3 = Inr ((), w)"
    by (rule generate_steps [OF g])
  have w3: "w3 = w2" using 3 by (simp add: mem retW_def)
  have t0: "tables_ok (writer_new m)" "net n (writer_new m) = 0"
    by (simp_all add: tables_ok_def writer_new_def net_def assignments_def)
  have c1: "drives nv ns n (foldW (\<lambda>_. convert_cell) () (mod_cells m)) (\<lambda>_ d. d = (\<Sum>c\<leftarrow>mod_cells m. cell_amount nv ns n c))"
  proof (rule drives_fold_sum, rule drives_cell [of _ m])
    fix c assume c: "c \<in> set (mod_cells m)"
    show "ports_ok c" using c ok(2) by (simp add: whole_outputs_def)
    show "cell_type c \<noteq> ''$manticore'' \<longrightarrow> cell_known m c \<and> cell_output c \<noteq> None"
      using c ok by (auto simp: whole_outputs_def module_ok_def)
  qed
  note d1 = drivesD [OF c1 t0(1) 1]
  let ?w1 = "w1\<lparr>syscalls := cs\<rparr>"
  have t1: "tables_ok ?w1" "net n ?w1 = net n w1" by (rule tables_ok_same [OF d1(1)]) (simp_all add: net_def assignments_def)
  have "set cs = set (syscalls w1)" by (rule mset_eq_setD [OF conjunct1 [OF sort_cells_Inr [OF s]]])
  then have "ports_ok c" if "c \<in> set cs" for c
    using that ok(2) unfolding sys whole_outputs_def by auto
  then have c2: "balanced nv ns n (foldW (\<lambda>_. convertSyscall) () cs)"
    by (intro drives_fold balanced_convertSyscall)
  note d2 = drivesD [OF c2 t1(1) 2]
  have c4: "drives nv ns n (foldW (\<lambda>_. convert_connection) () (mod_connections m))
      (\<lambda>_ d. d = (\<Sum>x\<leftarrow>mod_connections m. of_bool (nv (the (whole_wire (fst x))) = n)))"
  proof (rule drives_fold_sum)
    fix x assume x: "x \<in> set (mod_connections m)"
    obtain l r where lr: "x = (l, r)" by (cases x)
    have "sig_ok l \<and> sig_ok r" using x ok(1) unfolding lr module_ok_def by auto
    moreover obtain v where "whole_wire l = Some v" using x ok(2) unfolding lr whole_outputs_def by auto
    ultimately show "drives nv ns n (convert_connection x) (\<lambda>_ d. d = of_bool (nv (the (whole_wire (fst x))) = n))"
      using drives_connection [of l r v nv ns n] unfolding lr by (simp add: sig_ok_def)
  qed
  note d4 = drivesD [OF c4 d2(1) 4 [unfolded w3]]
  show "tables_ok w" by (rule d4(1))
  assume a: "agrees nv ns w"
  have a2: "agrees nv ns w2" by (rule agrees_grows [OF d4(2) a])
  have "agrees nv ns ?w1" by (rule agrees_grows [OF d2(2) a2])
  then have "agrees nv ns w1" by (simp add: agrees_def)
  then show "net n w = total nv ns n m"
    using d1(3) d2(3) [OF a2] d4(3) [OF a] t0(2) t1(2) unfolding total_def by simp
qed


section \<open>Names of different kinds\<close>

definition temps :: "writer \<Rightarrow> rname list" where
  "temps w = concat (map temp_names (wdefs w))"

lemma def_names_parts: "mset (concat (map def_names ds)) = mset (concat (map temp_names ds)) + mset (concat (map wire_names ds))"
proof (induction ds)
  case (Cons d ds)
  have "mset (def_names d) = mset (temp_names d) + mset (wire_names d)" by (cases d) simp_all
  then show ?case using Cons by simp
qed simp

lemma names_parts:
  assumes "names_inv w" "tables_ok w"
  shows "distinct (temps w @ map snd (wires w) @ concat (map reg_names (regs w)) @ map consti_name (cdefs w))"
    "set (temps w @ map snd (wires w) @ concat (map reg_names (regs w)) @ map consti_name (cdefs w)) \<subseteq> set (decl_names w)"
proof -
  have m: "mset (decl_names w) = mset (temps w @ map snd (wires w) @ concat (map reg_names (regs w)) @ map consti_name (cdefs w)) +
      mset (map memi_name (mems w))"
    using assms(2) by (simp add: decl_names_def temps_def tables_ok_def def_names_parts [simplified] ac_simps)
  have "distinct (decl_names w)" using assms(1) by (simp add: names_inv_def distinct_map)
  then have "distinct ((temps w @ map snd (wires w) @ concat (map reg_names (regs w)) @ map consti_name (cdefs w)) @ map memi_name (mems w))"
    using mset_eq_imp_distinct_iff m by (metis mset_append)
  then show "distinct (temps w @ map snd (wires w) @ concat (map reg_names (regs w)) @ map consti_name (cdefs w))"
    unfolding distinct_append by blast
  have "set (decl_names w) = set (temps w @ map snd (wires w) @ concat (map reg_names (regs w)) @ map consti_name (cdefs w)) \<union> set (map memi_name (mems w))"
    using arg_cong [OF m, of set_mset] by simp
  then show "set (temps w @ map snd (wires w) @ concat (map reg_names (regs w)) @ map consti_name (cdefs w)) \<subseteq> set (decl_names w)" by blast
qed

lemma reg_outputs_distinct: "distinct (concat (map reg_names gs)) \<Longrightarrow> distinct (map reg_output gs)"
  by (induction gs) (auto simp: reg_names_def)

lemma reg_names_kinds:
  "distinct (concat (map reg_names gs)) \<Longrightarrow> g \<in> set gs \<Longrightarrow> h \<in> set gs \<Longrightarrow> reg_input g \<noteq> reg_output h"
  by (induction gs) (auto simp: reg_names_def)

text \<open>No instruction writes an undeclared name.\<close>

lemma dst_names: "set (dst i) \<subseteq> set (instr_names i)"
  by (cases i) auto

lemma undeclared:
  assumes "names_inv w" "n \<notin> set (decl_names w)"
  shows "assignments w n = 0"
proof -
  have "n \<notin> set (dst i)" if "i \<in> set (instrs w)" for i
    using assms that dst_names [of i] unfolding names_inv_def by blast
  then show ?thesis by (simp add: assignments_def count_list_0_iff)
qed

definition no_name :: rname where
  "no_name = Rname CHR ''x'' (-1)"

lemma no_name_undeclared: "names_inv w \<Longrightarrow> no_name \<notin> set (decl_names w)"
  by (auto simp: names_inv_def no_name_def index_ok_def)

definition name_of_wire :: "writer \<Rightarrow> wire_t \<Rightarrow> rname" where
  "name_of_wire w v = (case map_of (wires w) v of Some n \<Rightarrow> n | None \<Rightarrow> no_name)"

definition names_of_reg :: "writer \<Rightarrow> nat \<Rightarrow> rname \<times> rname" where
  "names_of_reg w p = (case map_of (states w) p of Some qd \<Rightarrow> qd | None \<Rightarrow> (no_name, no_name))"

lemma final_agrees: "tables_ok w \<Longrightarrow> agrees (name_of_wire w) (names_of_reg w) w"
  by (auto simp: tables_ok_def agrees_def name_of_wire_def names_of_reg_def)


section \<open>Totals\<close>

lemma sum_of_bool: "(\<Sum>x\<leftarrow>xs. of_bool (P x)) = int (length (filter P xs))"
  by (induction xs) simp_all

lemma sum_list_congr: "(\<And>x. x \<in> set xs \<Longrightarrow> f x = g x) \<Longrightarrow> (\<Sum>x\<leftarrow>xs. f x) = (\<Sum>x\<leftarrow>xs. g x)"
  by (induction xs) simp_all

lemma total_wire:
  assumes "whole_outputs m" "\<And>u. nv u = n \<longleftrightarrow> u = v" "\<And>p. snd (ns p) \<noteq> n"
  shows "total nv ns n m = int (wire_drivers m v)"
proof -
  have "(\<Sum>c\<leftarrow>mod_cells m. cell_amount nv ns n c) = (\<Sum>c\<leftarrow>mod_cells m. of_bool (cell_type c \<noteq> ''$manticore'' \<and> cell_output c = Some v))"
    by (rule sum_list_congr) (use assms in \<open>auto simp: cell_amount_def whole_outputs_def\<close>)
  moreover have "(\<Sum>x\<leftarrow>mod_connections m. of_bool (nv (the (whole_wire (fst x))) = n)) =
      (\<Sum>x\<leftarrow>mod_connections m. (of_bool (case x of (l, r) \<Rightarrow> whole_wire l = Some v) :: int))"
    by (rule sum_list_congr) (use assms in \<open>auto simp: whole_outputs_def\<close>)
  ultimately show ?thesis by (simp add: total_def wire_drivers_def sum_of_bool)
qed

lemma total_reg:
  assumes "\<And>u. nv u \<noteq> n" "\<And>k. snd (ns k) = n \<longleftrightarrow> k = p"
  shows "total nv ns n m = int (reg_drivers m p)"
proof -
  have "(\<Sum>c\<leftarrow>mod_cells m. cell_amount nv ns n c) = (\<Sum>c\<leftarrow>mod_cells m. of_bool (cell_type c = ''$dff'' \<and> cell_ptr c = p))"
    by (rule sum_list_congr) (use assms in \<open>auto simp: cell_amount_def\<close>)
  then show ?thesis using assms(1) by (simp add: total_def reg_drivers_def sum_of_bool)
qed

lemma total_none:
  assumes "\<And>u. nv u \<noteq> n" "\<And>k. snd (ns k) \<noteq> n"
  shows "total nv ns n m = 0"
proof -
  have "cell_amount nv ns n c = 0" for c by (simp add: cell_amount_def assms)
  then show ?thesis by (simp add: total_def assms)
qed

lemma sum_list_monot: "(\<And>x. x \<in> set xs \<Longrightarrow> f x \<le> (g x :: int)) \<Longrightarrow> (\<Sum>x\<leftarrow>xs. f x) \<le> (\<Sum>x\<leftarrow>xs. g x)"
  by (induction xs) (auto intro: add_mono)

lemma total_ge:
  shows "whole_outputs m \<Longrightarrow> nv v = n \<Longrightarrow> int (wire_drivers m v) \<le> total nv ns n m" "snd (ns p) = n \<Longrightarrow> int (reg_drivers m p) \<le> total nv ns n m"
proof -
  assume o: "whole_outputs m" "nv v = n"
  have "(\<Sum>c\<leftarrow>mod_cells m. of_bool (cell_type c \<noteq> ''$manticore'' \<and> cell_output c = Some v)) \<le> (\<Sum>c\<leftarrow>mod_cells m. cell_amount nv ns n c)"
    by (rule sum_list_monot) (use o in \<open>auto simp: cell_amount_def\<close>)
  moreover have "(\<Sum>x\<leftarrow>mod_connections m. (of_bool (case x of (l, r) \<Rightarrow> whole_wire l = Some v) :: int)) \<le>
      (\<Sum>x\<leftarrow>mod_connections m. of_bool (nv (the (whole_wire (fst x))) = n))"
    by (rule sum_list_monot) (use o in \<open>auto split: prod.splits\<close>)
  ultimately show "int (wire_drivers m v) \<le> total nv ns n m" by (simp add: total_def wire_drivers_def sum_of_bool)
next
  assume o: "snd (ns p) = n"
  have "(\<Sum>c\<leftarrow>mod_cells m. of_bool (cell_type c = ''$dff'' \<and> cell_ptr c = p)) \<le> (\<Sum>c\<leftarrow>mod_cells m. cell_amount nv ns n c)"
    by (rule sum_list_monot) (use o in \<open>auto simp: cell_amount_def\<close>)
  then show "int (reg_drivers m p) \<le> total nv ns n m" by (simp add: total_def reg_drivers_def sum_of_bool)
qed


lemma state_reg:
  assumes "tables_ok w" "map_of (states w) p = Some (q, d)"
  shows "\<exists>g\<in>set (regs w). reg_input g = q \<and> reg_output g = d"
proof -
  have "(q, d) \<in> set (map snd (states w))" using map_of_SomeD [OF assms(2)] by force
  also have "\<dots> = set (map (\<lambda>g. (reg_input g, reg_output g)) (regs w))"
    using assms(1) by (intro mset_eq_setD) (simp add: tables_ok_def)
  finally show ?thesis by auto
qed

lemma state_outputs_distinct:
  assumes "tables_ok w" "distinct (concat (map reg_names (regs w)))"
  shows "distinct (map (snd \<circ> snd) (states w))"
proof -
  have "image_mset snd (mset (map snd (states w))) = image_mset snd (mset (map (\<lambda>g. (reg_input g, reg_output g)) (regs w)))"
    using assms(1) by (simp only: tables_ok_def)
  then have "mset (map (snd \<circ> snd) (states w)) = mset (map reg_output (regs w))"
    by (simp add: multiset.map_comp comp_def)
  then show ?thesis using reg_outputs_distinct [OF assms(2)] mset_eq_imp_distinct_iff by metis
qed

text \<open>The final name of a wire is one of its own, and so is that of the next value of a register.\<close>

lemma wire_name_kind:
  assumes "map_of (wires w) v = Some k"
  shows "name_of_wire w v = k" "k \<in> set (map snd (wires w))"
  using assms map_of_SomeD [OF assms] by (force simp: name_of_wire_def)+

lemma name_of_wire_cases: "name_of_wire w u = no_name \<or> name_of_wire w u \<in> set (map snd (wires w))"
  using wire_name_kind [of w u] by (cases "map_of (wires w) u") (auto simp: name_of_wire_def)

lemma next_name_cases:
  assumes "tables_ok w"
  shows "snd (names_of_reg w p) = no_name \<or> snd (names_of_reg w p) \<in> reg_output ` set (regs w)"
  using state_reg [OF assms] by (force simp: names_of_reg_def split: option.splits)


lemma reg_outputs_names: "reg_output ` set gs \<subseteq> set (concat (map reg_names gs))"
  by (auto simp: reg_names_def)

lemma count_list_distinct: "distinct xs \<Longrightarrow> count_list xs n = (if n \<in> set xs then 1 else 0)"
  by (induction xs) auto

lemma distinct_mapD: "distinct (map f xs) \<Longrightarrow> x \<in> set xs \<Longrightarrow> y \<in> set xs \<Longrightarrow> f x = f y \<Longrightarrow> x = y"
  by (simp add: distinct_map inj_on_def)

section \<open>Every name is written as often as it should\<close>

definition settled :: "module_t \<Rightarrow> writer \<Rightarrow> bool" where
  "settled m w \<longleftrightarrow> names_inv w \<and> tables_ok w \<and> whole_outputs m \<and> (\<forall>n. net n w = total (name_of_wire w) (names_of_reg w) n m)"

lemma settled_kinds:
  assumes "settled m w"
  shows "set (temps w) \<inter> set (map snd (wires w)) = {}" "set (temps w) \<inter> set (concat (map reg_names (regs w))) = {}"
    "set (temps w) \<inter> set (map consti_name (cdefs w)) = {}" "set (map snd (wires w)) \<inter> set (concat (map reg_names (regs w))) = {}"
    "set (map snd (wires w)) \<inter> set (map consti_name (cdefs w)) = {}" "set (concat (map reg_names (regs w))) \<inter> set (map consti_name (cdefs w)) = {}"
    "distinct (temps w)" "distinct (map snd (wires w))" "distinct (concat (map reg_names (regs w)))"
    "no_name \<notin> set (temps w @ map snd (wires w) @ concat (map reg_names (regs w)) @ map consti_name (cdefs w))"
proof -
  have i: "names_inv w" "tables_ok w" using assms by (simp_all add: settled_def)
  note p = names_parts [OF i]
  show "set (temps w) \<inter> set (map snd (wires w)) = {}" "set (temps w) \<inter> set (concat (map reg_names (regs w))) = {}"
    "set (temps w) \<inter> set (map consti_name (cdefs w)) = {}" "set (map snd (wires w)) \<inter> set (concat (map reg_names (regs w))) = {}"
    "set (map snd (wires w)) \<inter> set (map consti_name (cdefs w)) = {}" "set (concat (map reg_names (regs w))) \<inter> set (map consti_name (cdefs w)) = {}"
    "distinct (temps w)" "distinct (map snd (wires w))" "distinct (concat (map reg_names (regs w)))"
    using p(1) unfolding distinct_append set_append by blast+
  show "no_name \<notin> set (temps w @ map snd (wires w) @ concat (map reg_names (regs w)) @ map consti_name (cdefs w))"
    using p(2) no_name_undeclared [OF i(1)] by blast
qed

lemma settled_count:
  assumes "settled m w"
  shows "n \<notin> set (temps w) \<Longrightarrow> int (assignments w n) = total (name_of_wire w) (names_of_reg w) n m"
    "n \<in> set (temps w) \<Longrightarrow> int (assignments w n) = total (name_of_wire w) (names_of_reg w) n m + 1"
proof -
  have "net n w = total (name_of_wire w) (names_of_reg w) n m" using assms by (simp add: settled_def)
  then have e: "int (assignments w n) = total (name_of_wire w) (names_of_reg w) n m + int (count_list (temps w) n)"
    by (simp add: net_def temps_def)
  show "n \<notin> set (temps w) \<Longrightarrow> int (assignments w n) = total (name_of_wire w) (names_of_reg w) n m"
    using e by (simp add: count_list_0_iff)
  show "n \<in> set (temps w) \<Longrightarrow> int (assignments w n) = total (name_of_wire w) (names_of_reg w) n m + 1"
    using e count_list_distinct [OF settled_kinds(7) [OF assms]] by simp
qed

lemma wire_written:
  assumes s: "settled m w" and k: "map_of (wires w) v = Some k"
  shows "assignments w k = wire_drivers m v"
proof -
  note d = settled_kinds [OF s] and wk = wire_name_kind [OF k]
  have t: "tables_ok w" "whole_outputs m" using s by (simp_all add: settled_def)
  have n: "k \<noteq> no_name" "k \<notin> set (concat (map reg_names (regs w)))" "k \<notin> set (temps w)"
    using wk(2) d(1,4,10) unfolding set_append by blast+
  have "name_of_wire w u = k \<longleftrightarrow> u = v" for u
  proof
    assume e: "name_of_wire w u = k"
    then have "map_of (wires w) u = Some k" using n(1) by (simp add: name_of_wire_def split: option.splits)
    from distinct_mapD [OF d(8) map_of_SomeD [OF this] map_of_SomeD [OF k]] show "u = v" by simp
  qed (use wk(1) in simp)
  moreover have "snd (names_of_reg w p) \<noteq> k" for p
    using next_name_cases [OF t(1), of p] n(1,2) reg_outputs_names [of "regs w"] by blast
  ultimately have "total (name_of_wire w) (names_of_reg w) k m = int (wire_drivers m v)"
    by (rule total_wire [OF t(2)])
  then show ?thesis using settled_count(1) [OF s n(3)] by simp
qed

lemma not_wire:
  assumes "settled m w" "n \<noteq> no_name" "n \<notin> set (map snd (wires w))"
  shows "name_of_wire w u \<noteq> n"
  using name_of_wire_cases [of w u] assms(2,3) by auto

lemma reg_written:
  assumes s: "settled m w" and k: "map_of (states w) p = Some (q, d)"
  shows "assignments w d = reg_drivers m p" "assignments w q = 0"
proof -
  note c = settled_kinds [OF s]
  have t: "tables_ok w" using s by (simp add: settled_def)
  obtain g where g: "g \<in> set (regs w)" "reg_input g = q" "reg_output g = d" using state_reg [OF t k] by blast
  then have m: "q \<in> set (concat (map reg_names (regs w)))" "d \<in> set (concat (map reg_names (regs w)))"
    by (auto simp: reg_names_def)
  then have n: "q \<noteq> no_name" "d \<noteq> no_name" "q \<notin> set (map snd (wires w))" "d \<notin> set (map snd (wires w))" "q \<notin> set (temps w)" "d \<notin> set (temps w)"
    using c(2,4,10) unfolding set_append by blast+
  have "snd (names_of_reg w r) = d \<longleftrightarrow> r = p" for r
  proof
    assume e: "snd (names_of_reg w r) = d"
    then obtain q' where "map_of (states w) r = Some (q', d)" using n(2) by (auto simp: names_of_reg_def split: option.splits)
    from distinct_mapD [OF state_outputs_distinct [OF t c(9)] map_of_SomeD [OF this] map_of_SomeD [OF k]] show "r = p" by simp
  qed (simp add: names_of_reg_def k)
  then have "total (name_of_wire w) (names_of_reg w) d m = int (reg_drivers m p)"
    using not_wire [OF s n(2,4)] by (intro total_reg)
  then show "assignments w d = reg_drivers m p" using settled_count(1) [OF s n(6)] by simp
  have "snd (names_of_reg w r) \<noteq> q" for r
    using next_name_cases [OF t, of r]
  proof
    assume "snd (names_of_reg w r) \<in> reg_output ` set (regs w)"
    then obtain h where "h \<in> set (regs w)" "snd (names_of_reg w r) = reg_output h" by blast
    moreover have "q \<noteq> reg_output h" if "h \<in> set (regs w)" using reg_names_kinds [OF c(9) g(1) that] g(2) by simp
    ultimately show ?thesis by simp
  qed (use n(1) in simp)
  then have "total (name_of_wire w) (names_of_reg w) q m = 0"
    using not_wire [OF s n(1,3)] by (intro total_none)
  then show "assignments w q = 0" using settled_count(1) [OF s n(5)] by simp
qed

lemma other_written:
  assumes s: "settled m w"
  shows "n \<in> set (temps w) \<Longrightarrow> assignments w n = 1" "n \<in> set (map consti_name (cdefs w)) \<Longrightarrow> assignments w n = 0"
proof -
  note c = settled_kinds [OF s]
  have t: "tables_ok w" using s by (simp add: settled_def)
  have z: "total (name_of_wire w) (names_of_reg w) n m = 0"
    if "n \<noteq> no_name" "n \<notin> set (map snd (wires w))" "n \<notin> set (concat (map reg_names (regs w)))"
  proof -
    have "snd (names_of_reg w p) \<noteq> n" for p
      using next_name_cases [OF t, of p] that(1,3) reg_outputs_names [of "regs w"] by blast
    then show ?thesis using not_wire [OF s that(1,2)] by (intro total_none)
  qed
  show "assignments w n = 1" if n: "n \<in> set (temps w)"
  proof -
    have "n \<noteq> no_name" "n \<notin> set (map snd (wires w))" "n \<notin> set (concat (map reg_names (regs w)))"
      using n c(1,2,10) unfolding set_append by blast+
    from z [OF this] show ?thesis using settled_count(2) [OF s n] by simp
  qed
  show "assignments w n = 0" if n: "n \<in> set (map consti_name (cdefs w))"
  proof -
    have k: "n \<noteq> no_name" "n \<notin> set (map snd (wires w))" "n \<notin> set (concat (map reg_names (regs w)))" "n \<notin> set (temps w)"
      using n c(3,5,6,10) unfolding set_append by blast+
    from z [OF k(1-3)] show ?thesis using settled_count(1) [OF s k(4)] by simp
  qed
qed

lemma absent_undriven:
  assumes s: "settled m w"
  shows "map_of (wires w) v = None \<Longrightarrow> wire_drivers m v = 0" "map_of (states w) p = None \<Longrightarrow> reg_drivers m p = 0"
proof -
  have t: "names_inv w" "whole_outputs m" using s by (simp_all add: settled_def)
  have "no_name \<notin> set (temps w)" using settled_kinds(10) [OF s] by simp
  then have z: "total (name_of_wire w) (names_of_reg w) no_name m = 0"
    using settled_count(1) [OF s, of no_name] undeclared [OF t(1) no_name_undeclared [OF t(1)]] by simp
  show "map_of (wires w) v = None \<Longrightarrow> wire_drivers m v = 0"
    using total_ge(1) [OF t(2), of "name_of_wire w" v no_name "names_of_reg w"] z by (simp add: name_of_wire_def)
  show "map_of (states w) p = None \<Longrightarrow> reg_drivers m p = 0"
    using total_ge(2) [of "names_of_reg w" p no_name m "name_of_wire w"] z by (simp add: names_of_reg_def)
qed

lemma settled_driven:
  assumes "settled m w"
  shows "driven m w"
  unfolding driven_def
proof (intro conjI allI ballI)
  show "wire_drivers m v = (case map_of (wires w) v of Some n \<Rightarrow> assignments w n | None \<Rightarrow> 0)" for v
    using wire_written [OF assms] absent_undriven(1) [OF assms] by (simp split: option.splits)
  show "reg_drivers m p = (case map_of (states w) p of Some (q, d) \<Rightarrow> assignments w d | None \<Rightarrow> 0)" for p
    using reg_written(1) [OF assms] absent_undriven(2) [OF assms] by (simp split: option.splits prod.splits)
  show "assignments w r = 1" if "d \<in> set (wdefs w)" "r \<in> set (temp_names d)" for d r
    using other_written(1) [OF assms, of r] that by (auto simp: temps_def)
  show "assignments w (consti_name c) = 0" if "c \<in> set (cdefs w)" for c
    using other_written(2) [OF assms, of "consti_name c"] that by auto
  have "distinct (map fst (states w))" using assms by (simp add: settled_def tables_ok_def)
  then show "case x of (p, q, d) \<Rightarrow> assignments w q = 0" if "x \<in> set (states w)" for x
    using reg_written(2) [OF assms] that by (auto simp: map_of_eq_Some_iff split: prod.splits)
qed

lemma generate_driven:
  assumes "module_ok sem m" "whole_outputs m" "generate (writer_new m) = Inr (u, w)"
  shows "driven m w"
proof (rule settled_driven)
  note b = generate_balance [OF assms]
  have "names_inv w" using safeD(1) [OF safe_generate names_inv_new _ assms(3), of "{}"] by simp
  then show "settled m w"
    using b(1) b(2) [OF final_agrees [OF b(1)]] assms(2) by (simp add: settled_def)
qed


section \<open>Correctness of the pass\<close>

lemma ref_whole_outputs: "whole_outputs ref_module"
  by code_simp

text \<open>C1: for every module without memories whose cells are of the supported kinds with consistent widths, whose ports are made of bits of
  their wires, and whose outputs and left sides of connections are whole wires, generating the program succeeds.  Every assignment of values to wires and registers that satisfies the
  instructions satisfies the netlist: the outputs of every operator cell are the constant evaluation of its inputs, registers
  step to their data input, every system call is issued with its condition and arguments, and both sides of every connection agree.  Every
  instruction writes the side it should: each temporary is written by exactly one
  instruction, constants and current values of registers by none, the next value of a register once for its cell, and a wire as often as
  it is the output of a cell or the left side of a connection, that is, once where the netlist has one driver and never where it has none.  The host calls are those of the system calls in the order of \<open>ORDER\<close>.\<close>

theorem generate_correct:
  assumes "isa_ok sem" "module_ok sem m" "whole_outputs m"
  shows "\<exists>w. generate (writer_new m) = Inr ((), w) \<and> (\<forall>I. models sem I w \<longrightarrow> module_means sem m I) \<and>
    driven m w \<and> calls_ordered m w"
proof -
  obtain w where w: "generate (writer_new m) = Inr ((), w)" "\<forall>I. models sem I w \<longrightarrow> module_means sem m I"
    using generate_ok [OF assms(1,2)] by (elim exE conjE)
  show ?thesis
    by (rule exI [of _ w], rule conjI [OF w(1) conjI [OF w(2) conjI [OF generate_driven [OF assms(2,3) w(1)] generate_calls [OF w(1)]]]])
qed

theorem generate_correct_witness:
  "models ref_isa ref_interp ref_final \<and> module_means ref_isa ref_module ref_interp \<and>
   sigv ref_interp (wire_sig (ref_wire 4)) = (3 + 3) mod 4 \<and> driven ref_module ref_final"
proof -
  obtain w where w: "generate (writer_new ref_module) = Inr ((), w)"
    "\<forall>I. models ref_isa I w \<longrightarrow> module_means ref_isa ref_module I" "driven ref_module w"
    using generate_correct [OF ref_isa_ok ref_module_ok ref_whole_outputs] by (elim exE conjE)
  have e: "w = ref_final" using w(1) unfolding ref_generate by (simp only: sum.inject prod.inject)
  have m: "module_means ref_isa ref_module ref_interp"
    using spec [OF w(2), of ref_interp] ref_models unfolding e by (simp only: simp_thms)
  have v: "sigv ref_interp (wire_sig (ref_wire 4)) = (3 + 3) mod 4" by code_simp
  show ?thesis by (rule conjI [OF ref_models conjI [OF m conjI [OF v w(3) [unfolded e]]]])
qed

end
