(* ===== verification/Spec2Isabelle.thy ===== *)
theory Spec2Isabelle
  imports Calc WriterDrive
begin

text \<open>
  A verification of the core of the Manticore frontend, a fork of Yosys: the kernel data structures on
  which every pass works, constant evaluation, and the back end that turns a netlist into Manticore assembly.  The theories are listed bottom up;
  file names are relative to \<open>src/\<close>.

  \<^bold>\<open>Constants.\<close>  Theory Prelude has the error values (\<open>'a res\<close> with \<open>bindE\<close>, \<open>guardE\<close>, \<open>foldE\<close>) and the arithmetic of bit lists.
  RtlilConst models \<open>RTLIL::State\<close> and \<open>RTLIL::Const\<close> (\<open>kernel/rtlil.h\<close>, \<open>kernel/rtlil.cc\<close>) as lists of states with the flag
  word; \<open>as_int\<close> wraps to 32 bits as the code does.  Calc has one definition per \<open>const_*\<close> function of
  \<open>kernel/calc.cc\<close>, in the order of the file, and shows that on defined operands each computes the
  arithmetic of two's complement numbers of the requested width, and what each does on undefined bits.

  \<^bold>\<open>Hash containers\<close> (\<open>kernel/hashlib.h\<close>).  Hashlib models the chained hash table shared by \<open>dict\<close> and \<open>pool\<close>: the entries with
  their chain links, the bucket vector and the capacity the resizing depends on; the hash function is a parameter.
  Dict, Pool and Mfp model the classes \<open>dict\<close>, \<open>pool\<close>, \<open>idict\<close> and \<open>mfp\<close> operation by operation and prove that a table
  with the invariant stands for a finite map, a finite set, a numbering and a partition, and
  that every operation keeps the invariant and computes the operation of the abstract object.  The locales \<open>finite_map\<close>,
  \<open>finite_set\<close> and \<open>partition\<close> are the interfaces the clients use; each is interpreted on the model of the class.
  A walk along a chain takes as many steps as there are entries, which the invariant shows to be enough; the loops over parent
  links of \<open>mfp\<close> are partial functions and shown to end under the invariant.

  \<^bold>\<open>Signals\<close> (\<open>kernel/rtlil.h\<close>, \<open>kernel/rtlil.cc\<close>, \<open>kernel/sigtools.h\<close>).  SigSpec models \<open>SigBit\<close>, \<open>SigChunk\<close> and the two representations of
  \<open>SigSpec\<close>, packed chunks and unpacked bits, with the cached hash; SigOps its operations.  \<open>sig_bits\<close> is the list of bits a signal stands for, and
  every operation is specified on it.  SigTools models \<open>SigPool\<close>, \<open>SigSet\<close> and \<open>SigMap\<close> over the container models; a
  \<open>SigMap\<close> refines the equivalence closure of the connections of a module.

  \<^bold>\<open>The Manticore writer\<close> (\<open>passes/manticore\<close>).  ManticoreUtils has \<open>split\<close> and the run-length description of a signal
  (\<open>manticore_utils.cc\<close>, \<open>manticore_utils.h\<close>), Netlist what the writer reads of cells, memories and modules.  Writer models
  \<open>manticore_writer.cc\<close>: the record \<open>writer\<close> is the worker with its builders, a member function is a state transformer
  that may fail (\<open>'a wm\<close>), and the text streams are lists of items with a printing function.  WriterSem gives the generated program
  its meaning.  The instruction set of the processor is not part of the repository: it is a parameter \<open>sem\<close>, and
  \<open>isa_ok\<close> states what the writer relies on, each law under the widths for which the writer uses the instruction.
  The instructions of a cycle are read as a system of equations (\<open>models\<close>), and \<open>computes\<close> is the total-correctness triple of a member
  function, with one rule for each builder.  WriterCells proves the translation of the cells against
  the constant evaluation of Calc, and WriterModule puts the module together: \<open>generate\<close> succeeds on every module of supported cells
  without memories, and every solution of the program is a solution of the netlist.  \<open>ref_isa\<close> is an
  instruction set with the assumed laws and \<open>ref_module\<close> a module with an adder, a register, a system call and a connection whose program has a solution.
  Three further theories look at the program itself, each with a triple of its own.  WriterNames (\<open>safe\<close>): names are declared once and
  used only when declared, memory ports included.  WriterTrace (\<open>adds\<close>): the host calls of the program are those of the system calls, sorted by
  \<open>ORDER\<close>.  WriterDrive (\<open>drives\<close>): the equations do not say which side of a \<open>MOV\<close> is written, so the writes to every name are counted: each temporary
  is written once, constants and current values of registers never, the next value of a register once for its cell, and
  a wire once for each cell or connection that drives it.  This holds for modules whose outputs are whole wires, which is what
  \<open>manticore_subword\<close> leaves; for an output that is part of a wire the writer would write the register that holds a copy of these bits, not the wire.  The theorem \<open>generate_correct\<close> at the end of that theory
  joins the results.

  \<^bold>\<open>Integers.\<close>  A C++ \<open>int\<close> is kept at its width where an input of the code can make it overflow: the conversions of constants, the shifts of
  memory bounds, the sums of offsets and lengths of signals.  Counters that grow by one for each object in memory (widths of signals and vectors, the indices of the
  name builders) are unbounded numbers: to exceed \<open>INT_MAX\<close> they need more than two thousand million objects.

  \<^bold>\<open>Not modelled.\<close>  Editing of modules and designs, and with it the passes that rewrite the netlist in place, among them the other
  Manticore passes; \<open>SigSpec::parse\<close>, which reads names of a module; the frontends, backends, technology libraries
  and the generic passes of Yosys; the bundled solver libraries.  Of the writer, opening the output
  file is left out, and the text of a signal in a comment (\<open>log_signal\<close>) is a parameter.  The statements after the \<open>log_error\<close> of
  \<open>$shift\<close> and \<open>$shiftx\<close> cannot be reached.
\<close>

end
